(* ===== verification/JsPrelude.thy ===== *)
theory JsPrelude
  imports Main "HOL-Library.Word" "HOL-Library.List_Lexorder" "HOL-Library.AList" "HOL-Library.Multiset"
begin

text \<open>
  What the components share: JavaScript strings, plain objects and \<open>Map\<close>s, and the
  generic lemmas about them.

  \<^item> A string of the program is a list of UTF-16 code units, \<open>ustring\<close>; \<open>length\<close> is the
    source's \<open>.length\<close>, \<open><\<close> (from \<open>List_Lexorder\<close>) its comparison of strings. A literal
    is written \<open>ju ''abc''\<close>.
  \<^item> A plain object and a \<open>Map\<close> are association lists in insertion order:
    \<open>AList.update\<close> overwrites in place or appends, \<open>AList.delete\<close> removes, which are the
    orders JavaScript prescribes. \<open>obj_entries\<close> is \<open>Object.entries\<close>, which lists the
    integer-index keys first, in ascending order.
\<close>

named_theorems js_simps \<open>unfoldings of the JavaScript operations\<close>

section \<open>Strings\<close>

type_synonym ustring = "16 word list"

definition ju :: "string \<Rightarrow> ustring" where
  [js_simps]: "ju s = map of_char s"

lemma length_ju [simp]: "length (ju s) = length s"
  by (simp add: ju_def)

lemma ju_eq_Nil_iff [simp]: "ju s = [] \<longleftrightarrow> s = []"
  by (simp add: ju_def)

lemma Nil_eq_ju_iff [simp]: "[] = ju s \<longleftrightarrow> s = []"
  by (auto simp: ju_def)

lemma of_char_word_inject: "(of_char c :: 16 word) = of_char d \<longleftrightarrow> c = d"
proof
  assume *: "(of_char c :: 16 word) = of_char d"
  have "unat (of_char e :: 16 word) = of_char e" for e
  proof -
    have "(of_char e :: nat) mod 256 < 256"
      by simp
    then have "(of_char e :: nat) < 256"
      by (simp only: of_char_mod_256)
    then have "(of_char e :: nat) < 2 ^ LENGTH(16)"
      by (rule order_less_le_trans) simp
    then have "unat (of_nat (of_char e) :: 16 word) = of_char e"
      by (simp add: unat_of_nat take_bit_nat_eq_self)
    then show ?thesis
      by (simp only: of_nat_of_char)
  qed
  with * have "(of_char c :: nat) = of_char d"
    by metis
  then show "c = d"
    by simp
qed simp

lemma ju_inject: "ju s = ju t \<longleftrightarrow> s = t"
  unfolding ju_def by (rule inj_map_eq_map) (auto simp: inj_def of_char_word_inject)

section \<open>Prefixes and joins\<close>

fun starts_with :: "'a list \<Rightarrow> 'a list \<Rightarrow> bool" where
  "starts_with xs [] = True"
| "starts_with [] (y # ys) = False"
| "starts_with (x # xs) (y # ys) = (x = y \<and> starts_with xs ys)"

lemma starts_with_iff: "starts_with xs ys \<longleftrightarrow> (\<exists>zs. xs = ys @ zs)"
  by (induction xs ys rule: starts_with.induct) auto

lemma starts_with_append [simp]: "starts_with (ys @ zs) ys"
  by (auto simp: starts_with_iff)

lemma starts_with_drop: "starts_with xs ys \<Longrightarrow> ys @ drop (length ys) xs = xs"
  by (auto simp: starts_with_iff)

fun join :: "'a list \<Rightarrow> 'a list list \<Rightarrow> 'a list" where
  "join sep [] = []"
| "join sep [x] = x"
| "join sep (x # y # zs) = x @ sep @ join sep (y # zs)"

text \<open>\<open>s.split(c)\<close> for a separator of one unit.\<close>

fun split_on :: "'a \<Rightarrow> 'a list \<Rightarrow> 'a list list" where
  "split_on c [] = [[]]"
| "split_on c (x # xs) =
     (if x = c then [] # split_on c xs
      else (case split_on c xs of [] \<Rightarrow> [[x]] | p # ps \<Rightarrow> (x # p) # ps))"

lemma split_on_nonempty [simp]: "split_on c xs \<noteq> []"
  by (induction xs) (auto split: list.split)

lemma join_split_on: "join [c] (split_on c xs) = xs"
proof (induction xs)
  case (Cons x xs)
  then show ?case
    by (cases "split_on c xs" rule: list.exhaust; cases "tl (split_on c xs)") auto
qed simp

lemma split_on_no_separator: "c \<notin> set xs \<Longrightarrow> split_on c xs = [xs]"
  by (induction xs) auto

lemma split_on_append: "c \<notin> set xs \<Longrightarrow> split_on c (xs @ c # ys) = xs # split_on c ys"
  by (induction xs) auto

lemma split_on_join: "xs \<noteq> [] \<Longrightarrow> \<forall>x \<in> set xs. c \<notin> set x \<Longrightarrow> split_on c (join [c] xs) = xs"
  by (induction "[c]" xs rule: join.induct) (auto simp: split_on_no_separator split_on_append)

section \<open>Association lists in insertion order\<close>

lemma map_of_update: "map_of (AList.update k v al) k' = (if k' = k then Some v else map_of al k')"
  by (simp add: update_conv')

lemma map_of_delete: "map_of (AList.delete k al) k' = (if k' = k then None else map_of al k')"
  by (simp add: delete_conv')

lemma update_fresh: "k \<notin> fst ` set al \<Longrightarrow> AList.update k v al = al @ [(k, v)]"
  by (induction al) auto

lemma update_set_eq:
  "distinct (map fst al) \<Longrightarrow>
   set (AList.update k v al) = insert (k, v) {p \<in> set al. fst p \<noteq> k}"
  by (induction al) (auto simp: image_iff)

lemma keys_update [simp]: "fst ` set (AList.update k v al) = insert k (fst ` set al)"
  by (induction al) auto

lemma length_update: "length (AList.update k v al) =
    (if k \<in> fst ` set al then length al else Suc (length al))"
  by (induction al) auto

lemma length_delete_le: "length (AList.delete k al) \<le> length al"
  by (simp add: AList.delete_eq)

lemma distinct_map_fst_eq_map_of:
  "distinct (map fst al) \<Longrightarrow> (k, v) \<in> set al \<longleftrightarrow> map_of al k = Some v"
  by (metis map_of_SomeD map_of_is_SomeI)

lemma delete_first: "distinct (map fst ((k, v) # rest)) \<Longrightarrow> AList.delete k ((k, v) # rest) = rest"
  by (induction rest) auto

lemma map_of_map_snd: "map_of (map (\<lambda>(k, x). (k, f x)) al) k = map_option f (map_of al k)"
  by (induction al) auto

lemma fold_update_fresh:
  "distinct (map fst al) \<Longrightarrow> fst ` set al \<inter> fst ` set acc = {} \<Longrightarrow>
   fold (\<lambda>(k, x) acc. AList.update k (f x) acc) al acc = acc @ map (\<lambda>(k, x). (k, f x)) al"
proof (induction al arbitrary: acc)
  case (Cons p al)
  then show ?case
    by (cases p) (auto simp: update_fresh)
qed simp

section \<open>Plain objects\<close>

type_synonym 'v jsobj = "(ustring \<times> 'v) list"

definition is_digit :: "16 word \<Rightarrow> bool" where
  [js_simps]: "is_digit u \<longleftrightarrow> 48 \<le> u \<and> u \<le> 57"

definition decimal_value :: "ustring \<Rightarrow> nat" where
  [js_simps]: "decimal_value ds = foldl (\<lambda>n d. 10 * n + (unat d - 48)) 0 ds"

text \<open>A natural number as text.\<close>

fun decimal_text :: "nat \<Rightarrow> ustring" where
  "decimal_text n = (if n < 10 then [word_of_nat (48 + n)] else decimal_text (n div 10) @ [word_of_nat (48 + n mod 10)])"

declare decimal_text.simps [simp del]

lemma unat_digit: "d < 10 \<Longrightarrow> unat (word_of_nat (48 + d) :: 16 word) = 48 + d"
  by (simp only: unat_of_nat) (simp add: take_bit_nat_eq_self del: of_nat_add)

lemma is_digit_unit: "d < 10 \<Longrightarrow> is_digit (word_of_nat (48 + d))"
  unfolding is_digit_def word_le_nat_alt by (simp only: unat_digit) simp

lemma decimal_value_snoc: "d < 10 \<Longrightarrow> decimal_value (ds @ [word_of_nat (48 + d)]) = 10 * decimal_value ds + d"
  unfolding decimal_value_def foldl_append foldl.simps by (simp add: unat_digit del: of_nat_add)

lemma decimal_text_digits: "list_all is_digit (decimal_text n)"
proof (induction n rule: decimal_text.induct)
  case (1 n)
  have "is_digit (word_of_nat (48 + n mod 10))"
    by (rule is_digit_unit) simp
  then show ?case
    using 1 is_digit_unit [of n] by (subst decimal_text.simps) (simp del: of_nat_add)
qed

lemma decimal_text_nonempty [simp]: "decimal_text n \<noteq> []"
  by (subst decimal_text.simps) simp

lemma decimal_value_text [simp]: "decimal_value (decimal_text n) = n"
proof (induction n rule: decimal_text.induct)
  case (1 n)
  have "decimal_value [word_of_nat (48 + n)] = n" if "n < 10"
    using decimal_value_snoc [OF that, of "[]"] by (simp add: decimal_value_def)
  then show ?case
    using 1 decimal_value_snoc [of "n mod 10" "decimal_text (n div 10)"]
    by (subst decimal_text.simps) (simp del: of_nat_add)
qed

lemma decimal_text_inject: "decimal_text m = decimal_text n \<longleftrightarrow> m = n"
  by (metis decimal_value_text)

definition is_index_key :: "ustring \<Rightarrow> bool" where
  [js_simps]: "is_index_key k \<longleftrightarrow>
     k \<noteq> [] \<and> list_all is_digit k \<and> (hd k = 48 \<longrightarrow> k = [48]) \<and> decimal_value k < 2 ^ 32 - 1"

definition obj_entries :: "'v jsobj \<Rightarrow> 'v jsobj" where
  "obj_entries ob =
     sort_key (\<lambda>p. decimal_value (fst p)) (filter (\<lambda>p. is_index_key (fst p)) ob) @
     filter (\<lambda>p. \<not> is_index_key (fst p)) ob"

definition obj_keys :: "'v jsobj \<Rightarrow> ustring list" where
  "obj_keys ob = map fst (obj_entries ob)"

definition obj_values :: "'v jsobj \<Rightarrow> 'v list" where
  "obj_values ob = map snd (obj_entries ob)"

text \<open>\<open>{ ...a, ...b }\<close>: the entries of \<open>b\<close> written over those of \<open>a\<close>.\<close>

definition obj_assign_all :: "'v jsobj \<Rightarrow> 'v jsobj \<Rightarrow> 'v jsobj" where
  "obj_assign_all a b = fold (\<lambda>(k, v) acc. AList.update k v acc) b a"

definition obj_spread :: "'v jsobj \<Rightarrow> 'v jsobj \<Rightarrow> 'v jsobj" where
  "obj_spread a b = obj_assign_all (obj_assign_all [] (obj_entries a)) (obj_entries b)"

lemma set_obj_entries [simp]: "set (obj_entries ob) = set ob"
  by (auto simp: obj_entries_def)

lemma mset_obj_entries: "mset (obj_entries ob) = mset ob"
  by (simp add: obj_entries_def multiset_partition [symmetric])

lemma length_obj_entries [simp]: "length (obj_entries ob) = length ob"
  by (metis mset_obj_entries size_mset)

lemma obj_entries_plain: "\<forall>p \<in> set ob. \<not> is_index_key (fst p) \<Longrightarrow> obj_entries ob = ob"
  by (simp add: obj_entries_def filter_id_conv filter_empty_conv)

lemma index_key_first: "is_index_key (u # k) \<Longrightarrow> is_digit u"
  by (simp add: is_index_key_def)

lemma set_obj_keys [simp]: "set (obj_keys ob) = fst ` set ob"
  by (simp add: obj_keys_def)

lemma distinct_obj_keys: "distinct (obj_keys ob) \<longleftrightarrow> distinct (map fst ob)"
  unfolding obj_keys_def
  by (metis mset_eq_imp_distinct_iff mset_map mset_obj_entries)

lemma map_of_obj_entries:
  "distinct (map fst ob) \<Longrightarrow> map_of (obj_entries ob) = map_of ob"
  using distinct_obj_keys [of ob] unfolding obj_keys_def
  by (metis map_of_inject_set set_obj_entries)

lemma sum_obj_entries:
  "sum_list (map f (obj_entries ob)) = sum_list (map (f :: _ \<Rightarrow> 'a :: comm_monoid_add) ob)"
  by (metis mset_map mset_obj_entries sum_mset_sum_list)

lemma map_of_obj_assign_all:
  "distinct (map fst b) \<Longrightarrow> map_of (obj_assign_all a b) k =
     (case map_of b k of None \<Rightarrow> map_of a k | Some v \<Rightarrow> Some v)"
  unfolding obj_assign_all_def
proof (induction b arbitrary: a)
  case (Cons p b)
  then have "map_of b (fst p) = None"
    by (auto simp: map_of_eq_None_iff)
  with Cons show ?case
    by (cases p) (auto simp: map_of_update split: option.splits)
qed simp

lemma distinct_obj_assign_all:
  "distinct (map fst a) \<Longrightarrow> distinct (map fst (obj_assign_all a b))"
  unfolding obj_assign_all_def
  by (induction b arbitrary: a) (auto simp: distinct_update)

lemma map_of_obj_spread:
  assumes "distinct (map fst a)" and "distinct (map fst b)"
  shows "map_of (obj_spread a b) k =
     (case map_of b k of None \<Rightarrow> map_of a k | Some v \<Rightarrow> Some v)"
  using assms unfolding obj_spread_def
  by (simp add: map_of_obj_assign_all map_of_obj_entries distinct_obj_keys [unfolded obj_keys_def]
      split: option.split)

lemma distinct_obj_spread: "distinct (map fst (obj_spread a b))"
  unfolding obj_spread_def by (intro distinct_obj_assign_all) simp

section \<open>Property lookup on an object literal\<close>

text \<open>
  \<open>dict[key]\<close> on an object literal finds an own property or, failing that, a member of
  \<open>Object.prototype\<close>, which is truthy: a function (with its \<open>.length\<close>) or, for
  \<open>__proto__\<close>, the prototype object itself.
\<close>

datatype 'v lookup = Own 'v | ProtoFunction ustring nat | ProtoObject | Missing

definition prototype_functions :: "(ustring \<times> nat) list" where
  [js_simps]: "prototype_functions =
     [(ju ''constructor'', 1), (ju ''__defineGetter__'', 2), (ju ''__defineSetter__'', 2),
      (ju ''hasOwnProperty'', 1), (ju ''__lookupGetter__'', 1), (ju ''__lookupSetter__'', 1),
      (ju ''isPrototypeOf'', 1), (ju ''propertyIsEnumerable'', 1), (ju ''toString'', 0),
      (ju ''valueOf'', 0), (ju ''toLocaleString'', 0)]"

definition js_lookup :: "'v jsobj \<Rightarrow> ustring \<Rightarrow> 'v lookup" where
  [js_simps]: "js_lookup ob k = (case map_of ob k of
     Some v \<Rightarrow> Own v
   | None \<Rightarrow>
       (case map_of prototype_functions k of
         Some n \<Rightarrow> ProtoFunction k n
       | None \<Rightarrow> if k = ju ''__proto__'' then ProtoObject else Missing))"

definition prototype_member :: "ustring \<Rightarrow> bool" where
  [js_simps]: "prototype_member k \<longleftrightarrow> k \<in> fst ` set prototype_functions \<or> k = ju ''__proto__''"

lemma js_lookup_plain:
  "\<not> prototype_member k \<Longrightarrow> js_lookup ob k = (case map_of ob k of Some v \<Rightarrow> Own v | None \<Rightarrow> Missing)"
  by (auto simp: js_lookup_def prototype_member_def split: option.splits dest: map_of_SomeD
      intro: rev_image_eqI)

lemma js_lookup_Own: "js_lookup ob k = Own v \<longleftrightarrow> map_of ob k = Some v"
  by (auto simp: js_lookup_def split: option.splits)

end
