(* ===== verification/JsText.thy ===== *)
theory JsText
  imports JsPrelude
begin

text \<open>
  The text operations of the JavaScript runtime that the encoders use: reading a string by
  code points, UTF-8 (\<open>TextEncoder\<close>, \<open>Buffer.from(s, 'utf8')\<close>, \<open>buffer.toString('utf8')\<close>),
  base64 and \<open>encodeURIComponent\<close> / \<open>decodeURIComponent\<close>, each with its round trip.
  A lone surrogate is read as its own code point; UTF-8 writes it as U+FFFD, and
  \<open>encodeURIComponent\<close> throws on it (\<open>None\<close>).
\<close>

section \<open>Code points\<close>

type_synonym byte = "8 word"

definition is_high :: "16 word \<Rightarrow> bool" where
  "is_high u \<longleftrightarrow> 0xD800 \<le> unat u \<and> unat u \<le> 0xDBFF"

definition is_low :: "16 word \<Rightarrow> bool" where
  "is_low u \<longleftrightarrow> 0xDC00 \<le> unat u \<and> unat u \<le> 0xDFFF"

definition surrogate_pair :: "16 word \<Rightarrow> 16 word \<Rightarrow> nat" where
  "surrogate_pair h l = 0x10000 + (unat h - 0xD800) * 0x400 + (unat l - 0xDC00)"

text \<open>\<open>codePointAt\<close> at the head of a (rest of a) string.\<close>

fun code_point_at :: "ustring \<Rightarrow> nat option" where
  "code_point_at [] = None"
| "code_point_at [u] = Some (unat u)"
| "code_point_at (u # v # r) =
     (if is_high u \<and> is_low v then Some (surrogate_pair u v) else Some (unat u))"

fun code_points :: "ustring \<Rightarrow> nat list" where
  "code_points [] = []"
| "code_points [u] = [unat u]"
| "code_points (u # v # r) =
     (if is_high u \<and> is_low v then surrogate_pair u v # code_points r
      else unat u # code_points (v # r))"

text \<open>\<open>isWellFormed\<close>: no lone surrogate.\<close>

fun well_formed :: "ustring \<Rightarrow> bool" where
  "well_formed [] = True"
| "well_formed [u] = (\<not> is_high u \<and> \<not> is_low u)"
| "well_formed (u # v # r) =
     (if is_high u \<and> is_low v then well_formed r
      else \<not> is_high u \<and> \<not> is_low u \<and> well_formed (v # r))"

definition scalar_value :: "nat \<Rightarrow> bool" where
  "scalar_value c \<longleftrightarrow> c < 0xD800 \<or> (0xDFFF < c \<and> c < 0x110000)"

definition utf16 :: "nat \<Rightarrow> ustring" where
  "utf16 c = (if c < 0x10000 then [word_of_nat c]
     else [word_of_nat (0xD800 + (c - 0x10000) div 0x400),
           word_of_nat (0xDC00 + (c - 0x10000) mod 0x400)])"

lemma unat_le_65535: "unat (u :: 16 word) < 65536"
proof -
  have "unat u < 2 ^ LENGTH(16)"
    by (rule unsigned_less)
  then show ?thesis
    by simp
qed

lemma unat_le_255: "unat (b :: byte) < 256"
proof -
  have "unat b < 2 ^ LENGTH(8)"
    by (rule unsigned_less)
  then show ?thesis
    by simp
qed

lemma unat_of_nat_16 [simp]: "n < 65536 \<Longrightarrow> unat (word_of_nat n :: 16 word) = n"
  by (simp add: unat_of_nat take_bit_nat_eq_self)

lemma unat_of_nat_8 [simp]: "n < 256 \<Longrightarrow> unat (word_of_nat n :: byte) = n"
  by (simp add: unat_of_nat take_bit_nat_eq_self)

lemma surrogate_pair_range:
  assumes "is_high h" and "is_low l"
  shows "0x10000 \<le> surrogate_pair h l" and "surrogate_pair h l < 0x110000"
  using assms by (auto simp: is_high_def is_low_def surrogate_pair_def)

lemma utf16_surrogate_pair:
  assumes "is_high h" and "is_low l"
  shows "utf16 (surrogate_pair h l) = [h, l]"
proof -
  define a b where "a = unat h - 0xD800" and "b = unat l - 0xDC00"
  have h: "unat h = 0xD800 + a" and l: "unat l = 0xDC00 + b" and b: "b < 0x400"
    using assms by (auto simp: is_high_def is_low_def a_def b_def)
  have "(a * 0x400 + b) div 0x400 = a" and "(a * 0x400 + b) mod 0x400 = b"
    using b by auto
  moreover have "word_of_nat (unat h) = h" and "word_of_nat (unat l) = l"
    by simp_all
  ultimately show ?thesis
    by (simp add: utf16_def surrogate_pair_def h [symmetric] l [symmetric]
        a_def [symmetric] b_def [symmetric])
qed

lemma utf16_unit: "utf16 (unat u) = [u]"
  using unat_le_65535 [of u] by (simp add: utf16_def)

lemma utf16_code_points: "concat (map utf16 (code_points s)) = s"
  by (induction s rule: code_points.induct) (simp_all add: utf16_surrogate_pair utf16_unit)

lemma well_formed_scalar: "well_formed s \<Longrightarrow> list_all scalar_value (code_points s)"
proof (induction s rule: code_points.induct)
  case (3 u v r)
  then show ?case
    using surrogate_pair_range [of u v] unat_le_65535 [of u]
    by (auto simp: scalar_value_def is_high_def is_low_def split: if_splits)
next
  case (2 u)
  then show ?case
    using unat_le_65535 [of u] by (auto simp: scalar_value_def is_high_def is_low_def)
qed simp

section \<open>UTF-8\<close>

definition byte_of :: "nat \<Rightarrow> byte" where
  [js_simps]: "byte_of n = word_of_nat n"

lemma unat_byte_of [simp]: "n < 256 \<Longrightarrow> unat (byte_of n) = n"
  by (simp add: byte_of_def)

lemma byte_of_unat [simp]: "byte_of (unat b) = b"
  by (simp add: byte_of_def)

definition utf8_bytes :: "nat \<Rightarrow> byte list" where
  "utf8_bytes c =
     (if c < 0x80 then [byte_of c]
      else if c < 0x800 then [byte_of (0xC0 + c div 64), byte_of (0x80 + c mod 64)]
      else if c < 0x10000 then
        [byte_of (0xE0 + c div 4096), byte_of (0x80 + c div 64 mod 64),
         byte_of (0x80 + c mod 64)]
      else
        [byte_of (0xF0 + c div 262144), byte_of (0x80 + c div 4096 mod 64),
         byte_of (0x80 + c div 64 mod 64), byte_of (0x80 + c mod 64)])"

definition utf8_encode :: "ustring \<Rightarrow> byte list" where
  "utf8_encode s =
     concat (map (\<lambda>c. utf8_bytes (if scalar_value c then c else 0xFFFD)) (code_points s))"

text \<open>
  Decoding follows the WHATWG decoder: a lead byte fixes how many continuation bytes are
  needed, the range of the first one, and the bits read so far; a byte out of range ends
  the sequence with U+FFFD and is read again.
\<close>

definition utf8_lead :: "nat \<Rightarrow> (nat \<times> nat \<times> nat \<times> nat) option" where
  "utf8_lead x =
     (if 0xC2 \<le> x \<and> x \<le> 0xDF then Some (1, 0x80, 0xBF, x - 0xC0)
      else if x = 0xE0 then Some (2, 0xA0, 0xBF, 0)
      else if x = 0xED then Some (2, 0x80, 0x9F, 13)
      else if 0xE1 \<le> x \<and> x \<le> 0xEF then Some (2, 0x80, 0xBF, x - 0xE0)
      else if x = 0xF0 then Some (3, 0x90, 0xBF, 0)
      else if 0xF1 \<le> x \<and> x \<le> 0xF3 then Some (3, 0x80, 0xBF, x - 0xF0)
      else if x = 0xF4 then Some (3, 0x80, 0x8F, 4)
      else None)"

fun utf8_tail :: "nat \<Rightarrow> nat \<Rightarrow> nat \<Rightarrow> nat \<Rightarrow> byte list \<Rightarrow> nat option \<times> byte list" where
  "utf8_tail 0 lo hi acc bs = (Some acc, bs)"
| "utf8_tail (Suc n) lo hi acc [] = (None, [])"
| "utf8_tail (Suc n) lo hi acc (b # bs) =
     (if lo \<le> unat b \<and> unat b \<le> hi
      then utf8_tail n 0x80 0xBF (acc * 64 + (unat b - 0x80)) bs
      else (None, b # bs))"

lemma utf8_tail_length: "length (snd (utf8_tail n lo hi acc bs)) \<le> length bs"
  by (induction n lo hi acc bs rule: utf8_tail.induct) auto

function utf8_decode_points :: "byte list \<Rightarrow> nat list" where
  "utf8_decode_points [] = []"
| "utf8_decode_points (b # bs) =
     (if unat b < 0x80 then unat b # utf8_decode_points bs
      else case utf8_lead (unat b) of
        None \<Rightarrow> 0xFFFD # utf8_decode_points bs
      | Some (n, lo, hi, acc) \<Rightarrow>
          (case utf8_tail n lo hi acc bs of
            (None, r) \<Rightarrow> 0xFFFD # utf8_decode_points r
          | (Some c, r) \<Rightarrow> c # utf8_decode_points r))"
  by pat_completeness auto
termination
proof (relation "measure length")
qed (auto simp: less_Suc_eq_le dest!: arg_cong [where f = "\<lambda>p. length (snd p)"]
    intro: order_trans [OF _ utf8_tail_length])

definition utf8_decode :: "byte list \<Rightarrow> ustring" where
  "utf8_decode bs = concat (map utf16 (utf8_decode_points bs))"

lemma scalar_value_parts:
  assumes "scalar_value c"
  shows "c < 0x110000" and "\<not> (0xD800 \<le> c \<and> c \<le> 0xDFFF)"
  using assms by (auto simp: scalar_value_def)

text \<open>A multi-byte sequence is a lead byte and continuation bytes that spell the code point.\<close>

definition utf8_spells :: "nat \<Rightarrow> bool" where
  "utf8_spells c \<longleftrightarrow> (\<exists>x bs n lo hi acc. utf8_bytes c = byte_of x # bs \<and> x < 256 \<and> \<not> x < 0x80 \<and>
     utf8_lead x = Some (n, lo, hi, acc) \<and> (\<forall>r. utf8_tail n lo hi acc (bs @ r) = (Some c, r)))"

lemma utf8_spellsI:
  assumes "utf8_bytes c = byte_of x # bs" and "x < 256" and "\<not> x < 0x80"
    and "utf8_lead x = Some (n, lo, hi, acc)"
    and "\<And>r. utf8_tail n lo hi acc (bs @ r) = (Some c, r)"
  shows "utf8_spells c"
  using assms unfolding utf8_spells_def by blast

lemma utf8_tail_1:
  "lo \<le> 0x80 + x \<Longrightarrow> 0x80 + x \<le> hi \<Longrightarrow> x < 64 \<Longrightarrow>
   utf8_tail 1 lo hi acc (byte_of (0x80 + x) # bs) = (Some (acc * 64 + x), bs)"
  by simp

lemma utf8_tail_2:
  "lo \<le> 0x80 + x \<Longrightarrow> 0x80 + x \<le> hi \<Longrightarrow> x < 64 \<Longrightarrow> y < 64 \<Longrightarrow>
   utf8_tail 2 lo hi acc (byte_of (0x80 + x) # byte_of (0x80 + y) # bs) =
     (Some ((acc * 64 + x) * 64 + y), bs)"
  by (simp add: numeral_2_eq_2)

lemma utf8_tail_3:
  "lo \<le> 0x80 + x \<Longrightarrow> 0x80 + x \<le> hi \<Longrightarrow> x < 64 \<Longrightarrow> y < 64 \<Longrightarrow> z < 64 \<Longrightarrow>
   utf8_tail 3 lo hi acc
     (byte_of (0x80 + x) # byte_of (0x80 + y) # byte_of (0x80 + z) # bs) =
     (Some (((acc * 64 + x) * 64 + y) * 64 + z), bs)"
  by (simp add: numeral_3_eq_3)

lemma utf8_lead_2: "2 \<le> q \<Longrightarrow> q < 32 \<Longrightarrow> utf8_lead (0xC0 + q) = Some (1, 0x80, 0xBF, q)"
  by (simp add: utf8_lead_def)

lemma utf8_lead_3: "q < 16 \<Longrightarrow> utf8_lead (0xE0 + q) =
    Some (2, if q = 0 then 0xA0 else 0x80, if q = 13 then 0x9F else 0xBF, q)"
  by (auto simp: utf8_lead_def)

lemma utf8_lead_4: "q < 5 \<Longrightarrow> utf8_lead (0xF0 + q) =
    Some (3, if q = 0 then 0x90 else 0x80, if q = 4 then 0x8F else 0xBF, q)"
  by (auto simp: utf8_lead_def)

lemma utf8_spells_2:
  assumes "0x80 \<le> c" and "c < 0x800"
  shows "utf8_spells c"
proof -
  have c: "c div 64 * 64 + c mod 64 = c" and "c mod 64 < 64"
    by simp_all
  with assms have q: "2 \<le> c div 64" "c div 64 < 32"
    by linarith+
  have t: "utf8_tail 1 0x80 0xBF (c div 64) (byte_of (0x80 + c mod 64) # r) = (Some c, r)" for r
    using utf8_tail_1 [of "0x80" "c mod 64" "0xBF" "c div 64" r] by (simp only: c)
  have "utf8_bytes c = byte_of (0xC0 + c div 64) # [byte_of (0x80 + c mod 64)]"
    using assms by (simp add: utf8_bytes_def)
  then show ?thesis
    by (rule utf8_spellsI [OF _ _ _ utf8_lead_2 [OF q]])
       (use q in simp, use q in simp, simp only: append.simps t)
qed

lemma utf8_spells_3:
  assumes "0x800 \<le> c" and "c < 0x10000" and "\<not> (0xD800 \<le> c \<and> c \<le> 0xDFFF)"
  shows "utf8_spells c"
proof -
  let ?q = "c div 4096" and ?x = "c div 64 mod 64" and ?y = "c mod 64"
  let ?lo = "if ?q = 0 then 0xA0 else 0x80 :: nat" and ?hi = "if ?q = 13 then 0x9F else 0xBF :: nat"
  have "c div 64 = ?q * 64 + ?x" and c64: "c div 64 * 64 + ?y = c"
    by (simp_all add: div_mult2_eq [of c 64 64, simplified])
  then have c: "(?q * 64 + ?x) * 64 + ?y = c"
    by simp
  have x: "?x < 64" and y: "?y < 64"
    by simp_all
  have q: "?q < 16"
    using c assms by linarith
  have "?lo \<le> 0x80 + ?x"
    using c y assms by (cases "?q = 0") auto
  moreover have "0x80 + ?x \<le> ?hi"
    using c x y assms by (cases "?q = 13") auto
  ultimately have t: "utf8_tail 2 ?lo ?hi ?q
      (byte_of (0x80 + ?x) # byte_of (0x80 + ?y) # r) = (Some c, r)" for r
    using utf8_tail_2 [OF _ _ x y, of ?lo ?hi ?q r, unfolded c] by blast
  have "utf8_bytes c = byte_of (0xE0 + ?q) # [byte_of (0x80 + ?x), byte_of (0x80 + ?y)]"
    using assms by (simp add: utf8_bytes_def)
  then show ?thesis
    by (rule utf8_spellsI [OF _ _ _ utf8_lead_3 [OF q]])
       (use q in simp, use q in simp, simp only: append.simps t)
qed

lemma utf8_spells_4:
  assumes "0x10000 \<le> c" and "c < 0x110000"
  shows "utf8_spells c"
proof -
  let ?q = "c div 262144" and ?x = "c div 4096 mod 64" and ?y = "c div 64 mod 64"
    and ?z = "c mod 64"
  let ?lo = "if ?q = 0 then 0x90 else 0x80 :: nat" and ?hi = "if ?q = 4 then 0x8F else 0xBF :: nat"
  have "c div 4096 = ?q * 64 + ?x" and "c div 64 = c div 4096 * 64 + ?y"
    and "c div 64 * 64 + ?z = c"
    by (simp_all add: div_mult2_eq [of c 64 64, simplified] div_mult2_eq [of c 4096 64, simplified])
  then have c: "((?q * 64 + ?x) * 64 + ?y) * 64 + ?z = c"
    by simp
  have x: "?x < 64" and y: "?y < 64" and z: "?z < 64"
    by simp_all
  have q: "?q < 5"
    using c assms by linarith
  have "?lo \<le> 0x80 + ?x"
    using c y z assms by (cases "?q = 0") auto
  moreover have "0x80 + ?x \<le> ?hi"
    using c x y z assms by (cases "?q = 4") auto
  ultimately have t: "utf8_tail 3 ?lo ?hi ?q
      (byte_of (0x80 + ?x) # byte_of (0x80 + ?y) # byte_of (0x80 + ?z) # r) = (Some c, r)" for r
    using utf8_tail_3 [OF _ _ x y z, of ?lo ?hi ?q r, unfolded c] by blast
  have "utf8_bytes c =
      byte_of (0xF0 + ?q) # [byte_of (0x80 + ?x), byte_of (0x80 + ?y), byte_of (0x80 + ?z)]"
    using assms by (simp add: utf8_bytes_def)
  then show ?thesis
    by (rule utf8_spellsI [OF _ _ _ utf8_lead_4 [OF q]])
       (use q in simp, use q in simp, simp only: append.simps t)
qed

lemma scalar_value_spells:
  assumes "scalar_value c" and "\<not> c < 0x80"
  shows "utf8_spells c"
proof -
  consider "0x80 \<le> c" "c < 0x800" | "0x800 \<le> c" "c < 0x10000" | "0x10000 \<le> c"
    using assms(2) by linarith
  then show ?thesis
    by cases (use scalar_value_parts [OF assms(1)] utf8_spells_2 utf8_spells_3 utf8_spells_4 in auto)
qed

lemma utf8_decode_scalar:
  assumes "scalar_value c"
  shows "utf8_decode_points (utf8_bytes c @ r) = c # utf8_decode_points r"
proof (cases "c < 0x80")
  case True
  then show ?thesis
    by (simp add: utf8_bytes_def)
next
  case False
  with assms have "utf8_spells c"
    by (rule scalar_value_spells)
  then show ?thesis
    unfolding utf8_spells_def by auto
qed

theorem utf8_roundtrip:
  assumes "well_formed s"
  shows "utf8_decode (utf8_encode s) = s"
proof -
  have "utf8_decode_points (concat (map (\<lambda>c. utf8_bytes (if scalar_value c then c else 0xFFFD)) cs)) = cs"
    if "list_all scalar_value cs" for cs
    using that by (induction cs) (simp_all add: utf8_decode_scalar)
  with well_formed_scalar [OF assms] show ?thesis
    by (simp add: utf8_decode_def utf8_encode_def utf16_code_points)
qed

section \<open>Base64\<close>

definition b64_code :: "nat \<Rightarrow> nat" where
  [js_simps]: "b64_code n = (if n < 26 then 65 + n else if n < 52 then 71 + n
     else if n < 62 then n - 4 else if n = 62 then 43 else 47)"

definition b64_char :: "nat \<Rightarrow> 16 word" where
  [js_simps]: "b64_char n = word_of_nat (b64_code n)"

text \<open>Decoding also reads the URL-safe alphabet and skips every other character; it stops at \<open>=\<close>.\<close>

definition b64_value :: "nat \<Rightarrow> nat option" where
  [js_simps]: "b64_value x = (if 65 \<le> x \<and> x \<le> 90 then Some (x - 65)
     else if 97 \<le> x \<and> x \<le> 122 then Some (x - 71)
     else if 48 \<le> x \<and> x \<le> 57 then Some (x + 4)
     else if x = 43 \<or> x = 45 then Some 62
     else if x = 47 \<or> x = 95 then Some 63 else None)"

definition b64_val :: "16 word \<Rightarrow> nat option" where
  [js_simps]: "b64_val u = b64_value (unat u)"

fun b64_encode :: "byte list \<Rightarrow> ustring" where
  "b64_encode [] = []"
| "b64_encode [a] = [b64_char (unat a div 4), b64_char (unat a mod 4 * 16), 61, 61]"
| "b64_encode [a, b] =
     [b64_char (unat a div 4), b64_char (unat a mod 4 * 16 + unat b div 16),
      b64_char (unat b mod 16 * 4), 61]"
| "b64_encode (a # b # c # r) =
     b64_char (unat a div 4) # b64_char (unat a mod 4 * 16 + unat b div 16) #
     b64_char (unat b mod 16 * 4 + unat c div 64) # b64_char (unat c mod 64) # b64_encode r"

fun b64_unpack :: "nat list \<Rightarrow> byte list" where
  "b64_unpack (p # q # r # s # t) =
     byte_of (p * 4 + q div 16) # byte_of (q mod 16 * 16 + r div 4) # byte_of (r mod 4 * 64 + s) #
     b64_unpack t"
| "b64_unpack [p, q, r] = [byte_of (p * 4 + q div 16), byte_of (q mod 16 * 16 + r div 4)]"
| "b64_unpack [p, q] = [byte_of (p * 4 + q div 16)]"
| "b64_unpack _ = []"

definition b64_decode :: "ustring \<Rightarrow> byte list" where
  "b64_decode s = b64_unpack (List.map_filter b64_val (takeWhile (\<lambda>u. u \<noteq> 61) s))"

lemma b64_code_less: "b64_code n < 65536 \<longleftrightarrow> True" and b64_code_not_pad: "b64_code n \<noteq> 61"
  by (auto simp: b64_code_def)

lemma b64_val_char: "n < 64 \<Longrightarrow> b64_val (b64_char n) = Some n"
  by (auto simp: b64_val_def b64_char_def b64_code_less) (auto simp: b64_code_def b64_value_def)

lemma b64_char_not_pad [simp]: "b64_char n \<noteq> 61"
proof
  assume "b64_char n = 61"
  then have "unat (word_of_nat (b64_code n) :: 16 word) = 61"
    by (simp add: b64_char_def)
  then show False
    by (simp add: b64_code_less b64_code_not_pad)
qed

lemma map_filter_Cons: "List.map_filter f (x # xs) =
    (case f x of None \<Rightarrow> List.map_filter f xs | Some y \<Rightarrow> y # List.map_filter f xs)"
  by (simp add: List.map_filter_simps)

lemma div_mod_parts:
  fixes x y d e :: nat
  assumes "y < e" and "0 < e"
  shows "(x * e + y) div e = x" and "(x * e + y) mod e = y"
  using assms by auto

lemma b64_triple:
  "byte_of (unat a div 4 * 4 + (unat a mod 4 * 16 + unat b div 16) div 16) = a"
  "byte_of ((unat a mod 4 * 16 + unat b div 16) mod 16 * 16 +
     (unat b mod 16 * 4 + unat c div 64) div 4) = b"
  "byte_of ((unat b mod 16 * 4 + unat c div 64) mod 4 * 64 + unat c mod 64) = c"
proof -
  have "unat b div 16 < 16" and "unat c div 64 < 4"
    using unat_le_255 [of b] unat_le_255 [of c] by (simp_all add: less_mult_imp_div_less)
  then show "byte_of (unat a div 4 * 4 + (unat a mod 4 * 16 + unat b div 16) div 16) = a"
    and "byte_of ((unat a mod 4 * 16 + unat b div 16) mod 16 * 16 +
     (unat b mod 16 * 4 + unat c div 64) div 4) = b"
    and "byte_of ((unat b mod 16 * 4 + unat c div 64) mod 4 * 64 + unat c mod 64) = c"
    by (simp_all only: div_mod_parts div_mult_mod_eq byte_of_unat)
qed

lemma b64_bounds:
  "unat (a :: byte) div 4 < 64" "unat a mod 4 * 16 < 64" "unat a mod 16 * 4 < 64"
  "unat a mod 4 * 16 + unat (b :: byte) div 16 < 64" "unat a mod 16 * 4 + unat b div 64 < 64"
  "unat a mod 64 < 64"
proof -
  have "unat a div 4 < 64" and b: "unat b div 16 < 16" "unat b div 64 < 4"
    using unat_le_255 [of a] unat_le_255 [of b] by (simp_all add: less_mult_imp_div_less)
  moreover have m: "unat a mod 4 < 4" "unat a mod 16 < 16" "unat a mod 64 < 64"
    by simp_all
  ultimately show "unat a div 4 < 64" "unat a mod 4 * 16 < 64" "unat a mod 16 * 4 < 64"
    "unat a mod 4 * 16 + unat b div 16 < 64" "unat a mod 16 * 4 + unat b div 64 < 64"
    "unat a mod 64 < 64"
    by linarith+
qed

lemmas b64_steps = map_filter_Cons b64_val_char b64_bounds b64_decode_def

theorem b64_roundtrip: "b64_decode (b64_encode bs) = bs"
proof (induction bs rule: b64_encode.induct)
  case 1
  show ?case
    by (simp add: b64_decode_def List.map_filter_simps)
next
  case (2 a)
  show ?case
    using b64_triple(1) [of a 0] by (simp add: b64_steps List.map_filter_simps)
next
  case (3 a b)
  show ?case
    using b64_triple(1) [of a b] b64_triple(2) [of a b 0]
    by (simp add: b64_steps List.map_filter_simps del: add_mult_distrib mult.assoc)
next
  case (4 a b c r)
  then show ?case
    using b64_triple(1) [of a b] b64_triple(2) [of a b c] b64_triple(3) [of b c]
    by (simp add: b64_steps)
qed

lemma b64_encode_length: "length (b64_encode bs) = 4 * ((length bs + 2) div 3)"
proof (induction bs rule: b64_encode.induct)
  case (4 a b c r)
  have "(length r + 2 + 3) div 3 = (length r + 2) div 3 + 1"
    by (rule div_add_self2) simp
  with 4 show ?case
    by (simp add: add.commute)
qed auto

section \<open>URI components\<close>

definition uri_unreserved :: "16 word \<Rightarrow> bool" where
  [js_simps]: "uri_unreserved u \<longleftrightarrow> 65 \<le> unat u \<and> unat u \<le> 90 \<or> 97 \<le> unat u \<and> unat u \<le> 122 \<or>
     48 \<le> unat u \<and> unat u \<le> 57 \<or> unat u \<in> {45, 95, 46, 33, 126, 42, 39, 40, 41}"

definition hex_code :: "nat \<Rightarrow> nat" where
  [js_simps]: "hex_code n = (if n < 10 then 48 + n else 55 + n)"

definition hex_value :: "nat \<Rightarrow> nat option" where
  [js_simps]: "hex_value x = (if 48 \<le> x \<and> x \<le> 57 then Some (x - 48)
     else if 65 \<le> x \<and> x \<le> 70 then Some (x - 55)
     else if 97 \<le> x \<and> x \<le> 102 then Some (x - 87) else None)"

definition percent_byte :: "byte \<Rightarrow> ustring" where
  [js_simps]: "percent_byte b =
     [37, word_of_nat (hex_code (unat b div 16)), word_of_nat (hex_code (unat b mod 16))]"

fun uri_encode :: "ustring \<Rightarrow> ustring option" where
  "uri_encode [] = Some []"
| "uri_encode [u] =
     (if uri_unreserved u then Some [u]
      else if is_high u \<or> is_low u then None
      else Some (concat (map percent_byte (utf8_bytes (unat u)))))"
| "uri_encode (u # v # r) =
     (if uri_unreserved u then map_option ((#) u) (uri_encode (v # r))
      else if is_high u \<and> is_low v then
        map_option ((@) (concat (map percent_byte (utf8_bytes (surrogate_pair u v))))) (uri_encode r)
      else if is_high u \<or> is_low u then None
      else map_option ((@) (concat (map percent_byte (utf8_bytes (unat u))))) (uri_encode (v # r)))"

fun percent_read :: "ustring \<Rightarrow> (nat \<times> ustring) option" where
  "percent_read (p # h # l # r) =
     (if p = 37 then
        (case (hex_value (unat h), hex_value (unat l)) of
          (Some a, Some b) \<Rightarrow> Some (a * 16 + b, r) | _ \<Rightarrow> None)
      else None)"
| "percent_read _ = None"

fun uri_tail :: "nat \<Rightarrow> nat \<Rightarrow> nat \<Rightarrow> nat \<Rightarrow> ustring \<Rightarrow> (nat \<times> ustring) option" where
  "uri_tail 0 lo hi acc s = Some (acc, s)"
| "uri_tail (Suc n) lo hi acc s =
     (case percent_read s of
       None \<Rightarrow> None
     | Some (b, r) \<Rightarrow>
         if lo \<le> b \<and> b \<le> hi then uri_tail n 0x80 0xBF (acc * 64 + (b - 0x80)) r else None)"

lemma percent_read_length: "percent_read s = Some (b, r) \<Longrightarrow> length r < length s"
  by (cases s rule: percent_read.cases) (auto split: if_splits option.splits)

lemma uri_tail_length: "uri_tail n lo hi acc s = Some (c, r) \<Longrightarrow> length r \<le> length s"
  by (induction n lo hi acc s rule: uri_tail.induct)
     (force split: option.splits if_splits dest: percent_read_length)+

function uri_decode :: "ustring \<Rightarrow> ustring option" where
  "uri_decode [] = Some []"
| "uri_decode (u # s) =
     (if u \<noteq> 37 then map_option ((#) u) (uri_decode s)
      else case percent_read (u # s) of
        None \<Rightarrow> None
      | Some (b, r) \<Rightarrow>
          if b < 0x80 then map_option ((#) (word_of_nat b)) (uri_decode r)
          else (case utf8_lead b of
            None \<Rightarrow> None
          | Some (n, lo, hi, acc) \<Rightarrow>
              (case uri_tail n lo hi acc r of
                None \<Rightarrow> None
              | Some (c, r') \<Rightarrow> map_option ((@) (utf16 c)) (uri_decode r'))))"
  by pat_completeness auto
termination
  by (relation "measure length") (auto dest!: percent_read_length uri_tail_length)

lemma hex_code_bounds [simp]: "n < 16 \<Longrightarrow> hex_code n < 65536"
  by (simp add: hex_code_def)

lemma hex_value_code [simp]: "n < 16 \<Longrightarrow> hex_value (hex_code n) = Some n"
  by (auto simp: hex_value_def hex_code_def)

lemma percent_read_byte [simp]: "percent_read (percent_byte b @ r) = Some (unat b, r)"
  using unat_le_255 [of b] by (simp add: percent_byte_def less_mult_imp_div_less)

lemma uri_tail_bytes:
  "utf8_tail n lo hi acc bs = (Some c, []) \<Longrightarrow>
   uri_tail n lo hi acc (concat (map percent_byte bs) @ r) = Some (c, r)"
  by (induction n lo hi acc bs rule: utf8_tail.induct) (auto split: if_splits)

lemma uri_decode_unit: "u \<noteq> 37 \<Longrightarrow> uri_decode (u # s) = map_option ((#) u) (uri_decode s)"
  by simp

lemma percent_byte_Cons: "\<exists>s. percent_byte b = 37 # s"
  by (simp add: percent_byte_def)

lemma uri_decode_percent:
  assumes "percent_read s = Some (b, r)"
  shows "uri_decode s =
     (if b < 0x80 then map_option ((#) (word_of_nat b)) (uri_decode r)
      else (case utf8_lead b of
        None \<Rightarrow> None
      | Some (n, lo, hi, acc) \<Rightarrow>
          (case uri_tail n lo hi acc r of
            None \<Rightarrow> None
          | Some (c, r') \<Rightarrow> map_option ((@) (utf16 c)) (uri_decode r'))))"
  using assms by (cases s rule: percent_read.cases) (auto split: if_splits)

lemma append_single: "(@) [x] = (#) x"
  by (simp add: fun_eq_iff)

lemma uri_decode_scalar:
  assumes "scalar_value c"
  shows "uri_decode (concat (map percent_byte (utf8_bytes c)) @ r) =
    map_option ((@) (utf16 c)) (uri_decode r)"
proof (cases "c < 0x80")
  case True
  then have "utf16 c = [word_of_nat c]" and "utf8_bytes c = [byte_of c]"
    by (simp_all add: utf16_def utf8_bytes_def)
  then show ?thesis
    using True by (simp add: uri_decode_percent append_single)
next
  case False
  with assms have "utf8_spells c"
    by (rule scalar_value_spells)
  then obtain x bs n lo hi acc where "utf8_bytes c = byte_of x # bs" "x < 256" "\<not> x < 0x80"
    "utf8_lead x = Some (n, lo, hi, acc)" and t: "\<And>r. utf8_tail n lo hi acc (bs @ r) = (Some c, r)"
    unfolding utf8_spells_def by blast
  moreover have "uri_tail n lo hi acc (concat (map percent_byte bs) @ r) = Some (c, r)"
    using t [of "[]"] by (intro uri_tail_bytes) simp
  ultimately show ?thesis
    by (simp add: uri_decode_percent)
qed

lemma unreserved_not_percent: "uri_unreserved u \<Longrightarrow> u \<noteq> 37"
  by (auto simp: uri_unreserved_def)

lemma scalar_unit: "\<not> is_high u \<Longrightarrow> \<not> is_low u \<Longrightarrow> scalar_value (unat u)"
  using unat_le_65535 [of u] by (auto simp: scalar_value_def is_high_def is_low_def)

lemma scalar_pair: "is_high u \<Longrightarrow> is_low v \<Longrightarrow> scalar_value (surrogate_pair u v)"
  using surrogate_pair_range [of u v] by (auto simp: scalar_value_def)

lemma unreserved_not_surrogate: "uri_unreserved u \<Longrightarrow> \<not> is_high u \<and> \<not> is_low u"
  by (auto simp: uri_unreserved_def is_high_def is_low_def)

theorem uri_roundtrip: "uri_encode s = Some t \<Longrightarrow> uri_decode t = Some s"
  by (induction s arbitrary: t rule: uri_encode.induct)
     (auto simp: unreserved_not_percent uri_decode_scalar scalar_unit scalar_pair utf16_unit
       utf16_surrogate_pair uri_decode_scalar [where r = "[]", simplified] simp del: uri_decode.simps(2)
       simp add: uri_decode_unit split: if_splits)

theorem uri_encode_defined_iff: "(\<exists>t. uri_encode s = Some t) \<longleftrightarrow> well_formed s"
  by (induction s rule: uri_encode.induct)
     (auto simp: unreserved_not_surrogate dest: unreserved_not_surrogate)

section \<open>Trimming\<close>

text \<open>The units \<open>String.prototype.trim\<close> removes: white space and line terminators.\<close>

definition trim_ws :: "16 word \<Rightarrow> bool" where
  "trim_ws u \<longleftrightarrow> unat u \<in> {9, 10, 11, 12, 13, 32, 160, 0x1680, 0x2028, 0x2029, 0x202F, 0x205F, 0x3000, 0xFEFF}
     \<or> (0x2000 \<le> unat u \<and> unat u \<le> 0x200A)"

definition js_trim :: "ustring \<Rightarrow> ustring" where
  "js_trim s = rev (dropWhile trim_ws (rev (dropWhile trim_ws s)))"

lemma js_trim_id: "\<forall>u \<in> set s. \<not> trim_ws u \<Longrightarrow> js_trim s = s"
proof -
  have drop: "dropWhile P t = t" if "\<forall>u \<in> set t. \<not> P u" for P and t :: ustring
    using that by (cases t) auto
  show "\<forall>u \<in> set s. \<not> trim_ws u \<Longrightarrow> js_trim s = s"
    by (simp add: js_trim_def drop)
qed

end
