(* ===== verification/JsJson.thy ===== *)
theory JsJson
  imports JsText
begin

text \<open>
  JavaScript values as the record code handles them, \<open>String(v)\<close>, \<open>JSON.stringify\<close> and
  \<open>JSON.parse\<close>. A number is represented by a numeral that denotes it (the components that
  compute with numbers use \<open>int\<close> or \<open>nat\<close>). Parsing recurses on fuel: one unit for each
  value, member and element, so \<open>Suc (2 * length s)\<close> is enough for the text \<open>s\<close>
  (\<open>json_fuel\<close>: more never changes the result), and \<open>json_parse\<close> starts with that much. Shown: parsing what
  \<open>JSON.stringify\<close> wrote for a record of strings gives the record back.
\<close>

datatype jsvalue =
    VUndef | VNull | VBool bool | VNum ustring | VStr ustring
  | VArr "jsvalue list" | VObj "(ustring \<times> jsvalue) list"

fun to_string :: "jsvalue \<Rightarrow> ustring" where
  "to_string VUndef = ju ''undefined''"
| "to_string VNull = ju ''null''"
| "to_string (VBool b) = (if b then ju ''true'' else ju ''false'')"
| "to_string (VNum n) = n"
| "to_string (VStr s) = s"
| "to_string (VArr xs) =
     join (ju '','') (map (\<lambda>x. if x = VNull \<or> x = VUndef then [] else to_string x) xs)"
| "to_string (VObj kvs) = ju ''[object Object]''"

section \<open>JSON.stringify\<close>

definition hex_lower :: "nat \<Rightarrow> nat" where
  "hex_lower n = (if n < 10 then 48 + n else 87 + n)"

definition json_hex4 :: "16 word \<Rightarrow> ustring" where
  "json_hex4 u = map (\<lambda>k. word_of_nat (hex_lower (unat u div k mod 16))) [4096, 256, 16, 1]"

definition json_escape_unit :: "16 word \<Rightarrow> ustring" where
  "json_escape_unit u =
     (if u = 34 then [92, 34] else if u = 92 then [92, 92]
      else if u = 8 then [92, 98] else if u = 12 then [92, 102] else if u = 10 then [92, 110]
      else if u = 13 then [92, 114] else if u = 9 then [92, 116]
      else if unat u < 32 \<or> is_high u \<or> is_low u then 92 # 117 # json_hex4 u
      else [u])"

fun json_escape :: "ustring \<Rightarrow> ustring" where
  "json_escape [] = []"
| "json_escape [u] = json_escape_unit u"
| "json_escape (u # v # r) =
     (if is_high u \<and> is_low v then u # v # json_escape r
      else json_escape_unit u @ json_escape (v # r))"

definition json_quote :: "ustring \<Rightarrow> ustring" where
  "json_quote s = 34 # json_escape s @ [34]"

text \<open>\<open>undefined\<close> members are left out, \<open>undefined\<close> elements written \<open>null\<close>.\<close>

fun json_stringify :: "jsvalue \<Rightarrow> ustring option" where
  "json_stringify VUndef = None"
| "json_stringify VNull = Some (ju ''null'')"
| "json_stringify (VBool b) = Some (if b then ju ''true'' else ju ''false'')"
| "json_stringify (VNum n) = Some n"
| "json_stringify (VStr s) = Some (json_quote s)"
| "json_stringify (VArr xs) =
     Some (ju ''['' @ join (ju '','') (map (\<lambda>x. case json_stringify x of
       None \<Rightarrow> ju ''null'' | Some t \<Rightarrow> t) xs) @ ju '']'')"
| "json_stringify (VObj kvs) =
     Some (ju ''{'' @ join (ju '','') (List.map_filter
       (\<lambda>(k, t). map_option (\<lambda>t. json_quote k @ ju '':'' @ t) t)
       (obj_entries (map (\<lambda>(k, x). (k, json_stringify x)) kvs))) @ ju ''}'')"

text \<open>\<open>JSON.stringify\<close> of a record of strings.\<close>

definition json_record :: "ustring jsobj \<Rightarrow> ustring" where
  "json_record ob = ju ''{'' @
     join (ju '','') (map (\<lambda>(k, v). json_quote k @ ju '':'' @ json_quote v) (obj_entries ob)) @ ju ''}''"

section \<open>JSON.parse\<close>

definition json_ws :: "16 word \<Rightarrow> bool" where
  "json_ws u \<longleftrightarrow> u = 32 \<or> u = 9 \<or> u = 10 \<or> u = 13"

definition skip_ws :: "ustring \<Rightarrow> ustring" where
  "skip_ws s = dropWhile json_ws s"

fun json_unescape :: "16 word \<Rightarrow> (16 word) option" where
  "json_unescape e =
     (if e = 34 \<or> e = 92 \<or> e = 47 then Some e
      else if e = 98 then Some 8 else if e = 102 then Some 12 else if e = 110 then Some 10
      else if e = 114 then Some 13 else if e = 116 then Some 9 else None)"

definition hex4_number :: "nat \<Rightarrow> nat \<Rightarrow> nat \<Rightarrow> nat \<Rightarrow> nat" where
  "hex4_number p q r s = ((p * 16 + q) * 16 + r) * 16 + s"

definition hex4_value :: "16 word \<Rightarrow> 16 word \<Rightarrow> 16 word \<Rightarrow> 16 word \<Rightarrow> (16 word) option" where
  "hex4_value a b c d =
     (case (hex_value (unat a), hex_value (unat b), hex_value (unat c), hex_value (unat d)) of
       (Some p, Some q, Some r, Some s) \<Rightarrow> Some (word_of_nat (hex4_number p q r s))
     | _ \<Rightarrow> None)"

text \<open>The rest of a string literal after its opening quote.\<close>

fun json_string :: "ustring \<Rightarrow> (ustring \<times> ustring) option" where
  "json_string [] = None"
| "json_string (u # s) =
     (if u = 34 then Some ([], s)
      else if u = 92 then
        (case s of
          [] \<Rightarrow> None
        | e # s' \<Rightarrow>
            if e = 117 then
              (case s' of
                a # b # c # d # t \<Rightarrow>
                  (case hex4_value a b c d of
                    None \<Rightarrow> None
                  | Some w \<Rightarrow> map_option (apfst ((#) w)) (json_string t))
              | _ \<Rightarrow> None)
            else
              (case json_unescape e of
                None \<Rightarrow> None
              | Some w \<Rightarrow> map_option (apfst ((#) w)) (json_string s')))
      else if unat u < 32 then None
      else map_option (apfst ((#) u)) (json_string s))"

text \<open>
  A number literal: an optional minus, digits without a leading zero, an optional
  fraction and an optional exponent.
\<close>

definition json_frac :: "ustring \<Rightarrow> (ustring \<times> ustring) option" where
  "json_frac s = (case s of
     u # r \<Rightarrow> if u = 46 then
         (case takeWhile is_digit r of [] \<Rightarrow> None | ds \<Rightarrow> Some (46 # ds, dropWhile is_digit r))
       else Some ([], s)
   | [] \<Rightarrow> Some ([], s))"

definition json_exp :: "ustring \<Rightarrow> (ustring \<times> ustring) option" where
  "json_exp s = (case s of
     u # r \<Rightarrow> if u = 101 \<or> u = 69 then
         (let (sg, t) = (case r of v # t \<Rightarrow> if v = 43 \<or> v = 45 then ([v], t) else ([], r) | [] \<Rightarrow> ([], r))
          in case takeWhile is_digit t of [] \<Rightarrow> None
             | ds \<Rightarrow> Some (u # sg @ ds, dropWhile is_digit t))
       else Some ([], s)
   | [] \<Rightarrow> Some ([], s))"

definition json_sign :: "ustring \<Rightarrow> ustring \<times> ustring" where
  "json_sign s = (case s of u # r \<Rightarrow> if u = 45 then ([u], r) else ([], s) | [] \<Rightarrow> ([], s))"

definition json_number :: "ustring \<Rightarrow> (ustring \<times> ustring) option" where
  "json_number s =
     (let (sg, t) = json_sign s;
          ds = takeWhile is_digit t;
          (ip, r) = (if ds \<noteq> [] \<and> hd ds = 48 then ([48], tl t) else (ds, dropWhile is_digit t))
      in if ip = [] then None
         else case json_frac r of None \<Rightarrow> None
           | Some (fp, r1) \<Rightarrow>
               (case json_exp r1 of None \<Rightarrow> None
                | Some (ep, r2) \<Rightarrow> Some (sg @ ip @ fp @ ep, r2)))"

fun json_value :: "nat \<Rightarrow> ustring \<Rightarrow> (jsvalue \<times> ustring) option"
  and json_members :: "nat \<Rightarrow> (ustring \<times> jsvalue) list \<Rightarrow> ustring \<Rightarrow> (jsvalue \<times> ustring) option"
  and json_elements :: "nat \<Rightarrow> jsvalue list \<Rightarrow> ustring \<Rightarrow> (jsvalue \<times> ustring) option" where
  "json_value 0 s = None"
| "json_value (Suc n) s =
     (case skip_ws s of
       [] \<Rightarrow> None
     | u # r \<Rightarrow>
         if u = 34 then map_option (apfst VStr) (json_string r)
         else if u = 123 then
           (case skip_ws r of
             [] \<Rightarrow> None
           | v # t \<Rightarrow> if v = 125 then Some (VObj [], t) else json_members n [] r)
         else if u = 91 then
           (case skip_ws r of
             [] \<Rightarrow> None
           | v # t \<Rightarrow> if v = 93 then Some (VArr [], t) else json_elements n [] r)
         else if starts_with (u # r) (ju ''true'') then Some (VBool True, drop 3 r)
         else if starts_with (u # r) (ju ''false'') then Some (VBool False, drop 4 r)
         else if starts_with (u # r) (ju ''null'') then Some (VNull, drop 3 r)
         else map_option (apfst VNum) (json_number (u # r)))"
| "json_members 0 acc s = None"
| "json_members (Suc n) acc s =
     (case skip_ws s of
       [] \<Rightarrow> None
     | u # r \<Rightarrow>
         if u = 34 then
           (case json_string r of
             None \<Rightarrow> None
           | Some (k, r1) \<Rightarrow>
               (case skip_ws r1 of
                 [] \<Rightarrow> None
               | v # r2 \<Rightarrow>
                   if v = 58 then
                     (case json_value n r2 of
                       None \<Rightarrow> None
                     | Some (x, r3) \<Rightarrow>
                         (case skip_ws r3 of
                           [] \<Rightarrow> None
                         | w # r4 \<Rightarrow>
                             if w = 44 then json_members n (AList.update k x acc) r4
                             else if w = 125 then Some (VObj (AList.update k x acc), r4)
                             else None))
                   else None))
         else None)"
| "json_elements 0 acc s = None"
| "json_elements (Suc n) acc s =
     (case json_value n s of
       None \<Rightarrow> None
     | Some (x, r3) \<Rightarrow>
         (case skip_ws r3 of
           [] \<Rightarrow> None
         | w # r4 \<Rightarrow>
             if w = 44 then json_elements n (acc @ [x]) r4
             else if w = 93 then Some (VArr (acc @ [x]), r4)
             else None))"

definition json_parse :: "ustring \<Rightarrow> jsvalue option" where
  "json_parse s = (case json_value (Suc (2 * length s)) s of
     None \<Rightarrow> None | Some (v, r) \<Rightarrow> if skip_ws r = [] then Some v else None)"

section \<open>Round trip of string records\<close>

lemma hex_lower_bounds [simp]: "n < 16 \<Longrightarrow> hex_lower n < 65536"
  by (simp add: hex_lower_def)

lemma hex_value_lower [simp]: "n < 16 \<Longrightarrow> hex_value (hex_lower n) = Some n"
  by (auto simp: hex_value_def hex_lower_def)

lemma hex4_digits: "hex4_number (n div 4096 mod 16) (n div 256 mod 16) (n div 16 mod 16) (n mod 16) = n"
  if "n < 65536" for n :: nat
proof -
  have "n div 4096 < 16"
    using that by (simp add: less_mult_imp_div_less)
  moreover have "n div 256 = n div 4096 * 16 + n div 256 mod 16"
    and "n div 16 = n div 256 * 16 + n div 16 mod 16" and "n = n div 16 * 16 + n mod 16"
    by (simp_all add: div_mult2_eq [of n 256 16, simplified] div_mult2_eq [of n 16 16, simplified])
  ultimately show ?thesis
    by (simp add: hex4_number_def)
qed

lemma json_string_escape_unit:
  "json_string (json_escape_unit u @ s) = map_option (apfst ((#) u)) (json_string s)"
proof -
  have "hex4_value (word_of_nat (hex_lower (unat u div 4096 mod 16)))
      (word_of_nat (hex_lower (unat u div 256 mod 16))) (word_of_nat (hex_lower (unat u div 16 mod 16)))
      (word_of_nat (hex_lower (unat u mod 16))) = Some u"
    using hex4_digits [OF unat_le_65535, of u] by (simp add: hex4_value_def del: mod_mod_trivial)
  then show ?thesis
    by (auto simp: json_escape_unit_def json_hex4_def)
qed

lemma surrogate_not_special: "is_high u \<or> is_low u \<Longrightarrow> u \<noteq> 34 \<and> u \<noteq> 92 \<and> \<not> unat u < 32"
  by (auto simp: is_high_def is_low_def)

lemma json_string_escape: "json_string (json_escape s @ 34 # r) = Some (s, r)"
proof (induction s rule: json_escape.induct)
  case (3 u v s)
  then show ?case
    using surrogate_not_special [of u] surrogate_not_special [of v]
    by (auto simp: json_string_escape_unit simp del: json_string.simps(2))
       (auto simp: json_string.simps(2))
next
  case 1
  show ?case
    by simp
next
  case (2 u)
  show ?case
    unfolding json_escape.simps json_string_escape_unit by simp
qed

lemma skip_ws_simps [simp]:
  "skip_ws [] = []"
  "skip_ws (u # s) = (if json_ws u then skip_ws s else u # s)"
  by (simp_all add: skip_ws_def)

lemma json_ws_punct [simp]:
  "\<not> json_ws 34" "\<not> json_ws 58" "\<not> json_ws 44" "\<not> json_ws 125" "\<not> json_ws 123"
  by (simp_all add: json_ws_def)

lemma json_value_quote: "json_value (Suc n) (json_quote s @ r) = Some (VStr s, r)"
  by (simp add: json_quote_def json_string_escape)

definition json_member :: "ustring \<times> ustring \<Rightarrow> ustring" where
  "json_member p = json_quote (fst p) @ ju '':'' @ json_quote (snd p)"

lemma json_record_member:
  "json_record ob = ju ''{'' @ join (ju '','') (map json_member (obj_entries ob)) @ ju ''}''"
proof -
  have "json_member = (\<lambda>(k, v). json_quote k @ ju '':'' @ json_quote v)"
    by (simp add: fun_eq_iff json_member_def)
  then show ?thesis
    by (simp add: json_record_def)
qed

lemma json_members_step:
  "json_members (Suc (Suc n)) acc (json_member (k, v) @ w # r) =
     (if json_ws w then json_members (Suc (Suc n)) acc (json_member (k, v) @ w # r)
      else if w = 44 then json_members (Suc n) (AList.update k (VStr v) acc) r
      else if w = 125 then Some (VObj (AList.update k (VStr v) acc), r) else None)"
  using json_value_quote [of n v "w # r"]
  by (simp add: json_member_def json_quote_def [of k] json_string_escape js_simps)

lemma json_members_record:
  assumes "kvs \<noteq> []" and "length kvs < n" and "distinct (map fst acc @ map fst kvs)"
  shows "json_members n acc (join [44] (map json_member kvs) @ 125 # r) =
    Some (VObj (acc @ map (\<lambda>(k, v). (k, VStr v)) kvs), r)"
  using assms
proof (induction kvs arbitrary: n acc)
  case (Cons p kvs)
  obtain k v where p: "p = (k, v)"
    by (cases p)
  from Cons.prems obtain m where n: "n = Suc (Suc m)"
    by (cases n; cases "n - 1") auto
  have upd: "AList.update k (VStr v) acc = acc @ [(k, VStr v)]"
    using Cons.prems by (intro update_fresh) (auto simp: p)
  show ?case
  proof (cases kvs)
    case Nil
    then show ?thesis
      by (simp add: p n json_members_step upd del: json_members.simps)
  next
    case (Cons q ks)
    have "json_members (Suc m) (acc @ [(k, VStr v)]) (join [44] (map json_member kvs) @ 125 # r) =
        Some (VObj ((acc @ [(k, VStr v)]) @ map (\<lambda>(k, v). (k, VStr v)) kvs), r)"
      using Cons.prems by (intro Cons.IH) (auto simp: p n Cons)
    then show ?thesis
      by (simp add: p n json_members_step upd Cons del: json_members.simps)
  qed
qed simp

definition record_value :: "ustring jsobj \<Rightarrow> jsvalue" where
  "record_value ob = VObj (map (\<lambda>(k, v). (k, VStr v)) ob)"

lemma length_join_members: "length kvs \<le> length (join [44] (map json_member kvs))"
proof (induction kvs rule: induct_list012)
  case (2 x)
  then show ?case
    by (simp add: json_member_def json_quote_def)
qed (auto simp: json_member_def json_quote_def)

theorem json_record_roundtrip:
  assumes "distinct (map fst ob)"
  shows "json_parse (json_record ob) = Some (record_value (obj_entries ob))"
proof -
  let ?es = "obj_entries ob"
  have d: "distinct (map fst ?es)"
    using assms distinct_obj_keys [of ob] by (simp add: obj_keys_def)
  have "json_value (Suc (2 * length (json_record ob))) (json_record ob) =
      Some (record_value ?es, [])"
  proof (cases "?es = []")
    case True
    then show ?thesis
      by (subst json_value.simps) (simp add: json_record_member js_simps record_value_def json_ws_def)
  next
    case False
    have len: "length ?es < 2 * length (json_record ob)"
      using length_join_members [of ?es] by (simp add: json_record_member js_simps)
    obtain p ps where es: "?es = p # ps"
      using False by (cases ?es) auto
    obtain t where t: "join [44] (map json_member ?es) = 34 # t"
      unfolding es by (cases ps) (simp_all add: json_member_def json_quote_def)
    have "json_members (2 * length (json_record ob)) [] (34 # t @ [125]) =
        Some (record_value ?es, [])"
      using json_members_record [OF False len, of "[]" "[]"] d by (simp add: t record_value_def)
    moreover have "json_record ob = 123 # 34 # t @ [125]"
      using t by (simp add: json_record_member js_simps)
    ultimately show ?thesis
      by (simp del: json_members.simps)
  qed
  then show ?thesis
    by (simp add: json_parse_def del: json_value.simps)
qed

section \<open>Enough fuel\<close>

lemma skip_ws_length: "skip_ws s = u # r \<Longrightarrow> length r < length s"
  by (induction s) (auto split: if_splits)

lemma json_string_length: "json_string s = Some (t, r) \<Longrightarrow> length r < length s"
  by (induction s arbitrary: t rule: json_string.induct)
     (auto split: if_splits list.splits option.splits simp del: json_unescape.simps, fastforce+)

lemma json_number_length: "json_number s = Some (t, r) \<Longrightarrow> length r < length s"
proof -
  have frac: "json_frac s = Some (t, r) \<Longrightarrow> length r \<le> length s" for s t r
    by (auto simp: json_frac_def dropWhile_eq_drop split: list.splits if_splits)
  have exp: "json_exp s = Some (t, r) \<Longrightarrow> length r \<le> length s" for s t r
    by (auto simp: json_exp_def Let_def dropWhile_eq_drop split: list.splits if_splits)
  have dw: "takeWhile is_digit t \<noteq> [] \<Longrightarrow> length (dropWhile is_digit t) < length t" for t
    by (cases t) (auto simp: dropWhile_eq_drop split: if_splits)
  have tl: "takeWhile is_digit t \<noteq> [] \<Longrightarrow> length (tl t) < length t" for t
    by (cases t) auto
  have sign: "length (snd (json_sign s)) \<le> length s"
    by (auto simp: json_sign_def split: list.splits)
  assume "json_number s = Some (t, r)"
  then show ?thesis
    using sign dw [of "snd (json_sign s)"] tl [of "snd (json_sign s)"]
    by (auto simp: json_number_def Let_def case_prod_beta split: if_split_asm option.splits
        dest!: frac exp)
qed

lemma json_length:
  "json_value n s = Some (v, r) \<Longrightarrow> length r < length s"
  "json_members n acc s = Some (v, r) \<Longrightarrow> length r < length s"
  "json_elements n xs s = Some (v, r) \<Longrightarrow> length r < length s"
proof (induction n arbitrary: s acc xs v r)
  case (Suc n)
  {
    case 1
    then show ?case
      by (auto split: list.splits if_splits
          dest!: skip_ws_length json_string_length json_number_length Suc.IH)
  next
    case 2
    then show ?case
      by (auto split: list.splits if_splits option.splits prod.splits
          dest!: skip_ws_length json_string_length Suc.IH)
  next
    case 3
    then show ?case
      by (auto split: list.splits if_splits option.splits prod.splits dest!: skip_ws_length Suc.IH)
  }
qed auto

text \<open>One unfolding with enough fuel, whatever the amount.\<close>

lemma json_fuel_step:
  assumes IH: "\<And>s. 2 * length s < n \<Longrightarrow> 2 * length s < m \<Longrightarrow> json_value n s = json_value m s"
    "\<And>acc s. 2 * length s < n \<Longrightarrow> 2 * length s < m \<Longrightarrow> json_members n acc s = json_members m acc s"
    "\<And>acc s. Suc (2 * length s) < n \<Longrightarrow> Suc (2 * length s) < m \<Longrightarrow>
      json_elements n acc s = json_elements m acc s"
  shows "2 * length s < Suc n \<Longrightarrow> 2 * length s < Suc m \<Longrightarrow> json_value (Suc n) s = json_value (Suc m) s"
    and "2 * length s < Suc n \<Longrightarrow> 2 * length s < Suc m \<Longrightarrow>
      json_members (Suc n) acc s = json_members (Suc m) acc s"
    and "Suc (2 * length s) < Suc n \<Longrightarrow> Suc (2 * length s) < Suc m \<Longrightarrow>
      json_elements (Suc n) xs s = json_elements (Suc m) xs s"
proof -
  assume len: "2 * length s < Suc n" "2 * length s < Suc m"
  show "json_value (Suc n) s = json_value (Suc m) s"
  proof (cases "skip_ws s")
    case (Cons u r)
    with skip_ws_length [OF this] len have "json_members n [] r = json_members m [] r"
      and "json_elements n [] r = json_elements m [] r"
      by (auto intro!: IH)
    then show ?thesis
      using Cons by (simp split: list.split)
  qed simp
next
  assume len: "2 * length s < Suc n" "2 * length s < Suc m"
  show "json_members (Suc n) acc s = json_members (Suc m) acc s"
  proof (cases "skip_ws s")
    case (Cons u r)
    note r = skip_ws_length [OF this]
    show ?thesis
    proof (cases "json_string r")
      case (Some p)
      obtain k r1 where p: "p = (k, r1)"
        by (cases p)
      note r1 = json_string_length [OF Some [unfolded p]]
      have v: "json_value n r2 = json_value m r2" if "skip_ws r1 = v # r2" for v r2
        using skip_ws_length [OF that] r r1 len by (intro IH) auto
      have ms: "json_members n a r4 = json_members m a r4"
        if "skip_ws r1 = v # r2" "json_value m r2 = Some (x, r3)" "skip_ws r3 = w # r4"
        for v r2 x r3 w r4 a
        using skip_ws_length [OF that(1)] json_length(1) [OF that(2)] skip_ws_length [OF that(3)] r r1 len
        by (intro IH) auto
      show ?thesis
        using Cons Some p v ms by (auto split: list.splits option.splits)
    qed (use Cons in simp)
  qed simp
next
  assume len: "Suc (2 * length s) < Suc n" "Suc (2 * length s) < Suc m"
  have v: "json_value n s = json_value m s"
    using len by (intro IH) auto
  have es: "json_elements n a r4 = json_elements m a r4"
    if "json_value m s = Some (x, r3)" "skip_ws r3 = w # r4" for x r3 w r4 a
    using json_length(1) [OF that(1)] skip_ws_length [OF that(2)] len by (intro IH) auto
  show "json_elements (Suc n) xs s = json_elements (Suc m) xs s"
    using v es by (auto split: list.splits option.splits)
qed

theorem json_fuel:
  "2 * length s < n \<Longrightarrow> 2 * length s < m \<Longrightarrow> json_value n s = json_value m s"
  "2 * length s < n \<Longrightarrow> 2 * length s < m \<Longrightarrow> json_members n acc s = json_members m acc s"
  "Suc (2 * length s) < n \<Longrightarrow> Suc (2 * length s) < m \<Longrightarrow> json_elements n xs s = json_elements m xs s"
proof (induction n arbitrary: m s acc xs)
  case (Suc n)
  {
    case 1
    then obtain m' where m: "m = Suc m'"
      by (cases m) auto
    show ?case
      unfolding m by (rule json_fuel_step(1) [OF Suc.IH]) (use 1 m in simp_all)
  next
    case 2
    then obtain m' where m: "m = Suc m'"
      by (cases m) auto
    show ?case
      unfolding m by (rule json_fuel_step(2) [OF Suc.IH]) (use 2 m in simp_all)
  next
    case 3
    then obtain m' where m: "m = Suc m'"
      by (cases m) auto
    show ?case
      unfolding m by (rule json_fuel_step(3) [OF Suc.IH]) (use 3 m in simp_all)
  }
qed auto

end
