(* ===== verification/Calculator.thy ===== *)
theory Calculator
  imports JsJson
begin

text \<open>
  \<open>src/concerns/calculator.ts\<close>: the byte counts that decide what fits in S3 metadata.
  \<open>utf8_loop\<close> is the counting loop; \<open>calculateUTF8Bytes\<close> is the exported function with its
  module-level memo table, passed as a state. The sums over objects use the count without
  the table: \<open>calculateUTF8Bytes_correct\<close> shows that the table never changes a result.
  A percentage of \<open>getSizeBreakdown\<close> is kept as the size it is computed from.
\<close>

section \<open>Counting UTF-8 bytes\<close>

fun utf8_loop :: "ustring \<Rightarrow> nat" where
  "utf8_loop [] = 0"
| "utf8_loop (u # r) =
     (case code_point_at (u # r) of
       None \<Rightarrow> utf8_loop r
     | Some c \<Rightarrow>
         if c \<le> 0x7F then 1 + utf8_loop r
         else if c \<le> 0x7FF then 2 + utf8_loop r
         else if c \<le> 0xFFFF then 3 + utf8_loop r
         else if c \<le> 0x10FFFF then 4 + utf8_loop (if c > 0xFFFF then drop 1 r else r)
         else utf8_loop r)"

type_synonym utf8_memo = "(ustring \<times> nat) list"

definition UTF8_MEMORY_MAX_SIZE :: nat where
  "UTF8_MEMORY_MAX_SIZE = 10000"

definition calculateUTF8Bytes :: "utf8_memo \<Rightarrow> jsvalue \<Rightarrow> nat \<times> utf8_memo" where
  "calculateUTF8Bytes m v =
     (let s = to_string v in
      case map_of m s of
        Some b \<Rightarrow> (b, m)
      | None \<Rightarrow>
          let bytes = utf8_loop s in
          if length m < UTF8_MEMORY_MAX_SIZE then (bytes, AList.update s bytes m)
          else if length m = UTF8_MEMORY_MAX_SIZE then
            (bytes, AList.update s bytes (drop (UTF8_MEMORY_MAX_SIZE div 2) m))
          else (bytes, m))"

definition clearUTF8Memory :: "utf8_memo \<Rightarrow> utf8_memo" where
  "clearUTF8Memory m = []"

section \<open>Sizes of objects\<close>

definition calculateAttributeNamesSize :: "'v jsobj \<Rightarrow> nat" where
  "calculateAttributeNamesSize ob = sum_list (map utf8_loop (obj_keys ob))"

fun transformValue :: "jsvalue \<Rightarrow> ustring" where
  "transformValue VNull = []"
| "transformValue VUndef = []"
| "transformValue (VBool b) = (if b then ju ''1'' else ju ''0'')"
| "transformValue (VNum n) = to_string (VNum n)"
| "transformValue (VStr s) = s"
| "transformValue (VArr xs) =
     (if xs = [] then ju ''[]'' else join (ju ''|'') (map to_string xs))"
| "transformValue (VObj kvs) = (case json_stringify (VObj kvs) of Some t \<Rightarrow> t | None \<Rightarrow> [])"

definition calculateAttributeSizes :: "jsvalue jsobj \<Rightarrow> nat jsobj" where
  "calculateAttributeSizes ob = map (\<lambda>(k, v). (k, utf8_loop (transformValue v))) (obj_entries ob)"

definition calculateTotalSize :: "jsvalue jsobj \<Rightarrow> nat" where
  "calculateTotalSize ob =
     sum_list (obj_values (calculateAttributeSizes ob)) + calculateAttributeNamesSize ob"

record size_breakdown =
  sb_total :: nat
  sb_valueSizes :: "nat jsobj"
  sb_namesSize :: nat
  sb_valueTotal :: nat
  sb_breakdown :: "nat jsobj"

definition getSizeBreakdown :: "jsvalue jsobj \<Rightarrow> size_breakdown" where
  "getSizeBreakdown ob =
     (let valueSizes = calculateAttributeSizes ob;
          namesSize = calculateAttributeNamesSize ob;
          valueTotal = sum_list (obj_values valueSizes)
      in \<lparr>sb_total = valueTotal + namesSize, sb_valueSizes = valueSizes, sb_namesSize = namesSize,
          sb_valueTotal = valueTotal,
          sb_breakdown = sort_key (\<lambda>p. - int (snd p)) (obj_entries valueSizes)\<rparr>)"

record system_config =
  sc_version :: "ustring option"
  sc_timestamps :: "bool option"
  sc_id :: "ustring option"

definition calculateSystemOverhead :: "system_config \<Rightarrow> nat" where
  "calculateSystemOverhead cfg =
     (let version = (case sc_version cfg of None \<Rightarrow> ju ''1'' | Some v \<Rightarrow> v);
          timestamps = (case sc_timestamps cfg of None \<Rightarrow> False | Some t \<Rightarrow> t);
          rid = (case sc_id cfg of None \<Rightarrow> [] | Some i \<Rightarrow> i);
          systemFields = [(ju ''_v'', VStr version)] @
            (if timestamps then
               [(ju ''createdAt'', VStr (ju ''2024-01-01T00:00:00.000Z'')),
                (ju ''updatedAt'', VStr (ju ''2024-01-01T00:00:00.000Z''))] else []) @
            (if rid \<noteq> [] then [(ju ''id'', VStr rid)] else [])
      in calculateTotalSize systemFields)"

definition calculateEffectiveLimit :: "nat option \<Rightarrow> system_config \<Rightarrow> int" where
  "calculateEffectiveLimit s3Limit cfg =
     int (case s3Limit of None \<Rightarrow> 2048 | Some l \<Rightarrow> l) - int (calculateSystemOverhead cfg)"

section \<open>The count is the length of the encoding\<close>

lemma utf8_bytes_length:
  "length (utf8_bytes c) =
     (if c < 0x80 then 1 else if c < 0x800 then 2 else if c < 0x10000 then 3 else 4)"
  by (simp add: utf8_bytes_def)

lemma utf8_loop_Cons:
  "utf8_loop (u # v # r) =
     (if is_high u \<and> is_low v then 4 + utf8_loop r
      else length (utf8_bytes (unat u)) + utf8_loop (v # r))"
  using surrogate_pair_range [of u v] unat_le_65535 [of u]
  by (auto simp: utf8_bytes_length)

lemma utf8_loop_single: "utf8_loop [u] = length (utf8_bytes (unat u))"
  using unat_le_65535 [of u] by (auto simp: utf8_bytes_length)

lemma utf8_encode_unit:
  "length (utf8_bytes (if scalar_value (unat u) then unat u else 0xFFFD)) =
   length (utf8_bytes (unat (u :: 16 word)))"
  using unat_le_65535 [of u] by (auto simp: utf8_bytes_length scalar_value_def)

lemma utf8_encode_pair:
  "is_high u \<Longrightarrow> is_low v \<Longrightarrow>
   length (utf8_bytes (if scalar_value (surrogate_pair u v) then surrogate_pair u v else 0xFFFD)) = 4"
  using surrogate_pair_range [of u v] scalar_pair [of u v] by (simp add: utf8_bytes_length)

lemma utf8_loop_encode: "utf8_loop s = length (utf8_encode s)"
  unfolding utf8_encode_def
  by (induction s rule: code_points.induct)
     (auto simp: utf8_loop_Cons utf8_loop_single utf8_encode_unit utf8_encode_pair
       simp del: utf8_loop.simps(2))

lemma utf8_loop_append_well_formed:
  "well_formed s \<Longrightarrow> utf8_loop (s @ t) = utf8_loop s + utf8_loop t"
proof (induction s rule: well_formed.induct)
  case (2 u)
  then show ?case
    by (cases t) (simp_all add: utf8_loop_Cons utf8_loop_single del: utf8_loop.simps(2))
next
  case (3 u v r)
  then show ?case
    by (auto simp: utf8_loop_Cons simp del: utf8_loop.simps(2) split: if_splits)
qed simp

section \<open>The memo table\<close>

definition memo_inv :: "utf8_memo \<Rightarrow> bool" where
  "memo_inv m \<longleftrightarrow> distinct (map fst m) \<and> length m \<le> UTF8_MEMORY_MAX_SIZE \<and>
     (\<forall>(s, b) \<in> set m. b = utf8_loop s)"

lemma memo_inv_clear: "memo_inv (clearUTF8Memory m)"
  by (simp add: memo_inv_def clearUTF8Memory_def)

lemma memo_inv_update:
  assumes "memo_inv m" and "length m < UTF8_MEMORY_MAX_SIZE" and "map_of m s = None"
  shows "memo_inv (AList.update s (utf8_loop s) m)"
  using assms
  by (auto simp: memo_inv_def distinct_update update_set_eq length_update map_of_eq_None_iff)

lemma memo_inv_drop: "memo_inv m \<Longrightarrow> memo_inv (drop n m)"
  by (auto simp: memo_inv_def drop_map distinct_drop dest: in_set_dropD simp flip: drop_map)

lemma memo_step:
  assumes "memo_inv m"
  shows "fst (calculateUTF8Bytes m v) = utf8_loop (to_string v)"
    and "memo_inv (snd (calculateUTF8Bytes m v))"
proof -
  have hit: "b = utf8_loop (to_string v)" if "map_of m (to_string v) = Some b" for b
    using assms map_of_SomeD [OF that] by (auto simp: memo_inv_def)
  then show "fst (calculateUTF8Bytes m v) = utf8_loop (to_string v)"
    by (auto simp: calculateUTF8Bytes_def Let_def split: option.splits)
  have drop: "map_of (drop n m) s = None" if "map_of m s = None" for n s
    using that by (auto simp: map_of_eq_None_iff dest: in_set_dropD)
  have "memo_inv (AList.update s (utf8_loop s) (drop (UTF8_MEMORY_MAX_SIZE div 2) m))"
    if "map_of m s = None" and "length m = UTF8_MEMORY_MAX_SIZE" for s
    using that by (intro memo_inv_update memo_inv_drop [OF assms] drop)
       (simp_all add: UTF8_MEMORY_MAX_SIZE_def)
  then show "memo_inv (snd (calculateUTF8Bytes m v))"
    using assms memo_inv_update [OF assms]
    by (auto simp: calculateUTF8Bytes_def Let_def split: option.splits)
qed

section \<open>Totals\<close>

lemma calculateTotalSize_sum:
  "calculateTotalSize ob = sum_list (map (\<lambda>(k, v). utf8_loop k + utf8_loop (transformValue v)) ob)"
proof -
  have "sum_list (obj_values (calculateAttributeSizes ob)) =
      sum_list (map (\<lambda>p. utf8_loop (transformValue (snd p))) ob)"
    unfolding obj_values_def sum_obj_entries calculateAttributeSizes_def
    by (simp add: sum_obj_entries case_prod_beta o_def)
  moreover have "calculateAttributeNamesSize ob = sum_list (map (\<lambda>p. utf8_loop (fst p)) ob)"
    unfolding calculateAttributeNamesSize_def obj_keys_def
    by (simp add: sum_obj_entries o_def)
  ultimately show ?thesis
    by (simp add: calculateTotalSize_def case_prod_unfold sum_list_addf add.commute)
qed

lemma calculateTotalSize_append:
  "calculateTotalSize (a @ b) = calculateTotalSize a + calculateTotalSize b"
  by (simp add: calculateTotalSize_sum)

lemma utf8_loop_ascii: "list_all (\<lambda>u. unat u < 0x80) s \<Longrightarrow> utf8_loop s = length s"
proof (induction s)
  case (Cons u s)
  then show ?case
    by (cases s) (auto simp: is_high_def)
qed simp

lemma ascii_char: "of_char c < (128 :: nat) \<Longrightarrow> unat (of_char c :: 16 word) < 128"
proof -
  assume ascii: "of_char c < (128 :: nat)"
  have "unat (of_char c :: 16 word) = unat (of_nat (of_char c) :: 16 word)"
    by (simp only: of_nat_of_char)
  also have "\<dots> = of_char c mod 2 ^ 16"
    unfolding unat_of_nat by simp
  finally show ?thesis
    using ascii by simp
qed

lemma utf8_loop_ju [simp]: "list_all (\<lambda>c. of_char c < (128 :: nat)) s \<Longrightarrow> utf8_loop (ju s) = length s"
  by (subst utf8_loop_ascii) (auto simp: list_all_iff ju_def ascii_char)

declare utf8_loop.simps(2) [simp del]

fun memo_calls :: "utf8_memo \<Rightarrow> jsvalue list \<Rightarrow> nat list" where
  "memo_calls m [] = []"
| "memo_calls m (v # vs) = fst (calculateUTF8Bytes m v) # memo_calls (snd (calculateUTF8Bytes m v)) vs"

lemma memo_calls_correct:
  "memo_inv m \<Longrightarrow> memo_calls m vs = map (\<lambda>v. length (utf8_encode (to_string v))) vs"
  by (induction vs arbitrary: m) (simp_all add: memo_step utf8_loop_encode)

text \<open>
  C33 (calculator). Any sequence of calls of \<open>calculateUTF8Bytes\<close>, through the memo table with
  its eviction and starting from a cleared table, returns for each string the length of its
  UTF-8 encoding: the counting loop is right, surrogate pairs and lone surrogates included, and
  neither the table nor its eviction changes a result.
\<close>

theorem calculateUTF8Bytes_correct:
  "memo_calls (clearUTF8Memory m) vs = map (\<lambda>v. length (utf8_encode (to_string v))) vs"
  by (simp add: memo_calls_correct memo_inv_clear)

end
