(* ===== verification/Behaviors.thy ===== *)
theory Behaviors
  imports Calculator "HOL-Library.While_Combinator"
begin

text \<open>
  \<open>src/behaviors/\<close>: the five strategies that fit a mapped record into S3 metadata
  (\<open>user-managed\<close>, \<open>enforce-limits\<close>, \<open>truncate-data\<close>, \<open>body-overflow\<close>, \<open>body-only\<close>), each
  with its insert, update, upsert and get handlers. A mapped record is an object of
  strings (\<open>StringRecord<string>\<close>); a handler returns the metadata, the body and the
  \<open>exceedsLimit\<close> events it emitted, or the error it threw. A member the code sets to
  \<open>undefined\<close> (a missing \<open>_v\<close>) is left out. The loop of \<open>truncate-data\<close> that blanks the
  last field is a \<open>while_option\<close>: \<open>None\<close> is a handler that never returns.
\<close>

record resource =
  res_name :: ustring
  res_version :: ustring
  res_timestamps :: "bool option"
  res_map :: "ustring jsobj option"
  res_pluginMap :: "ustring jsobj option"

datatype behavior_op = OpInsert | OpUpdate | OpUpsert

datatype behavior_event =
  ExceedsLimit behavior_op "ustring option" nat nat int "jsvalue jsobj"

datatype behavior_error =
    MetadataLimitError behavior_op "ustring option" nat int nat int ustring
  | BehaviorError ustring

record behavior_result =
  br_mappedData :: "ustring jsobj"
  br_body :: ustring
  br_events :: "behavior_event list"

definition S3_METADATA_LIMIT_BYTES :: nat where
  "S3_METADATA_LIMIT_BYTES = 2047"

definition values_of :: "ustring jsobj \<Rightarrow> jsvalue jsobj" where
  "values_of ob = map (\<lambda>(k, v). (k, VStr v)) ob"

definition total_size :: "ustring jsobj \<Rightarrow> nat" where
  "total_size ob = calculateTotalSize (values_of ob)"

definition data_id :: "jsvalue jsobj \<Rightarrow> ustring option" where
  "data_id d = (case map_of d (ju ''id'') of Some (VStr s) \<Rightarrow> Some s | _ \<Rightarrow> None)"

definition effective_limit :: "resource \<Rightarrow> ustring option \<Rightarrow> int" where
  "effective_limit res rid = calculateEffectiveLimit (Some S3_METADATA_LIMIT_BYTES)
     \<lparr>sc_version = Some (res_version res), sc_timestamps = res_timestamps res, sc_id = rid\<rparr>"

definition json_of :: "jsvalue jsobj \<Rightarrow> ustring" where
  "json_of d = (case json_stringify (VObj d) of Some t \<Rightarrow> t | None \<Rightarrow> [])"

definition plugin_map_member :: "resource \<Rightarrow> ustring jsobj" where
  "plugin_map_member res = (case res_pluginMap res of
     None \<Rightarrow> [] | Some pm \<Rightarrow> if pm \<noteq> [] then [(ju ''_pluginMap'', json_record pm)] else [])"

section \<open>user-managed\<close>

definition exceeds :: "behavior_op \<Rightarrow> ustring option \<Rightarrow> nat \<Rightarrow> jsvalue jsobj \<Rightarrow> behavior_event" where
  "exceeds op rid tot d = ExceedsLimit op rid tot 2047 (int tot - 2047) d"

definition user_managed_insert ::
  "resource \<Rightarrow> jsvalue jsobj \<Rightarrow> ustring jsobj \<Rightarrow> jsvalue jsobj option \<Rightarrow> behavior_result" where
  "user_managed_insert res d mapped original =
     (let tot = total_size mapped in
      if int tot > effective_limit res (data_id d) then
        \<lparr>br_mappedData =
           (case map_of mapped (ju ''_v'') of None \<Rightarrow> [] | Some v \<Rightarrow> [(ju ''_v'', v)]) @ plugin_map_member res,
         br_body = json_record mapped,
         br_events = [exceeds OpInsert None tot (case original of Some od \<Rightarrow> od | None \<Rightarrow> d)]\<rparr>
      else \<lparr>br_mappedData = mapped, br_body = [], br_events = []\<rparr>)"

definition user_managed_update ::
  "resource \<Rightarrow> ustring \<Rightarrow> jsvalue jsobj \<Rightarrow> ustring jsobj \<Rightarrow> jsvalue jsobj option \<Rightarrow> behavior_result" where
  "user_managed_update res rid d mapped original =
     (let tot = total_size mapped in
      \<lparr>br_mappedData = mapped, br_body = json_of d,
       br_events = (if int tot > effective_limit res (Some rid) then
         [exceeds OpUpdate (Some rid) tot (case original of Some od \<Rightarrow> od | None \<Rightarrow> d)] else [])\<rparr>)"

definition user_managed_upsert ::
  "resource \<Rightarrow> ustring \<Rightarrow> jsvalue jsobj \<Rightarrow> ustring jsobj \<Rightarrow> behavior_result" where
  "user_managed_upsert res rid d mapped =
     (let tot = total_size mapped in
      \<lparr>br_mappedData = mapped, br_body = json_of d,
       br_events = (if int tot > effective_limit res (Some rid) then
         [exceeds OpUpsert (Some rid) tot d] else [])\<rparr>)"

text \<open>
  \<open>body.trim() !== ''\<close>, and the object that spreading a parsed body gives: the members of an
  object, the elements of an array or the units of a string by index, nothing otherwise.
\<close>

definition body_present :: "ustring \<Rightarrow> bool" where
  "body_present body \<longleftrightarrow> body \<noteq> [] \<and> \<not> list_all trim_ws body"

fun nat_text :: "nat \<Rightarrow> ustring" where
  "nat_text n = (if n < 10 then [word_of_nat (48 + n)] else nat_text (n div 10) @ [word_of_nat (48 + n mod 10)])"

declare nat_text.simps [simp del]

fun spread_members :: "jsvalue \<Rightarrow> jsvalue jsobj" where
  "spread_members (VObj kvs) = obj_entries kvs"
| "spread_members (VArr xs) = map (\<lambda>i. (nat_text i, xs ! i)) [0..<length xs]"
| "spread_members (VStr s) = map (\<lambda>i. (nat_text i, VStr [s ! i])) [0..<length s]"
| "spread_members _ = []"

record get_result =
  gr_metadata :: "jsvalue jsobj"
  gr_body :: ustring

definition user_managed_get :: "ustring jsobj \<Rightarrow> ustring \<Rightarrow> get_result" where
  "user_managed_get metadata body =
     (if body_present body then
        (case json_parse body of
          Some v \<Rightarrow> \<lparr>gr_metadata = obj_spread (spread_members v) (values_of metadata), gr_body = body\<rparr>
        | None \<Rightarrow> \<lparr>gr_metadata = values_of metadata, gr_body = body\<rparr>)
      else \<lparr>gr_metadata = values_of metadata, gr_body = body\<rparr>)"

section \<open>enforce-limits\<close>

definition enforce_limits_error ::
  "resource \<Rightarrow> behavior_op \<Rightarrow> ustring option \<Rightarrow> nat \<Rightarrow> int \<Rightarrow> behavior_error" where
  "enforce_limits_error res op rid tot limit =
     MetadataLimitError op rid tot limit S3_METADATA_LIMIT_BYTES (int tot - limit) (res_name res)"

definition enforce_limits_insert ::
  "resource \<Rightarrow> jsvalue jsobj \<Rightarrow> ustring jsobj \<Rightarrow> behavior_error + behavior_result" where
  "enforce_limits_insert res d mapped =
     (let tot = total_size mapped; limit = effective_limit res (data_id d) in
      if int tot > limit then Inl (enforce_limits_error res OpInsert None tot limit)
      else Inr \<lparr>br_mappedData = mapped, br_body = [], br_events = []\<rparr>)"

definition enforce_limits_update ::
  "resource \<Rightarrow> ustring \<Rightarrow> ustring jsobj \<Rightarrow> behavior_error + behavior_result" where
  "enforce_limits_update res rid mapped =
     (let tot = total_size mapped; limit = effective_limit res (Some rid) in
      if int tot > limit then Inl (enforce_limits_error res OpUpdate (Some rid) tot limit)
      else Inr \<lparr>br_mappedData = mapped, br_body = json_record mapped, br_events = []\<rparr>)"

definition enforce_limits_upsert ::
  "resource \<Rightarrow> ustring \<Rightarrow> ustring jsobj \<Rightarrow> behavior_error + behavior_result" where
  "enforce_limits_upsert res rid mapped =
     (let tot = total_size mapped; limit = effective_limit res (Some rid) in
      if int tot > limit then Inl (enforce_limits_error res OpUpsert (Some rid) tot limit)
      else Inr \<lparr>br_mappedData = mapped, br_body = [], br_events = []\<rparr>)"

definition enforce_limits_get :: "ustring jsobj \<Rightarrow> ustring \<Rightarrow> get_result" where
  "enforce_limits_get metadata body = \<lparr>gr_metadata = values_of metadata, gr_body = body\<rparr>"

section \<open>truncate-data\<close>

definition TRUNCATED_FLAG :: ustring where
  "TRUNCATED_FLAG = ju ''$truncated''"

definition TRUNCATED_FLAG_VALUE :: ustring where
  "TRUNCATED_FLAG_VALUE = ju ''true''"

definition TRUNCATED_FLAG_BYTES :: nat where
  "TRUNCATED_FLAG_BYTES = utf8_loop TRUNCATED_FLAG + utf8_loop TRUNCATED_FLAG_VALUE"

fun truncate_down :: "ustring \<Rightarrow> nat \<Rightarrow> nat \<Rightarrow> ustring" where
  "truncate_down s 0 maxBytes = []"
| "truncate_down s (Suc n) maxBytes =
     (let truncated = take (Suc n) s in
      if length (utf8_encode truncated) \<le> maxBytes then truncated else truncate_down s n maxBytes)"

definition truncateString :: "ustring \<Rightarrow> nat \<Rightarrow> ustring" where
  "truncateString s maxBytes =
     (if length (utf8_encode s) \<le> maxBytes then s else truncate_down s (length s) maxBytes)"

fun truncateValue :: "jsvalue \<Rightarrow> nat \<Rightarrow> ustring" where
  "truncateValue (VStr s) maxBytes = truncateString s maxBytes"
| "truncateValue (VArr xs) maxBytes =
     truncateString (case json_stringify (VArr xs) of Some t \<Rightarrow> t | None \<Rightarrow> []) maxBytes"
| "truncateValue (VObj kvs) maxBytes =
     truncateString (case json_stringify (VObj kvs) of Some t \<Rightarrow> t | None \<Rightarrow> []) maxBytes"
| "truncateValue v maxBytes = truncateString (to_string v) maxBytes"

definition sorted_fields :: "ustring jsobj \<Rightarrow> nat jsobj" where
  "sorted_fields mapped = sort_key snd (obj_entries (calculateAttributeSizes (values_of mapped)))"

definition field_of :: "ustring jsobj \<Rightarrow> ustring \<Rightarrow> ustring" where
  "field_of mapped k = (case map_of mapped k of Some v \<Rightarrow> v | None \<Rightarrow> [])"

record truncate_state =
  ts_fields :: "ustring jsobj"
  ts_size :: int
  ts_truncated :: bool

definition flag_reserve :: "bool \<Rightarrow> int" where
  "flag_reserve truncated = (if truncated then 0 else int TRUNCATED_FLAG_BYTES)"

fun truncate_fields :: "ustring jsobj \<Rightarrow> int \<Rightarrow> nat jsobj \<Rightarrow> truncate_state \<Rightarrow> truncate_state" where
  "truncate_fields mapped limit [] st = st"
| "truncate_fields mapped limit ((k, sz) # rest) st =
     (if k = ju ''_v'' then truncate_fields mapped limit rest st
      else
        let v = field_of mapped k; space = int sz + flag_reserve (ts_truncated st) in
        if ts_size st + space \<le> limit then
          truncate_fields mapped limit rest
            (st\<lparr>ts_fields := AList.update k v (ts_fields st), ts_size := ts_size st + int sz\<rparr>)
        else
          let available = limit - ts_size st - flag_reserve (ts_truncated st) in
          if available > 0 then
            let tv = truncateValue (VStr v) (nat available) in
            st\<lparr>ts_fields := AList.update k tv (ts_fields st), ts_truncated := True,
               ts_size := ts_size st + int (utf8_loop tv)\<rparr>
          else st\<lparr>ts_fields := AList.update k [] (ts_fields st), ts_truncated := True\<rparr>)"

definition version_start :: "ustring jsobj \<Rightarrow> ustring jsobj \<times> int" where
  "version_start mapped =
     (let v = field_of mapped (ju ''_v'') in
      if v \<noteq> [] then ([(ju ''_v'', v)], int (utf8_loop (transformValue (VStr v)))) else ([], 0))"

record blank_state =
  bs_fields :: "ustring jsobj"
  bs_final :: nat
  bs_truncated :: bool

definition blankable :: "ustring jsobj \<Rightarrow> ustring list" where
  "blankable fs = filter (\<lambda>f. f \<noteq> ju ''_v'' \<and> f \<noteq> TRUNCATED_FLAG) (obj_keys fs)"

definition blank_guard :: "int \<Rightarrow> blank_state \<Rightarrow> bool" where
  "blank_guard limit bs \<longleftrightarrow> int (bs_final bs) > limit \<and> blankable (bs_fields bs) \<noteq> []"

definition blank_last :: "blank_state \<Rightarrow> blank_state" where
  "blank_last bs =
     (let fs = AList.update (last (blankable (bs_fields bs))) [] (bs_fields bs) in
      \<lparr>bs_fields = fs, bs_final = total_size fs + TRUNCATED_FLAG_BYTES, bs_truncated = True\<rparr>)"

definition truncate_data_insert ::
  "resource \<Rightarrow> jsvalue jsobj \<Rightarrow> ustring jsobj \<Rightarrow> behavior_result option" where
  "truncate_data_insert res d mapped =
     (let limit = effective_limit res (data_id d);
          (fs0, sz0) = version_start mapped;
          st = truncate_fields mapped limit (sorted_fields mapped)
                 \<lparr>ts_fields = fs0, ts_size = sz0, ts_truncated = False\<rparr>;
          final = total_size (ts_fields st) + (if ts_truncated st then TRUNCATED_FLAG_BYTES else 0)
      in map_option
           (\<lambda>bs. \<lparr>br_mappedData =
               (if bs_truncated bs then AList.update TRUNCATED_FLAG TRUNCATED_FLAG_VALUE (bs_fields bs)
                else bs_fields bs), br_body = [], br_events = []\<rparr>)
           (while_option (blank_guard limit) blank_last
              \<lparr>bs_fields = ts_fields st, bs_final = final, bs_truncated = ts_truncated st\<rparr>))"

definition truncate_data_update ::
  "resource \<Rightarrow> jsvalue jsobj \<Rightarrow> ustring jsobj \<Rightarrow> behavior_result option" where
  "truncate_data_update res d mapped = truncate_data_insert res d mapped"

definition truncate_data_upsert ::
  "resource \<Rightarrow> jsvalue jsobj \<Rightarrow> ustring jsobj \<Rightarrow> behavior_result option" where
  "truncate_data_upsert res d mapped = truncate_data_insert res d mapped"

definition truncate_data_get :: "ustring jsobj \<Rightarrow> ustring \<Rightarrow> get_result" where
  "truncate_data_get metadata body = \<lparr>gr_metadata = values_of metadata, gr_body = body\<rparr>"

section \<open>body-overflow\<close>

definition OVERFLOW_FLAG :: ustring where
  "OVERFLOW_FLAG = ju ''$overflow''"

definition OVERFLOW_FLAG_VALUE :: ustring where
  "OVERFLOW_FLAG_VALUE = ju ''true''"

definition OVERFLOW_FLAG_BYTES :: nat where
  "OVERFLOW_FLAG_BYTES = utf8_loop OVERFLOW_FLAG + utf8_loop OVERFLOW_FLAG_VALUE"

record overflow_state =
  os_metadata :: "ustring jsobj"
  os_body :: "ustring jsobj"
  os_size :: int
  os_overflow :: bool
  os_reserved :: int

fun overflow_step :: "ustring jsobj \<Rightarrow> int \<Rightarrow> ustring \<times> nat \<Rightarrow> overflow_state \<Rightarrow> overflow_state" where
  "overflow_step mapped limit (k, sz) st =
     (if k = ju ''_v'' then st
      else
        let st = (if \<not> os_overflow st \<and> os_size st + int sz > limit
                  then st\<lparr>os_reserved := os_reserved st - int OVERFLOW_FLAG_BYTES, os_overflow := True\<rparr>
                  else st)
        in if \<not> os_overflow st \<and> os_size st + int sz \<le> os_reserved st
           then st\<lparr>os_metadata := AList.update k (field_of mapped k) (os_metadata st),
                   os_size := os_size st + int sz\<rparr>
           else st\<lparr>os_body := AList.update k (field_of mapped k) (os_body st), os_overflow := True\<rparr>)"

definition overflow_start :: "resource \<Rightarrow> jsvalue jsobj \<Rightarrow> ustring jsobj \<Rightarrow> overflow_state" where
  "overflow_start res d mapped =
     (let limit = effective_limit res (data_id d);
          (m0, sz0) = version_start mapped;
          pm = plugin_map_member res;
          pmSize = sum_list (map (\<lambda>(k, v). utf8_loop k + utf8_loop v) pm)
      in \<lparr>os_metadata = m0 @ pm, os_body = [], os_size = sz0 + int pmSize,
          os_overflow = False, os_reserved = limit\<rparr>)"

definition body_overflow_insert ::
  "resource \<Rightarrow> jsvalue jsobj \<Rightarrow> ustring jsobj \<Rightarrow> behavior_result" where
  "body_overflow_insert res d mapped =
     (let limit = effective_limit res (data_id d);
          st = fold (overflow_step mapped limit) (sorted_fields mapped) (overflow_start res d mapped);
          metadata = (if os_overflow st
            then AList.update OVERFLOW_FLAG OVERFLOW_FLAG_VALUE (os_metadata st) else os_metadata st);
          hasOverflow = os_body st \<noteq> []
      in \<lparr>br_mappedData = metadata, br_body = (if hasOverflow then json_record (os_body st) else []),
          br_events = []\<rparr>)"

definition body_overflow_update ::
  "resource \<Rightarrow> jsvalue jsobj \<Rightarrow> ustring jsobj \<Rightarrow> behavior_result" where
  "body_overflow_update res d mapped = body_overflow_insert res d mapped"

definition body_overflow_upsert ::
  "resource \<Rightarrow> jsvalue jsobj \<Rightarrow> ustring jsobj \<Rightarrow> behavior_result" where
  "body_overflow_upsert res d mapped = body_overflow_insert res d mapped"

definition parsed_members :: "ustring \<Rightarrow> jsvalue jsobj" where
  "parsed_members body =
     (if body_present body then
        (case json_parse body of Some v \<Rightarrow> spread_members v | None \<Rightarrow> []) else [])"

definition body_overflow_get :: "ustring jsobj \<Rightarrow> ustring \<Rightarrow> get_result" where
  "body_overflow_get metadata body =
     (let merged = obj_spread (parsed_members body) (values_of metadata) in
      \<lparr>gr_metadata = AList.delete OVERFLOW_FLAG merged, gr_body = body\<rparr>)"

section \<open>body-only\<close>

definition body_only_metadata :: "resource \<Rightarrow> ustring jsobj \<Rightarrow> ustring jsobj" where
  "body_only_metadata res mapped =
     (let v = field_of mapped (ju ''_v'') in
      [(ju ''_v'', if v \<noteq> [] then v else res_version res),
       (ju ''_map'', json_record (case res_map res of Some m \<Rightarrow> m | None \<Rightarrow> []))] @
      plugin_map_member res)"

definition body_only_insert :: "resource \<Rightarrow> ustring jsobj \<Rightarrow> behavior_result" where
  "body_only_insert res mapped =
     \<lparr>br_mappedData = body_only_metadata res mapped, br_body = json_record mapped, br_events = []\<rparr>"

definition body_only_update :: "resource \<Rightarrow> ustring jsobj \<Rightarrow> behavior_result" where
  "body_only_update res mapped =
     \<lparr>br_mappedData = body_only_metadata res mapped, br_body = json_record mapped, br_events = []\<rparr>"

definition body_only_upsert :: "resource \<Rightarrow> ustring jsobj \<Rightarrow> behavior_result" where
  "body_only_upsert res mapped = body_only_insert res mapped"

definition body_only_get :: "ustring jsobj \<Rightarrow> ustring \<Rightarrow> get_result" where
  "body_only_get metadata body =
     \<lparr>gr_metadata = obj_spread (parsed_members body) (values_of metadata), gr_body = body\<rparr>"

section \<open>Choosing a behavior\<close>

datatype behavior_name = UserManaged | EnforceLimits | TruncateData | BodyOverflow | BodyOnly

definition behaviors :: "behavior_name jsobj" where
  "behaviors = [(ju ''user-managed'', UserManaged), (ju ''enforce-limits'', EnforceLimits),
     (ju ''truncate-data'', TruncateData), (ju ''body-overflow'', BodyOverflow),
     (ju ''body-only'', BodyOnly)]"

text \<open>A member of \<open>Object.prototype\<close> is truthy, so it is returned as if it were a behavior.\<close>

definition getBehavior :: "ustring \<Rightarrow> behavior_error + behavior_name lookup" where
  "getBehavior name = (case js_lookup behaviors name of
     Missing \<Rightarrow> Inl (BehaviorError name) | found \<Rightarrow> Inr found)"

section \<open>Facts about the parts\<close>

lemma map_of_values_of: "map_of (values_of ob) k = map_option VStr (map_of ob k)"
  by (induction ob) (auto simp: values_of_def)

lemma fst_values_of [simp]: "map fst (values_of ob) = map fst ob"
  by (simp add: values_of_def case_prod_beta o_def)

lemma total_size_sum: "total_size ob = sum_list (map (\<lambda>(k, v). utf8_loop k + utf8_loop v) ob)"
  by (simp add: total_size_def calculateTotalSize_sum values_of_def case_prod_unfold comp_def)

lemma set_sorted_fields: "fst ` set (sorted_fields mapped) = fst ` set mapped"
proof -
  have "fst ` set (calculateAttributeSizes (values_of mapped)) = fst ` set mapped"
    by (force simp: calculateAttributeSizes_def values_of_def image_iff)
  then show ?thesis
    by (simp add: sorted_fields_def)
qed

lemma mset_keys_sorted_fields: "mset (map fst (sorted_fields mapped)) = mset (map fst mapped)"
proof -
  have "mset (map fst (sorted_fields mapped)) =
      mset (map fst (calculateAttributeSizes (values_of mapped)))"
    by (simp add: sorted_fields_def mset_map mset_obj_entries)
  also have "map fst (calculateAttributeSizes (values_of mapped)) =
      map fst (obj_entries (values_of mapped))"
    by (simp add: calculateAttributeSizes_def case_prod_beta o_def)
  also have "mset \<dots> = mset (map fst (values_of mapped))"
    by (simp only: mset_map mset_obj_entries)
  finally show ?thesis
    by (simp only: fst_values_of)
qed

lemma distinct_sorted_fields: "distinct (map fst mapped) \<Longrightarrow> distinct (map fst (sorted_fields mapped))"
  using mset_keys_sorted_fields mset_eq_imp_distinct_iff by blast

lemma field_of_eq: "k \<in> fst ` set mapped \<Longrightarrow> map_of mapped k = Some (field_of mapped k)"
  by (auto simp: field_of_def map_of_eq_None_iff split: option.splits)

lemma field_of_missing: "k \<notin> fst ` set mapped \<Longrightarrow> field_of mapped k = []"
  by (auto simp: field_of_def split: option.splits dest: map_of_SomeD intro: rev_image_eqI)

lemma json_record_present: "body_present (json_record ob)"
  by (simp add: body_present_def json_record_def ju_def trim_ws_def)

lemma parsed_members_record:
  assumes "distinct (map fst ob)"
  shows "map_of (parsed_members (json_record ob)) k = map_option VStr (map_of ob k)"
    and "distinct (map fst (parsed_members (json_record ob)))"
proof -
  have *: "parsed_members (json_record ob) = obj_entries (map (\<lambda>(k, v). (k, VStr v)) (obj_entries ob))"
    using assms
    by (simp add: parsed_members_def json_record_present json_record_roundtrip record_value_def)
  show "distinct (map fst (parsed_members (json_record ob)))"
    unfolding * using assms
    by (simp add: distinct_obj_keys [unfolded obj_keys_def] case_prod_beta o_def)
  show "map_of (parsed_members (json_record ob)) k = map_option VStr (map_of ob k)"
    unfolding * using assms map_of_values_of [of "obj_entries ob" k, unfolded values_of_def]
    by (simp add: map_of_obj_entries distinct_obj_keys [unfolded obj_keys_def] case_prod_beta o_def)
qed

lemma parsed_members_Nil [simp]: "parsed_members [] = []"
  by (simp add: parsed_members_def body_present_def)

section \<open>Nothing is lost\<close>

text \<open>
  The contract of a strategy that keeps the record: what \<open>get\<close> finds in the metadata and the
  body that \<open>put\<close> wrote is the mapped record, on the fields the strategy does not reserve.
\<close>

locale lossless_behavior =
  fixes put :: "ustring jsobj \<Rightarrow> (ustring jsobj \<times> ustring) option"
    and get :: "ustring jsobj \<Rightarrow> ustring \<Rightarrow> get_result"
    and admissible :: "ustring jsobj \<Rightarrow> bool"
    and reserved :: "ustring set"
  assumes get_put: "admissible m \<Longrightarrow> put m = Some (md, body) \<Longrightarrow> k \<notin> reserved \<Longrightarrow>
      map_of (gr_metadata (get md body)) k = map_option VStr (map_of m k)"
begin

lemma stored_agree:
  assumes "admissible m" and "admissible m'" and "put m = Some s" and "put m' = Some s"
    and "k \<notin> reserved"
  shows "map_of m k = map_of m' k"
proof -
  have "map_option VStr (map_of m k) = map_option VStr (map_of m' k)"
    using assms get_put [of m "fst s" "snd s" k] get_put [of m' "fst s" "snd s" k] by simp
  then show ?thesis
    by (cases "map_of m k"; cases "map_of m' k") simp_all
qed

end

definition stored :: "behavior_result \<Rightarrow> (ustring jsobj \<times> ustring) option" where
  "stored r = Some (br_mappedData r, br_body r)"

definition stored_ok :: "behavior_error + behavior_result \<Rightarrow> (ustring jsobj \<times> ustring) option" where
  "stored_ok r = (case r of Inl e \<Rightarrow> None | Inr b \<Rightarrow> stored b)"

interpretation el: lossless_behavior "\<lambda>m. stored_ok (enforce_limits_insert res d m)"
    enforce_limits_get "\<lambda>m. True" "{}" for res d
  by unfold_locales
    (auto simp: stored_ok_def stored_def enforce_limits_insert_def enforce_limits_get_def Let_def
      map_of_values_of split: if_splits)

lemma keys_body_only_metadata:
  "fst ` set (body_only_metadata res m) \<subseteq> {ju ''_v'', ju ''_map'', ju ''_pluginMap''}"
  by (auto simp: body_only_metadata_def plugin_map_member_def Let_def split: option.splits if_splits)

lemma distinct_body_only_metadata: "distinct (map fst (body_only_metadata res m))"
  by (auto simp: body_only_metadata_def plugin_map_member_def Let_def ju_inject split: option.splits)

interpretation bo: lossless_behavior "\<lambda>m. stored (body_only_insert res m)" body_only_get
    "\<lambda>m. distinct (map fst m)" "{ju ''_v'', ju ''_map'', ju ''_pluginMap''}" for res
proof unfold_locales
  fix m md body k
  assume m: "distinct (map fst m)" and eq: "stored (body_only_insert res m) = Some (md, body)"
    and k: "k \<notin> {ju ''_v'', ju ''_map'', ju ''_pluginMap''}"
  have "map_of md k = None"
    using eq k keys_body_only_metadata [of res m]
    by (auto simp: stored_def body_only_insert_def map_of_eq_None_iff)
  with eq m show "map_of (gr_metadata (body_only_get md body)) k = map_option VStr (map_of m k)"
    using distinct_body_only_metadata [of res m]
    by (auto simp: stored_def body_only_insert_def body_only_get_def map_of_obj_spread
        parsed_members_record map_of_values_of)
qed

subsection \<open>body-overflow\<close>

definition overflow_view :: "overflow_state \<Rightarrow> ustring \<Rightarrow> ustring option" where
  "overflow_view st k = (case map_of (os_metadata st) k of
     Some v \<Rightarrow> Some v | None \<Rightarrow> map_of (os_body st) k)"

lemma overflow_step_cases:
  obtains "k = ju ''_v''" "overflow_step mapped limit (k, n) st = st"
  | "k \<noteq> ju ''_v''"
    "os_metadata (overflow_step mapped limit (k, n) st) =
       AList.update k (field_of mapped k) (os_metadata st)"
    "os_body (overflow_step mapped limit (k, n) st) = os_body st"
  | "k \<noteq> ju ''_v''"
    "os_metadata (overflow_step mapped limit (k, n) st) = os_metadata st"
    "os_body (overflow_step mapped limit (k, n) st) =
       AList.update k (field_of mapped k) (os_body st)"
  by (cases "k = ju ''_v''"; cases "os_overflow st"; cases "os_size st + int n > limit";
    cases "os_size st + int n \<le> os_reserved st")
    (simp_all add: Let_def)

declare overflow_step.simps [simp del]

lemma overflow_step_view:
  assumes "k \<notin> fst ` set (os_metadata st)"
  shows "overflow_view (overflow_step mapped limit (k, n) st) k' =
    (if k' = k \<and> k \<noteq> ju ''_v'' then Some (field_of mapped k) else overflow_view st k')"
  using assms
  by (cases rule: overflow_step_cases [of k mapped limit n st])
    (auto simp: overflow_view_def map_of_update map_of_eq_None_iff [symmetric] split: option.split)

lemma overflow_step_keys:
  "fst ` set (os_metadata (overflow_step mapped limit (k, n) st)) \<subseteq> insert k (fst ` set (os_metadata st))"
  by (cases rule: overflow_step_cases [of k mapped limit n st]) auto

lemma overflow_step_distinct:
  assumes "distinct (map fst (os_metadata st))" and "distinct (map fst (os_body st))"
  shows "distinct (map fst (os_metadata (overflow_step mapped limit (k, n) st)))"
    and "distinct (map fst (os_body (overflow_step mapped limit (k, n) st)))"
  using assms
  by (cases rule: overflow_step_cases [of k mapped limit n st]; simp add: distinct_update)+

lemma overflow_step_body_keys:
  "fst ` set (os_body (overflow_step mapped limit (k, n) st)) \<subseteq> insert k (fst ` set (os_body st))"
  by (cases rule: overflow_step_cases [of k mapped limit n st]) auto

lemma overflow_fold_view:
  assumes "distinct (map fst fs)" and "fst ` set fs \<inter> fst ` set (os_metadata st) \<subseteq> {ju ''_v''}"
  shows "overflow_view (fold (overflow_step mapped limit) fs st) k =
    (if k \<in> fst ` set fs - {ju ''_v''} then Some (field_of mapped k) else overflow_view st k)"
  using assms
proof (induction fs arbitrary: st)
  case (Cons p fs)
  obtain j n where p: "p = (j, n)"
    by (cases p)
  let ?st = "overflow_step mapped limit (j, n) st"
  have "j \<notin> fst ` set fs" and "(insert j (fst ` set fs)) \<inter> fst ` set (os_metadata st) \<subseteq> {ju ''_v''}"
    using Cons.prems by (simp_all add: p)
  then have "fst ` set fs \<inter> fst ` set (os_metadata ?st) \<subseteq> {ju ''_v''}"
    using overflow_step_keys [of mapped limit j n st] by blast
  then have "overflow_view (fold (overflow_step mapped limit) fs ?st) k =
      (if k \<in> fst ` set fs - {ju ''_v''} then Some (field_of mapped k) else overflow_view ?st k)"
    using Cons.IH [of ?st] Cons.prems by (simp add: p)
  moreover have "overflow_view ?st k =
      (if k = j \<and> j \<noteq> ju ''_v'' then Some (field_of mapped j) else overflow_view st k)"
  proof (cases "j = ju ''_v''")
    case False
    then have "j \<notin> fst ` set (os_metadata st)"
      using Cons.prems by (auto simp: p)
    then show ?thesis
      by (rule overflow_step_view)
  qed (simp add: overflow_step.simps)
  ultimately show ?case
    by (auto simp: p)
qed simp

lemma overflow_fold_keys:
  "fst ` set (os_metadata (fold (overflow_step mapped limit) fs st)) \<subseteq>
     fst ` set fs \<union> fst ` set (os_metadata st)"
proof (induction fs arbitrary: st)
  case (Cons p fs)
  obtain j n where p: "p = (j, n)"
    by (cases p)
  show ?case
    using Cons.IH [of "overflow_step mapped limit (j, n) st"] overflow_step_keys [of mapped limit j n st]
    by (simp add: p) blast
qed simp

lemma overflow_fold_distinct:
  assumes "distinct (map fst (os_metadata st))" and "distinct (map fst (os_body st))"
  shows "distinct (map fst (os_metadata (fold (overflow_step mapped limit) fs st))) \<and>
    distinct (map fst (os_body (fold (overflow_step mapped limit) fs st)))"
  using assms
proof (induction fs arbitrary: st)
  case (Cons p fs)
  then show ?case
    by (cases p) (simp add: overflow_step_distinct)
qed simp

lemma overflow_fold_body_keys:
  "fst ` set (os_body (fold (overflow_step mapped limit) fs st)) \<subseteq>
     fst ` set fs \<union> fst ` set (os_body st)"
proof (induction fs arbitrary: st)
  case (Cons p fs)
  obtain j n where p: "p = (j, n)"
    by (cases p)
  show ?case
    using Cons.IH [of "overflow_step mapped limit (j, n) st"] overflow_step_body_keys [of mapped limit j n st]
    by (simp add: p) blast
qed simp

definition overflow_end :: "resource \<Rightarrow> jsvalue jsobj \<Rightarrow> ustring jsobj \<Rightarrow> overflow_state" where
  "overflow_end res d m = fold (overflow_step m (effective_limit res (data_id d))) (sorted_fields m)
     (overflow_start res d m)"

definition overflow_admissible :: "ustring jsobj \<Rightarrow> bool" where
  "overflow_admissible m \<longleftrightarrow> distinct (map fst m) \<and> OVERFLOW_FLAG \<notin> fst ` set m \<and>
     ju ''_pluginMap'' \<notin> fst ` set m \<and> map_of m (ju ''_v'') \<noteq> Some []"

lemma overflow_start_metadata:
  "os_metadata (overflow_start res d m) =
    (if field_of m (ju ''_v'') = [] then [] else [(ju ''_v'', field_of m (ju ''_v''))]) @ plugin_map_member res"
  by (simp add: overflow_start_def version_start_def Let_def)

lemma plugin_map_keys: "fst ` set (plugin_map_member res) \<subseteq> {ju ''_pluginMap''}"
  by (auto simp: plugin_map_member_def split: option.split)

lemma overflow_start_keys:
  "fst ` set (os_metadata (overflow_start res d m)) \<subseteq> {ju ''_v'', ju ''_pluginMap''}"
  using plugin_map_keys [of res] by (auto simp: overflow_start_metadata)

lemma distinct_overflow_start:
  "distinct (map fst (os_metadata (overflow_start res d m)))" "os_body (overflow_start res d m) = []"
  by (auto simp: overflow_start_def version_start_def plugin_map_member_def Let_def ju_inject
      split: option.split)

lemma inter_reserved: "S \<subseteq> {a, b} \<Longrightarrow> b \<notin> K \<Longrightarrow> K \<inter> S \<subseteq> {a}"
  by blast

lemma overflow_end_view:
  assumes "overflow_admissible m" and "k \<noteq> ju ''_pluginMap''"
  shows "overflow_view (overflow_end res d m) k = map_of m k"
proof -
  have "fst ` set (sorted_fields m) \<inter> fst ` set (os_metadata (overflow_start res d m)) \<subseteq> {ju ''_v''}"
    using assms unfolding set_sorted_fields overflow_admissible_def
    by (intro inter_reserved [OF overflow_start_keys]) simp
  then have *: "overflow_view (overflow_end res d m) k =
      (if k \<in> fst ` set m - {ju ''_v''} then Some (field_of m k)
       else overflow_view (overflow_start res d m) k)"
    using assms unfolding overflow_end_def
    by (simp add: overflow_fold_view distinct_sorted_fields overflow_admissible_def set_sorted_fields)
  have plugin: "map_of (plugin_map_member res) k = None"
    using assms(2) plugin_map_keys [of res] by (auto simp: map_of_eq_None_iff)
  show ?thesis
  proof (cases "k = ju ''_v''")
    case True
    then show ?thesis
      using * assms plugin
      by (auto simp: overflow_view_def overflow_start_metadata distinct_overflow_start
          overflow_admissible_def field_of_def split: option.split)
  next
    case False
    then have "overflow_view (overflow_start res d m) k = None"
      using plugin by (simp add: overflow_view_def overflow_start_metadata distinct_overflow_start)
    with * False show ?thesis
      by (cases "k \<in> fst ` set m") (simp_all add: field_of_eq, metis map_of_eq_None_iff)
  qed
qed

lemma overflow_end_facts:
  assumes "overflow_admissible m"
  shows "distinct (map fst (os_metadata (overflow_end res d m)))"
    and "distinct (map fst (os_body (overflow_end res d m)))"
    and "OVERFLOW_FLAG \<notin> fst ` set (os_metadata (overflow_end res d m))"
    and "OVERFLOW_FLAG \<notin> fst ` set (os_body (overflow_end res d m))"
proof -
  have "OVERFLOW_FLAG \<notin> fst ` set (os_metadata (overflow_start res d m))"
    using overflow_start_keys [of res d m] by (auto simp: OVERFLOW_FLAG_def ju_inject)
  then show "OVERFLOW_FLAG \<notin> fst ` set (os_metadata (overflow_end res d m))"
    using assms overflow_fold_keys [of m "effective_limit res (data_id d)" "sorted_fields m"
        "overflow_start res d m"]
    unfolding overflow_end_def overflow_admissible_def set_sorted_fields by blast
  show "OVERFLOW_FLAG \<notin> fst ` set (os_body (overflow_end res d m))"
    using assms overflow_fold_body_keys [of m "effective_limit res (data_id d)" "sorted_fields m"
        "overflow_start res d m"]
    unfolding overflow_end_def overflow_admissible_def
    by (auto simp: set_sorted_fields distinct_overflow_start)
  show "distinct (map fst (os_metadata (overflow_end res d m)))"
    and "distinct (map fst (os_body (overflow_end res d m)))"
    using overflow_fold_distinct [of "overflow_start res d m"]
    by (simp_all add: overflow_end_def distinct_overflow_start)
qed

lemma body_overflow_insert_eq:
  "body_overflow_insert res d m =
    (let st = overflow_end res d m in
     \<lparr>br_mappedData = (if os_overflow st then AList.update OVERFLOW_FLAG OVERFLOW_FLAG_VALUE (os_metadata st)
        else os_metadata st),
      br_body = (if os_body st \<noteq> [] then json_record (os_body st) else []), br_events = []\<rparr>)"
  by (simp add: body_overflow_insert_def overflow_end_def Let_def)

lemma body_overflow_get_insert:
  assumes "overflow_admissible m" and "k \<noteq> ju ''_pluginMap''"
  shows "map_of (gr_metadata (body_overflow_get (br_mappedData (body_overflow_insert res d m))
      (br_body (body_overflow_insert res d m)))) k = map_option VStr (map_of m k)"
proof -
  let ?st = "overflow_end res d m" and ?r = "body_overflow_insert res d m"
  note facts = overflow_end_facts [OF assms(1), of res d]
  have body: "map_of (parsed_members (br_body ?r)) j = map_option VStr (map_of (os_body ?st) j)"
    "distinct (map fst (parsed_members (br_body ?r)))" for j
    using facts(2) by (simp_all add: body_overflow_insert_eq Let_def parsed_members_record)
  have meta: "map_of (br_mappedData ?r) j =
      (if j = OVERFLOW_FLAG \<and> os_overflow ?st then Some OVERFLOW_FLAG_VALUE else map_of (os_metadata ?st) j)"
    "distinct (map fst (br_mappedData ?r))" for j
    using facts(1) by (simp_all add: body_overflow_insert_eq Let_def map_of_update distinct_update)
  have flag: "map_of m OVERFLOW_FLAG = None"
    using assms(1) by (auto simp: overflow_admissible_def map_of_eq_None_iff)
  have "map_of (gr_metadata (body_overflow_get (br_mappedData ?r) (br_body ?r))) k =
      (if k = OVERFLOW_FLAG then None else map_option VStr (overflow_view ?st k))"
    by (simp add: body_overflow_get_def map_of_delete map_of_obj_spread body meta map_of_values_of
        overflow_view_def split: option.split)
  with overflow_end_view [OF assms] flag show ?thesis
    by simp
qed

interpretation ov: lossless_behavior "\<lambda>m. stored (body_overflow_insert res d m)" body_overflow_get
    overflow_admissible "{ju ''_pluginMap''}" for res d
  by unfold_locales (auto simp: stored_def body_overflow_get_insert)

section \<open>Truncation\<close>

lemma truncate_down_spec:
  assumes "truncate_down s n b = t" and "n \<le> length s"
  shows "\<exists>i \<le> n. t = take i s \<and> length (utf8_encode t) \<le> b \<and>
    (\<forall>j. i < j \<and> j \<le> n \<longrightarrow> b < length (utf8_encode (take j s)))"
  using assms
proof (induction n)
  case 0
  then show ?case
    by (simp add: utf8_encode_def)
next
  case (Suc n)
  show ?case
  proof (cases "length (utf8_encode (take (Suc n) s)) \<le> b")
    case True
    with Suc.prems show ?thesis
      by (intro exI [of _ "Suc n"]) (auto simp: Let_def)
  next
    case False
    with Suc obtain i where "i \<le> n" and "t = take i s" and "length (utf8_encode t) \<le> b"
      and "\<forall>j. i < j \<and> j \<le> n \<longrightarrow> b < length (utf8_encode (take j s))"
      by (auto simp: Let_def)
    with False show ?thesis
      by (intro exI [of _ i]) (auto simp: le_Suc_eq)
  qed
qed

lemma truncateString_spec:
  "\<exists>i \<le> length s. truncateString s b = take i s \<and> length (utf8_encode (truncateString s b)) \<le> b \<and>
    (\<forall>j. i < j \<and> j \<le> length s \<longrightarrow> b < length (utf8_encode (take j s)))"
  using truncate_down_spec [of s "length s" b]
  by (cases "length (utf8_encode s) \<le> b") (auto simp: truncateString_def)

lemma truncateString_prefix: "starts_with s (truncateString s b)"
  using truncateString_spec [of s b] by (metis append_take_drop_id starts_with_append)

definition prefixes_of :: "ustring jsobj \<Rightarrow> ustring jsobj \<Rightarrow> bool" where
  "prefixes_of mapped fs \<longleftrightarrow> distinct (map fst fs) \<and> fst ` set fs \<subseteq> fst ` set mapped \<and>
     (\<forall>(k, v) \<in> set fs. starts_with (field_of mapped k) v)"

lemma prefixes_of_lookup:
  assumes "prefixes_of mapped fs"
  shows "case map_of fs k of None \<Rightarrow> True | Some v \<Rightarrow> k \<in> fst ` set mapped \<and> starts_with (field_of mapped k) v"
proof (cases "map_of fs k")
  case (Some v)
  then have "(k, v) \<in> set fs"
    by (rule map_of_SomeD)
  moreover from this have "k \<in> fst ` set fs"
    by force
  ultimately show ?thesis
    using assms Some by (auto simp: prefixes_of_def)
qed simp

lemma prefixes_of_update:
  assumes "prefixes_of mapped fs" and "k \<in> fst ` set mapped" and "starts_with (field_of mapped k) v"
  shows "prefixes_of mapped (AList.update k v fs)"
  using assms by (auto simp: prefixes_of_def distinct_update update_set_eq)

lemma starts_with_refl [simp]: "starts_with xs xs"
  using starts_with_append [of xs "[]"] by simp

lemma prefixes_of_start: "prefixes_of mapped (fst (version_start mapped))"
  using field_of_missing [of "ju ''_v''" mapped] by (auto simp: version_start_def prefixes_of_def Let_def)

lemma truncate_fields_prefixes:
  assumes "fst ` set fs \<subseteq> fst ` set mapped" and "prefixes_of mapped (ts_fields st)"
  shows "prefixes_of mapped (ts_fields (truncate_fields mapped limit fs st))"
  using assms
proof (induction mapped limit fs st rule: truncate_fields.induct)
  case (2 mapped limit k sz rest st)
  then show ?case
    by (auto simp: Let_def prefixes_of_update truncateString_prefix)
qed simp

lemma truncate_fields_keeps:
  "fst ` set (ts_fields st) \<subseteq> fst ` set (ts_fields (truncate_fields mapped limit fs st))"
proof (induction mapped limit fs st rule: truncate_fields.induct)
  case (2 mapped limit k sz rest st)
  then show ?case
    by (auto simp: Let_def)
qed simp

lemma truncate_fields_stores:
  assumes "\<exists>k \<in> fst ` set fs. k \<noteq> ju ''_v''"
  shows "\<exists>k \<in> fst ` set (ts_fields (truncate_fields mapped limit fs st)). k \<noteq> ju ''_v'' \<and> k \<in> fst ` set fs"
  using assms
proof (induction fs arbitrary: st)
  case (Cons p fs)
  obtain k sz where p: "p = (k, sz)"
    by (cases p)
  show ?case
  proof (cases "k = ju ''_v''")
    case True
    with Cons.prems have "\<exists>k \<in> fst ` set fs. k \<noteq> ju ''_v''"
      by (auto simp: p)
    from Cons.IH [OF this, of st] True show ?thesis
      by (auto simp: p)
  next
    case False
    have "k \<in> fst ` set (ts_fields (truncate_fields mapped limit (p # fs) st))"
      using False truncate_fields_keeps [of "st\<lparr>ts_fields := AList.update k v (ts_fields st), ts_size := n\<rparr>"
          mapped limit fs for v n]
      by (auto simp: p Let_def)
    with False show ?thesis
      by (auto simp: p)
  qed
qed simp

subsection \<open>The blanking loop\<close>

lemma keys_update_same: "k \<in> fst ` set al \<Longrightarrow> map fst (AList.update k v al) = map fst al"
  by (induction al) auto

lemma obj_keys_map_fst:
  "obj_keys ob = sort_key decimal_value (filter is_index_key (map fst ob)) @
     filter (\<lambda>k. \<not> is_index_key k) (map fst ob)"
proof -
  have "map fst (insort_key (\<lambda>p. decimal_value (fst p)) x xs) =
      insort_key decimal_value (fst x) (map fst xs)" for x and xs :: "'a jsobj"
    by (induction xs) auto
  then have "map fst (sort_key (\<lambda>p. decimal_value (fst p)) xs) = sort_key decimal_value (map fst xs)"
    for xs :: "'a jsobj"
    by (induction xs) simp_all
  then show ?thesis
    by (simp add: obj_keys_def obj_entries_def filter_map o_def)
qed

lemma update_twice: "AList.update k v (AList.update k v al) = AList.update k v al"
  by (induction al) auto

lemma blankable_blank_last:
  assumes "blankable (bs_fields bs) \<noteq> []"
  shows "blankable (bs_fields (blank_last bs)) = blankable (bs_fields bs)"
proof -
  have "last (blankable (bs_fields bs)) \<in> fst ` set (bs_fields bs)"
    using last_in_set [OF assms] by (auto simp: blankable_def)
  then show ?thesis
    unfolding blankable_def blank_last_def
    by (simp add: Let_def obj_keys_map_fst keys_update_same)
qed

lemma blank_last_twice:
  "blankable (bs_fields bs) \<noteq> [] \<Longrightarrow> blank_last (blank_last bs) = blank_last bs"
  using blankable_blank_last [of bs] by (simp add: blank_last_def Let_def update_twice)

lemma blank_loop:
  "while_option (blank_guard limit) blank_last bs =
    (if \<not> blank_guard limit bs then Some bs
     else if \<not> blank_guard limit (blank_last bs) then Some (blank_last bs) else None)"
proof -
  have stuck: "while_option (blank_guard limit) blank_last (blank_last bs) = None"
    if "blank_guard limit bs" and "blank_guard limit (blank_last bs)"
  proof (rule ccontr)
    assume "while_option (blank_guard limit) blank_last (blank_last bs) \<noteq> None"
    then obtain t where t: "while_option (blank_guard limit) blank_last (blank_last bs) = Some t"
      by auto
    have "t = blank_last bs"
    proof (rule while_option_rule [where P = "\<lambda>x. x = blank_last bs", OF _ t])
      show "blank_last x = blank_last bs" if "x = blank_last bs" for x
        using that \<open>blank_guard limit bs\<close> by (simp add: blank_last_twice blank_guard_def)
    qed simp
    with while_option_stop [OF t] that show False
      by simp
  qed
  show ?thesis
    using stuck while_option_unfold [of "blank_guard limit" blank_last bs]
      while_option_unfold [of "blank_guard limit" blank_last "blank_last bs"]
    by (cases "blank_guard limit bs"; cases "blank_guard limit (blank_last bs)") simp_all
qed

lemma prefixes_of_blank_last:
  assumes "prefixes_of mapped (bs_fields bs)" and "blankable (bs_fields bs) \<noteq> []"
  shows "prefixes_of mapped (bs_fields (blank_last bs))"
proof -
  have "last (blankable (bs_fields bs)) \<in> fst ` set (bs_fields bs)"
    using last_in_set [OF assms(2)] by (auto simp: blankable_def)
  moreover have "\<dots> \<subseteq> fst ` set mapped"
    using assms(1) by (simp add: prefixes_of_def)
  ultimately show ?thesis
    using assms(1) by (simp add: blank_last_def Let_def prefixes_of_update subset_iff)
qed

definition truncate_loop_start :: "resource \<Rightarrow> jsvalue jsobj \<Rightarrow> ustring jsobj \<Rightarrow> blank_state" where
  "truncate_loop_start res d mapped =
     (let limit = effective_limit res (data_id d);
          st = truncate_fields mapped limit (sorted_fields mapped)
                 \<lparr>ts_fields = fst (version_start mapped), ts_size = snd (version_start mapped),
                  ts_truncated = False\<rparr>
      in \<lparr>bs_fields = ts_fields st,
          bs_final = total_size (ts_fields st) + (if ts_truncated st then TRUNCATED_FLAG_BYTES else 0),
          bs_truncated = ts_truncated st\<rparr>)"

definition truncate_result :: "blank_state \<Rightarrow> behavior_result" where
  "truncate_result bs = \<lparr>br_mappedData =
     (if bs_truncated bs then AList.update TRUNCATED_FLAG TRUNCATED_FLAG_VALUE (bs_fields bs)
      else bs_fields bs), br_body = [], br_events = []\<rparr>"

lemma truncate_data_insert_eq:
  "truncate_data_insert res d mapped =
    (let limit = effective_limit res (data_id d); bs = truncate_loop_start res d mapped in
     if \<not> blank_guard limit bs then Some (truncate_result bs)
     else if \<not> blank_guard limit (blank_last bs) then Some (truncate_result (blank_last bs)) else None)"
  unfolding truncate_data_insert_def truncate_loop_start_def truncate_result_def
  by (simp add: Let_def blank_loop case_prod_beta split del: if_split) (simp split: if_split)

lemma truncate_loop_start_prefixes: "prefixes_of mapped (bs_fields (truncate_loop_start res d mapped))"
  unfolding truncate_loop_start_def Let_def
  by (simp add: truncate_fields_prefixes set_sorted_fields prefixes_of_start)

lemma truncate_loop_start_blankable:
  assumes "k \<in> fst ` set mapped" and "k \<noteq> ju ''_v''" and "TRUNCATED_FLAG \<notin> fst ` set mapped"
  shows "blankable (bs_fields (truncate_loop_start res d mapped)) \<noteq> []"
proof -
  have "\<exists>k \<in> fst ` set (sorted_fields mapped). k \<noteq> ju ''_v''"
    using assms(1,2) unfolding set_sorted_fields by blast
  from truncate_fields_stores [OF this] obtain j
    where "j \<in> fst ` set (bs_fields (truncate_loop_start res d mapped))" and "j \<noteq> ju ''_v''"
      and "j \<in> fst ` set mapped"
    unfolding truncate_loop_start_def Let_def set_sorted_fields blank_state.simps by blast
  moreover from this assms(3) have "j \<noteq> TRUNCATED_FLAG"
    by metis
  ultimately have "j \<in> set (blankable (bs_fields (truncate_loop_start res d mapped)))"
    by (simp add: blankable_def)
  then show ?thesis
    by (metis empty_iff empty_set)
qed

lemma truncate_result_cases:
  assumes "truncate_data_insert res d mapped = Some r"
  obtains bs where "r = truncate_result bs" and "prefixes_of mapped (bs_fields bs)"
    and "\<not> blank_guard (effective_limit res (data_id d)) bs"
    and "bs_final bs = total_size (bs_fields bs) + (if bs_truncated bs then TRUNCATED_FLAG_BYTES else 0)"
    and "blankable (bs_fields bs) = blankable (bs_fields (truncate_loop_start res d mapped))"
proof -
  let ?bs = "truncate_loop_start res d mapped" and ?g = "blank_guard (effective_limit res (data_id d))"
  have final: "bs_final ?bs = total_size (bs_fields ?bs) + (if bs_truncated ?bs then TRUNCATED_FLAG_BYTES else 0)"
    by (simp add: truncate_loop_start_def Let_def)
  show ?thesis
  proof (cases "?g ?bs")
    case False
    with assms show ?thesis
      using truncate_loop_start_prefixes final by (intro that [of ?bs]) (simp_all add: truncate_data_insert_eq)
  next
    case True
    then have "blankable (bs_fields ?bs) \<noteq> []"
      by (simp add: blank_guard_def)
    moreover have "bs_final (blank_last ?bs) = total_size (bs_fields (blank_last ?bs)) +
        (if bs_truncated (blank_last ?bs) then TRUNCATED_FLAG_BYTES else 0)"
      by (simp add: blank_last_def Let_def)
    ultimately show ?thesis
      using True assms truncate_loop_start_prefixes
      by (intro that [of "blank_last ?bs"])
        (auto simp: truncate_data_insert_eq Let_def prefixes_of_blank_last blankable_blank_last
          split: if_splits)
  qed
qed

section \<open>Properties\<close>

text \<open>
  C18 (enforce-limits). Insert, update and upsert accept a record exactly when its names and
  values, counted in UTF-8 bytes, fit in the 2047 bytes left by the system fields; an accepted
  record is stored unchanged, a rejected one is reported with its size, the limit and the
  excess, and nothing is stored.
\<close>

theorem enforce_limits_accepts_what_fits:
  "enforce_limits_insert res d mapped =
     (if int (\<Sum>(k, v)\<leftarrow>mapped. length (utf8_encode k) + length (utf8_encode v)) \<le> effective_limit res (data_id d)
      then Inr \<lparr>br_mappedData = mapped, br_body = [], br_events = []\<rparr>
      else Inl (enforce_limits_error res OpInsert None (total_size mapped) (effective_limit res (data_id d))))
   \<and> enforce_limits_update res rid mapped =
     (if int (\<Sum>(k, v)\<leftarrow>mapped. length (utf8_encode k) + length (utf8_encode v)) \<le> effective_limit res (Some rid)
      then Inr \<lparr>br_mappedData = mapped, br_body = json_record mapped, br_events = []\<rparr>
      else Inl (enforce_limits_error res OpUpdate (Some rid) (total_size mapped) (effective_limit res (Some rid))))
   \<and> enforce_limits_upsert res rid mapped =
     (if int (\<Sum>(k, v)\<leftarrow>mapped. length (utf8_encode k) + length (utf8_encode v)) \<le> effective_limit res (Some rid)
      then Inr \<lparr>br_mappedData = mapped, br_body = [], br_events = []\<rparr>
      else Inl (enforce_limits_error res OpUpsert (Some rid) (total_size mapped) (effective_limit res (Some rid))))"
  by (simp add: enforce_limits_insert_def enforce_limits_update_def enforce_limits_upsert_def Let_def
      total_size_sum utf8_loop_encode)

text \<open>
  C3 (body-overflow). The fields written to the metadata and the ones that overflow to the body
  are merged back by get: every field of the record reads back with its value, for any sizes
  and any limit.
\<close>

theorem body_overflow_roundtrip:
  assumes "distinct (map fst m)" and "OVERFLOW_FLAG \<notin> fst ` set m"
    and "ju ''_pluginMap'' \<notin> fst ` set m" and "map_of m (ju ''_v'') \<noteq> Some []"
    and "k \<noteq> ju ''_pluginMap''"
  shows "map_of (gr_metadata (body_overflow_get (br_mappedData (body_overflow_insert res d m))
      (br_body (body_overflow_insert res d m)))) k = map_option VStr (map_of m k)"
  using assms by (intro ov.get_put) (simp_all add: overflow_admissible_def stored_def)

definition sample_resource :: resource where
  "sample_resource = \<lparr>res_name = ju ''users'', res_version = ju ''v1'', res_timestamps = Some False,
     res_map = None, res_pluginMap = None\<rparr>"

theorem body_overflow_roundtrip_witness:
  "map_of (gr_metadata (body_overflow_get
      (br_mappedData (body_overflow_insert sample_resource [] [(ju ''a'', ju ''x''), (ju ''b'', replicate 3000 65)]))
      (br_body (body_overflow_insert sample_resource [] [(ju ''a'', ju ''x''), (ju ''b'', replicate 3000 65)]))))
    (ju ''b'') = Some (VStr (replicate 3000 65))"
  by (subst body_overflow_roundtrip) (simp_all add: ju_inject OVERFLOW_FLAG_def)

text \<open>
  Body-only. The whole record is written to the body: every field that is not one of the
  reserved metadata keys reads back with its value.
\<close>

theorem body_only_roundtrip:
  assumes "distinct (map fst m)" and "k \<notin> {ju ''_v'', ju ''_map'', ju ''_pluginMap''}"
  shows "map_of (gr_metadata (body_only_get (br_mappedData (body_only_insert res m))
      (br_body (body_only_insert res m)))) k = map_option VStr (map_of m k)"
  using assms by (intro bo.get_put [of m res]) (simp_all add: stored_def)

theorem body_only_roundtrip_witness:
  "map_of (gr_metadata (body_only_get
      (br_mappedData (body_only_insert sample_resource [(ju ''a'', ju ''x''), (ju ''10'', ju ''y'')]))
      (br_body (body_only_insert sample_resource [(ju ''a'', ju ''x''), (ju ''10'', ju ''y'')]))))
    (ju ''10'') = Some (VStr (ju ''y''))"
  by (subst body_only_roundtrip) (simp_all add: ju_inject)

text \<open>
  C34 (truncate-data). When the insert returns, the metadata with its truncation flag fits the
  limit (unless the record has no field but \<open>_v\<close>), it holds fields of the record only, and each
  stored value is a prefix of the original one.
\<close>

theorem truncate_data_fits:
  assumes "truncate_data_insert res d mapped = Some r" and "TRUNCATED_FLAG \<notin> fst ` set mapped"
    and "j \<in> fst ` set mapped" and "j \<noteq> ju ''_v''"
  shows "int (total_size (br_mappedData r)) \<le> effective_limit res (data_id d) \<and>
    (k \<noteq> TRUNCATED_FLAG \<longrightarrow> (case map_of (br_mappedData r) k of
        None \<Rightarrow> True | Some v \<Rightarrow> k \<in> fst ` set mapped \<and> starts_with (field_of mapped k) v))"
proof -
  obtain bs where r: "r = truncate_result bs" and pre: "prefixes_of mapped (bs_fields bs)"
    and guard: "\<not> blank_guard (effective_limit res (data_id d)) bs"
    and final: "bs_final bs = total_size (bs_fields bs) + (if bs_truncated bs then TRUNCATED_FLAG_BYTES else 0)"
    and blank: "blankable (bs_fields bs) = blankable (bs_fields (truncate_loop_start res d mapped))"
    using truncate_result_cases [OF assms(1)] by blast
  have "int (bs_final bs) \<le> effective_limit res (data_id d)"
    using guard blank truncate_loop_start_blankable [OF assms(3,4,2)] by (auto simp: blank_guard_def)
  moreover have "total_size (br_mappedData r) = bs_final bs"
  proof -
    have "TRUNCATED_FLAG \<notin> fst ` set (bs_fields bs)"
      using pre assms(2) by (auto simp: prefixes_of_def)
    then show ?thesis
      by (simp add: r truncate_result_def final update_fresh total_size_sum TRUNCATED_FLAG_BYTES_def)
  qed
  moreover have "(k \<noteq> TRUNCATED_FLAG \<longrightarrow> (case map_of (br_mappedData r) k of
      None \<Rightarrow> True | Some v \<Rightarrow> k \<in> fst ` set mapped \<and> starts_with (field_of mapped k) v))"
    using prefixes_of_lookup [OF pre, of k] by (simp add: r truncate_result_def map_of_update)
  ultimately show ?thesis
    by simp
qed

lemma sample_limit: "effective_limit sample_resource (data_id []) = 2043"
  by (simp add: effective_limit_def data_id_def calculateEffectiveLimit_def S3_METADATA_LIMIT_BYTES_def
      calculateSystemOverhead_def sample_resource_def calculateTotalSize_sum)

lemma sample_sizes:
  "sorted_fields [(ju ''a'', ju ''xy''), (ju ''b'', ju ''z'')] = [(ju ''b'', 1), (ju ''a'', 2)]"
  by (simp add: sorted_fields_def calculateAttributeSizes_def values_of_def obj_entries_def)

lemma sample_start:
  "version_start [(ju ''a'', ju ''xy''), (ju ''b'', ju ''z'')] = ([], 0)"
  by (simp add: version_start_def field_of_def ju_inject)

lemma utf8_length_replicate: "unat u < 128 \<Longrightarrow> length (utf8_encode (replicate n u)) = n"
  by (simp add: utf8_loop_ascii list_all_length flip: utf8_loop_encode)

theorem truncate_data_fits_witness:
  "\<exists>r. truncate_data_insert sample_resource [] [(ju ''a'', ju ''xy''), (ju ''b'', ju ''z'')] = Some r \<and>
     int (total_size (br_mappedData r)) \<le> effective_limit sample_resource (data_id [])"
proof -
  have "truncate_data_insert sample_resource [] [(ju ''a'', ju ''xy''), (ju ''b'', ju ''z'')] =
      Some \<lparr>br_mappedData = [(ju ''b'', ju ''z''), (ju ''a'', ju ''xy'')], br_body = [], br_events = []\<rparr>"
    by (simp add: truncate_data_insert_eq truncate_loop_start_def sample_limit sample_sizes sample_start
        field_of_def blank_guard_def truncate_result_def total_size_sum ju_inject Let_def
        flag_reserve_def TRUNCATED_FLAG_BYTES_def TRUNCATED_FLAG_def TRUNCATED_FLAG_VALUE_def)
  moreover from truncate_data_fits [OF this, of "ju ''a''" "ju ''a''"]
  have "int (total_size [(ju ''b'', ju ''z''), (ju ''a'', ju ''xy'')]) \<le>
      effective_limit sample_resource (data_id [])"
    by (simp add: ju_inject TRUNCATED_FLAG_def)
  ultimately show ?thesis
    by simp
qed

lemma sorted_fields_single: "sorted_fields [(k, v)] = [(k, utf8_loop v)]"
  by (simp add: sorted_fields_def calculateAttributeSizes_def values_of_def obj_entries_def)

text \<open>
  C35 (truncate-data). The loop that brings the metadata under the limit always blanks the same
  last field: a record with one field whose name alone exceeds the limit makes the insert run
  for ever, whatever the value, instead of truncating or failing.
\<close>

theorem truncate_data_insert_diverges:
  assumes "int (length (utf8_encode k)) > effective_limit res (data_id d)"
    and "k \<noteq> ju ''_v''" and "k \<noteq> TRUNCATED_FLAG"
  shows "truncate_data_insert res d [(k, v)] = None"
proof -
  let ?bs = "truncate_loop_start res d [(k, v)]" and ?limit = "effective_limit res (data_id d)"
  have start: "\<exists>w. bs_fields ?bs = [(k, w)]" and "bs_final ?bs \<ge> utf8_loop k"
    using assms(2)
    by (auto simp: truncate_loop_start_def version_start_def sorted_fields_single field_of_def
        total_size_sum Let_def)
  moreover from start assms(2,3) have blank: "blankable (bs_fields ?bs) = [k]"
    by (auto simp: blankable_def obj_keys_map_fst)
  ultimately have "blank_guard ?limit ?bs"
    using assms(1) by (simp add: blank_guard_def utf8_loop_encode)
  moreover have "blank_guard ?limit (blank_last ?bs)"
    using assms(1) start blank blankable_blank_last [of ?bs]
    by (auto simp: blank_guard_def blank_last_def Let_def total_size_sum utf8_loop_encode)
  ultimately show ?thesis
    by (simp add: truncate_data_insert_eq Let_def)
qed

theorem truncate_data_insert_diverges_witness:
  "truncate_data_insert sample_resource [] [(replicate 2100 97, ju ''x'')] = None"
proof (rule truncate_data_insert_diverges)
  have "length (utf8_encode (replicate 2100 97)) = 2100"
    by (simp add: utf8_length_replicate)
  then show "effective_limit sample_resource (data_id []) < int (length (utf8_encode (replicate 2100 97)))"
    by (simp add: sample_limit)
qed (auto simp: ju_def TRUNCATED_FLAG_def dest!: arg_cong [where f = length])

text \<open>
  Body-overflow. The fit test counts the values of the fields but not their names (nor
  the reserved flag for a field placed before the overflow): a field with an empty value is
  written to the metadata however long its name is, so that the metadata exceeds the 2047
  bytes S3 accepts, which the body was meant to prevent.
\<close>

theorem body_overflow_may_exceed:
  assumes "length (utf8_encode k) > S3_METADATA_LIMIT_BYTES" and "k \<noteq> ju ''_v''"
    and "res_pluginMap res = None" and "effective_limit res (data_id d) \<ge> 0"
  shows "br_mappedData (body_overflow_insert res d [(k, [])]) = [(k, [])] \<and>
    total_size (br_mappedData (body_overflow_insert res d [(k, [])])) > S3_METADATA_LIMIT_BYTES"
proof -
  have "br_mappedData (body_overflow_insert res d [(k, [])]) = [(k, [])]"
    using assms(2-4)
    by (simp add: body_overflow_insert_def overflow_start_def version_start_def plugin_map_member_def
        sorted_fields_single field_of_def overflow_step.simps Let_def)
  with assms(1) show ?thesis
    by (simp add: total_size_sum utf8_loop_encode)
qed

theorem body_overflow_may_exceed_witness:
  "total_size (br_mappedData (body_overflow_insert sample_resource [] [(replicate 2100 97, [])])) > 2047"
proof -
  have "length (utf8_encode (replicate 2100 97)) = 2100"
    by (simp add: utf8_length_replicate)
  moreover have "replicate 2100 97 \<noteq> ju ''_v''"
    by (auto simp: ju_def dest!: arg_cong [where f = length])
  moreover have "res_pluginMap sample_resource = None"
    by (simp add: sample_resource_def)
  ultimately have "total_size (br_mappedData (body_overflow_insert sample_resource [] [(replicate 2100 97, [])])) >
      S3_METADATA_LIMIT_BYTES"
    by (intro body_overflow_may_exceed [THEN conjunct2]) (simp_all add: S3_METADATA_LIMIT_BYTES_def sample_limit)
  then show ?thesis
    by (simp only: S3_METADATA_LIMIT_BYTES_def)
qed

text \<open>
  TruncateString. The result is the longest prefix of the string, in UTF-16 units, whose
  UTF-8 encoding fits the given number of bytes.
\<close>

theorem truncateString_longest_prefix:
  "\<exists>i \<le> length s. truncateString s b = take i s \<and> length (utf8_encode (truncateString s b)) \<le> b \<and>
    (\<forall>j. i < j \<and> j \<le> length s \<longrightarrow> b < length (utf8_encode (take j s)))"
  by (rule truncateString_spec)

theorem truncateString_longest_prefix_witness:
  "truncateString (ju ''abc'') 2 = ju ''ab'' \<and>
   (\<exists>i. truncateString (ju ''abc'') 2 = take i (ju ''abc''))"
proof -
  have len: "length (utf8_encode (ju s)) = length s" if "list_all (\<lambda>c. of_char c < (128 :: nat)) s" for s
    using that by (simp flip: utf8_loop_encode)
  have "ju ''abc'' = [97, 98, 99]" and "ju ''ab'' = [97, 98]"
    by (simp_all add: ju_def)
  with len [of "''abc''"] len [of "''ab''"] have "truncateString (ju ''abc'') 2 = ju ''ab''"
    by (simp add: truncateString_def numeral_3_eq_3 Let_def)
  with truncateString_longest_prefix [of "ju ''abc''" 2] show ?thesis
    by metis
qed

end
