(* ===== verification/Base62.thy ===== *)
theory Base62
  imports JsPrelude
begin

text \<open>
  \<open>src/concerns/base62.ts\<close>: numbers written in base 62 (ids, versions, decimals) and, for
  metadata keys, in base 36. A number is \<open>Some i\<close> for an integer, \<open>None\<close> for \<open>NaN\<close> and the
  infinities. The source computes on doubles, so a quotient, a product and a sum of integers are
  rounded to 53 significant bits here as there: exactly as written below \<open>2^53\<close>, to the nearest
  representable integer (ties to even) above, and to infinity from \<open>2^1024\<close> on. The sign of a zero is
  not represented. The fixed-point functions are modelled between the scaled integer \<open>Math.round(n * 10^precision)\<close> and the text; the
  floating-point multiplication and division around them are not modelled.
  The locale \<open>digit_alphabet\<close> holds what both alphabets share.
\<close>

definition alphabet :: ustring where
  "alphabet = ju ''0123456789abcdefghijklmnopqrstuvwxyzABCDEFGHIJKLMNOPQRSTUVWXYZ''"

definition keyAlphabet :: ustring where
  "keyAlphabet = ju ''0123456789abcdefghijklmnopqrstuvwxyz''"

definition char_index :: "ustring \<Rightarrow> (16 word \<times> nat) list" where
  "char_index alph = zip alph [0..<length alph]"

definition charToValue :: "16 word \<Rightarrow> nat option" where
  "charToValue = map_of (char_index alphabet)"

definition keyCharToValue :: "16 word \<Rightarrow> nat option" where
  "keyCharToValue = map_of (char_index keyAlphabet)"

section \<open>Integers in doubles\<close>

fun log2 :: "nat \<Rightarrow> nat" where
  "log2 n = (if n < 2 then 0 else Suc (log2 (n div 2)))"

declare log2.simps [simp del]

text \<open>The integer nearest to \<open>p / q\<close>, the even one of two.\<close>

definition half_even :: "nat \<Rightarrow> nat \<Rightarrow> nat" where
  "half_even p q = (let d = p div q; m = p mod q in if 2 * m < q \<or> 2 * m = q \<and> even d then d else Suc d)"

definition to_double :: "nat \<Rightarrow> nat option" where
  "to_double n =
     (if n < 2 ^ 53 then Some n
      else let u = log2 n - 52; m = half_even n (2 ^ u) * 2 ^ u in if m < 2 ^ 1024 then Some m else None)"

text \<open>
  \<open>Math.floor(n / b)\<close>: the quotient is rounded to 53 bits, then the floor taken. A quotient below one
  stays below one for the bases of this file.
\<close>

lemma to_double_small: "n < 2 ^ 53 \<Longrightarrow> to_double n = Some n"
  unfolding to_double_def by (rule if_P)

definition floor_quotient :: "nat \<Rightarrow> nat \<Rightarrow> nat" where
  "floor_quotient n b =
     (if n < b then 0
      else let l = log2 (n div b) in
        if l \<le> 52 then half_even (n * 2 ^ (52 - l)) b div 2 ^ (52 - l)
        else half_even n (b * 2 ^ (l - 52)) * 2 ^ (l - 52))"

lemma log2_le: "0 < n \<Longrightarrow> 2 ^ log2 n \<le> n"
proof (induction n rule: less_induct)
  case (less n)
  show ?case
  proof (cases "n < 2")
    case False
    then have "2 ^ log2 (n div 2) \<le> n div 2"
      by (intro less.IH) simp_all
    then show ?thesis
      using False by (subst log2.simps) simp
  qed (use less.prems in \<open>simp add: log2.simps [of n]\<close>)
qed

lemma half_even_le: "half_even p q \<le> Suc (p div q)"
  by (simp add: half_even_def Let_def)

lemma floor_quotient_less:
  assumes "0 < n" and "3 \<le> b"
  shows "floor_quotient n b < n"
proof (cases "n < b")
  case False
  define d where "d = n div b"
  define l where "l = log2 d"
  have d: "0 < d" "3 * d \<le> n"
  proof -
    show "0 < d"
      using False assms by (simp add: d_def div_greater_zero_iff)
    have "3 * d \<le> b * d"
      using assms(2) by simp
    also have "\<dots> \<le> n"
      by (simp add: d_def)
    finally show "3 * d \<le> n" .
  qed
  show ?thesis
  proof (cases "l \<le> 52")
    case True
    define k where "k = 52 - l"
    have "n * 2 ^ k < (b * Suc d) * 2 ^ k"
    proof (rule mult_strict_right_mono)
      show "n < b * Suc d"
        using assms(2) dividend_less_times_div [of b n] by (simp add: d_def)
    qed simp
    then have "n * 2 ^ k < (Suc d * 2 ^ k) * b"
      by (simp only: ac_simps)
    then have "n * 2 ^ k div b < Suc d * 2 ^ k"
      by (rule less_mult_imp_div_less)
    then have "half_even (n * 2 ^ k) b \<le> Suc d * 2 ^ k"
      using half_even_le [of "n * 2 ^ k" b] by simp
    then have "half_even (n * 2 ^ k) b div 2 ^ k \<le> Suc d"
      by (metis div_le_mono nonzero_mult_div_cancel_right power_not_zero zero_neq_numeral)
    then show ?thesis
      using False True d by (simp add: floor_quotient_def d_def [symmetric] l_def [symmetric] k_def [symmetric])
  next
    case l: False
    define u where "u = l - 52"
    have "2 ^ u \<le> (2::nat) ^ l"
      by (simp add: u_def)
    also have "\<dots> \<le> d"
      using log2_le [OF d(1)] by (simp add: l_def)
    finally have u: "2 ^ u \<le> d" .
    have "half_even n (b * 2 ^ u) * 2 ^ u \<le> Suc (n div (b * 2 ^ u)) * 2 ^ u"
      by (intro mult_le_mono1 half_even_le)
    also have "\<dots> = d div 2 ^ u * 2 ^ u + 2 ^ u"
      by (simp add: d_def div_mult2_eq)
    also have "\<dots> \<le> d + d"
      using u by (intro add_mono) simp_all
    also have "\<dots> < n"
      using d by simp
    finally show ?thesis
      using False l by (simp add: floor_quotient_def d_def [symmetric] l_def [symmetric] u_def [symmetric])
  qed
qed (use assms in \<open>simp add: floor_quotient_def\<close>)

text \<open>Below \<open>2^53\<close> the rounded quotient has the same floor as the exact one.\<close>

lemma floor_quotient_exact:
  assumes "n < 2 ^ 53" and "0 < b"
  shows "floor_quotient n b = n div b"
proof (cases "n < b")
  case False
  define d where "d = n div b"
  define l where "l = log2 d"
  define k where "k = 52 - l"
  define m where "m = n mod b"
  have n: "n = b * d + m" and m: "m < b"
    using assms(2) by (simp_all add: d_def m_def)
  have "0 < d"
    using False assms(2) by (simp add: d_def div_greater_zero_iff)
  then have "b * 2 ^ l \<le> b * d"
    unfolding l_def by (intro mult_le_mono2 log2_le)
  also have "\<dots> \<le> n"
    using n by simp
  finally have bl: "b * 2 ^ l < 2 ^ 53"
    using assms(1) by (rule le_less_trans)
  have "2 ^ l < (2::nat) ^ 53"
    using bl assms(2) by (metis le_less_trans mult.commute mult_le_mono1 mult_1 Suc_leI One_nat_def)
  then have l: "l \<le> 52"
    using power_less_imp_less_exp [of "2::nat" l 53] by simp
  have "b * 2 ^ l < 2 ^ Suc k * 2 ^ l"
    using bl l by (simp add: k_def power_add [symmetric] del: power_Suc)
  then have b: "b < 2 ^ Suc k"
    by simp
  define e where "e = m * 2 ^ k div b"
  define q where "q = m * 2 ^ k mod b"
  have eq: "m * 2 ^ k = b * e + q" and "q < b"
    using assms(2) by (simp_all add: e_def q_def)
  have parts: "n * 2 ^ k div b = d * 2 ^ k + e" "n * 2 ^ k mod b = q"
  proof -
    have n': "n * 2 ^ k = m * 2 ^ k + b * (d * 2 ^ k)"
      by (simp add: n algebra_simps)
    show "n * 2 ^ k div b = d * 2 ^ k + e" "n * 2 ^ k mod b = q"
      using assms(2) unfolding n' e_def q_def by simp_all
  qed
  have "m * 2 ^ k < b * 2 ^ k"
    using m by simp
  then have e: "e < 2 ^ k"
    unfolding e_def by (simp add: less_mult_imp_div_less mult.commute)
  have "2 * q < b" if "Suc e = 2 ^ k"
  proof -
    have "Suc m * 2 ^ k \<le> b * 2 ^ k"
      using m by (intro mult_le_mono1) simp
    then have "b * e + q + 2 ^ k \<le> b * Suc e"
      using eq that by simp
    then show ?thesis
      using b by simp
  qed
  then have "half_even (n * 2 ^ k) b < Suc d * 2 ^ k"
    using e by (cases "Suc e = 2 ^ k") (simp_all add: half_even_def parts Let_def)
  moreover have "d * 2 ^ k \<le> half_even (n * 2 ^ k) b"
    by (simp add: half_even_def parts Let_def)
  ultimately have "half_even (n * 2 ^ k) b div 2 ^ k = d"
    by (intro div_nat_eqI) (simp_all add: mult.commute)
  then show ?thesis
    using False l by (simp add: floor_quotient_def d_def [symmetric] l_def [symmetric] k_def [symmetric])
qed (simp add: floor_quotient_def)

section \<open>The encodings\<close>

text \<open>The \<open>while (n)\<close> loop; an alphabet of fewer than three characters, for which it might not end,
  does not occur.\<close>

function digit_loop :: "ustring \<Rightarrow> nat \<Rightarrow> ustring \<Rightarrow> ustring" where
  "digit_loop alph n s =
     (if n = 0 \<or> length alph < 3 then s
      else digit_loop alph (floor_quotient n (length alph)) (alph ! (n mod length alph) # s))"
  by pat_completeness auto

termination
  by (relation "measure (\<lambda>(alph, n, s). n)") (simp_all add: floor_quotient_less)

declare digit_loop.simps [simp del]

fun value_loop :: "(16 word \<Rightarrow> nat option) \<Rightarrow> nat \<Rightarrow> ustring \<Rightarrow> nat \<Rightarrow> nat option" where
  "value_loop val b [] r = Some r"
| "value_loop val b (c # cs) r =
     (case val c of
        None \<Rightarrow> None
      | Some idx \<Rightarrow>
          (case to_double (r * b) of
             None \<Rightarrow> None
           | Some p \<Rightarrow> (case to_double (p + idx) of None \<Rightarrow> None | Some r' \<Rightarrow> value_loop val b cs r')))"

definition signed_value :: "(ustring \<Rightarrow> nat option) \<Rightarrow> ustring \<Rightarrow> int option" where
  "signed_value f s =
     (if s \<noteq> [] \<and> hd s = 45 then map_option (\<lambda>r. - int r) (f (tl s))
      else map_option int (f s))"

definition encode :: "int option \<Rightarrow> ustring" where
  "encode n = (case n of
     None \<Rightarrow> ju ''undefined''
   | Some i \<Rightarrow>
       if i = 0 then [alphabet ! 0]
       else if i < 0 then 45 # digit_loop alphabet (nat (- i)) []
       else digit_loop alphabet (nat i) [])"

definition decode :: "ustring \<Rightarrow> int option" where
  "decode s = (if s = [] then Some 0
     else signed_value (\<lambda>str. value_loop charToValue (length alphabet) str 0) s)"

definition encodeKey :: "int option \<Rightarrow> ustring" where
  "encodeKey n = (case n of
     None \<Rightarrow> ju ''undefined''
   | Some i \<Rightarrow>
       if i = 0 then [keyAlphabet ! 0]
       else if i < 0 then 45 # digit_loop keyAlphabet (nat (- i)) []
       else digit_loop keyAlphabet (nat i) [])"

definition decodeKey :: "ustring \<Rightarrow> int option" where
  "decodeKey s = (if s = [] then Some 0
     else signed_value (\<lambda>str. value_loop keyCharToValue (length keyAlphabet) str 0) s)"

definition signed_digits :: "int \<Rightarrow> ustring" where
  "signed_digits scaled = (if scaled < 0 then [45] else []) @ digit_loop alphabet (nat \<bar>scaled\<bar>) []"

definition encodeFixedPoint :: "int option \<Rightarrow> ustring" where
  "encodeFixedPoint n = (case n of
     None \<Rightarrow> ju ''undefined''
   | Some scaled \<Rightarrow> if scaled = 0 then ju ''^0'' else ju ''^'' @ signed_digits scaled)"

definition decodeFixedPoint :: "ustring \<Rightarrow> int option" where
  "decodeFixedPoint s =
     (if \<not> starts_with s (ju ''^'') then None
      else let str = drop 1 s in
        if str = ju ''0'' then Some 0
        else signed_value (\<lambda>t. value_loop charToValue (length alphabet) t 0) str)"

definition encodeFixedPointBatch :: "int option list \<Rightarrow> ustring" where
  "encodeFixedPointBatch vs =
     (if vs = [] then ju ''^[]''
      else ju ''^['' @ join (ju '','')
        (map (\<lambda>v. case v of None \<Rightarrow> [] | Some scaled \<Rightarrow> if scaled = 0 then ju ''0'' else signed_digits scaled) vs)
        @ ju '']'')"

definition decodeFixedPointBatch :: "ustring \<Rightarrow> int option list" where
  "decodeFixedPointBatch s =
     (if \<not> starts_with s (ju ''^['') then []
      else let inner = butlast (drop 2 s) in
        if inner = [] then []
        else map (\<lambda>part.
            if part = ju ''0'' then Some 0
            else if part = [] then None
            else signed_value (\<lambda>t. value_loop charToValue (length alphabet) t 0) part)
          (split_on (hd (ju '','')) inner))"

section \<open>Alphabets\<close>

locale digit_alphabet =
  fixes alph :: ustring and val :: "16 word \<Rightarrow> nat option"
  assumes three: "3 \<le> length alph"
    and val_digit: "i < length alph \<Longrightarrow> val (alph ! i) = Some i"
    and val_other: "c \<notin> set alph \<Longrightarrow> val c = None"
    and no_minus: "45 \<notin> set alph"
begin

lemma digit_loop_step:
  "n > 0 \<Longrightarrow> digit_loop alph n s =
     digit_loop alph (floor_quotient n (length alph)) (alph ! (n mod length alph) # s)"
  using three by (subst digit_loop.simps) simp

lemma digit_loop_0: "digit_loop alph 0 s = s"
  by (simp add: digit_loop.simps)

lemma digit_loop_append: "digit_loop alph n s = digit_loop alph n [] @ s"
proof (induction n arbitrary: s rule: less_induct)
  case (less n)
  show ?case
  proof (cases "n = 0")
    case False
    then have "floor_quotient n (length alph) < n"
      using three by (simp add: floor_quotient_less)
    from less [OF this] show ?thesis
      using False by (metis append_Cons append_Nil append_assoc digit_loop_step neq0_conv)
  qed (simp add: digit_loop_0)
qed

lemma digit_loop_snoc:
  "n > 0 \<Longrightarrow> digit_loop alph n [] =
     digit_loop alph (floor_quotient n (length alph)) [] @ [alph ! (n mod length alph)]"
  by (metis digit_loop_append digit_loop_step)

lemma value_loop_append:
  "value_loop val b (xs @ ys) r =
    (case value_loop val b xs r of None \<Rightarrow> None | Some q \<Rightarrow> value_loop val b ys q)"
  by (induction xs arbitrary: r) (auto split: option.split)

lemma value_digits: "n < 2 ^ 53 \<Longrightarrow> value_loop val (length alph) (digit_loop alph n []) 0 = Some n"
proof (induction n rule: less_induct)
  case (less n)
  show ?case
  proof (cases "n = 0")
    case False
    let ?b = "length alph"
    have fq: "floor_quotient n ?b = n div ?b"
      using less.prems three by (intro floor_quotient_exact) linarith+
    have "n div ?b < n"
      using False three by simp
    with less have "value_loop val ?b (digit_loop alph (n div ?b) []) 0 = Some (n div ?b)"
      by simp
    moreover have "val (alph ! (n mod ?b)) = Some (n mod ?b)"
      using three by (intro val_digit mod_less_divisor) linarith
    moreover have "to_double (n div ?b * ?b) = Some (n div ?b * ?b)"
      using le_less_trans [OF div_times_less_eq_dividend less.prems] by (rule to_double_small)
    moreover have "to_double (n div ?b * ?b + n mod ?b) = Some n"
      using to_double_small [OF less.prems] by simp
    ultimately show ?thesis
      using False by (simp add: digit_loop_snoc value_loop_append fq)
  qed (simp add: digit_loop_0)
qed

lemma digits_in_alphabet: "set (digit_loop alph n []) \<subseteq> set alph"
proof (induction n rule: less_induct)
  case (less n)
  show ?case
  proof (cases "n = 0")
    case False
    then have "set (digit_loop alph (floor_quotient n (length alph)) []) \<subseteq> set alph"
      using three by (intro less) (simp add: floor_quotient_less)
    moreover have "alph ! (n mod length alph) \<in> set alph"
      using three by (intro nth_mem mod_less_divisor) linarith
    ultimately show ?thesis
      using False by (simp add: digit_loop_snoc)
  qed (simp add: digit_loop_0)
qed

lemma digits_nonempty: "n > 0 \<Longrightarrow> digit_loop alph n [] \<noteq> []"
  by (simp add: digit_loop_snoc)

lemma digits_no_minus: "n > 0 \<Longrightarrow> hd (digit_loop alph n []) \<noteq> 45"
  using digits_nonempty [of n] digits_in_alphabet [of n] no_minus by (metis hd_in_set subsetD)

definition text_of :: "int \<Rightarrow> ustring" where
  "text_of i = (if i = 0 then [alph ! 0]
     else if i < 0 then 45 # digit_loop alph (nat (- i)) [] else digit_loop alph (nat i) [])"

lemma first_digit: "alph ! 0 \<noteq> 45" and zero_digit: "val (alph ! 0) = Some 0"
proof -
  have "0 < length alph"
    using three by linarith
  then show "alph ! 0 \<noteq> 45" and "val (alph ! 0) = Some 0"
    using no_minus val_digit [of 0] nth_mem by metis+
qed

lemma text_of_nonempty: "text_of i \<noteq> []"
  by (auto simp: text_of_def digits_nonempty)

lemma text_of_chars: "set (text_of i) \<subseteq> insert 45 (set alph)"
proof -
  have "alph ! 0 \<in> set alph"
    using three by (intro nth_mem) linarith
  then show ?thesis
    using digits_in_alphabet by (auto simp: text_of_def)
qed

lemma signed_text_of:
  "\<bar>i\<bar> < 2 ^ 53 \<Longrightarrow> signed_value (\<lambda>str. value_loop val (length alph) str 0) (text_of i) = Some i"
  using to_double_small [of 0] digits_nonempty [of "nat i"] digits_no_minus [of "nat i"]
  by (auto simp: text_of_def signed_value_def value_digits first_digit zero_digit)

lemma signed_digits_value:
  "i \<noteq> 0 \<Longrightarrow> \<bar>i\<bar> < 2 ^ 53 \<Longrightarrow> signed_value (\<lambda>str. value_loop val (length alph) str 0)
     ((if i < 0 then [45] else []) @ digit_loop alph (nat \<bar>i\<bar>) []) = Some i"
  using signed_text_of [of i] by (simp add: text_of_def split: if_splits)

end

lemma map_of_char_index: "distinct alph \<Longrightarrow> i < length alph \<Longrightarrow> map_of (char_index alph) (alph ! i) = Some i"
  unfolding char_index_def by (simp add: map_of_zip_nth)

lemma map_of_char_index_None: "c \<notin> set alph \<Longrightarrow> map_of (char_index alph) c = None"
  unfolding char_index_def by (simp add: map_of_zip_is_None)

lemma alphabet_eq:
  "alphabet = map of_nat ([48..<58] @ [97..<123] @ [65..<91])"
  "keyAlphabet = map of_nat ([48..<58] @ [97..<123])"
  by (simp_all add: alphabet_def keyAlphabet_def ju_def upt_rec)

lemma distinct_alphabets: "distinct alphabet" "distinct keyAlphabet"
  unfolding alphabet_eq by (auto simp: distinct_map inj_on_def word_of_nat_eq_iff take_bit_nat_eq_self)

interpretation b62: digit_alphabet alphabet charToValue
proof unfold_locales
  show "3 \<le> length alphabet"
    by (simp add: alphabet_def)
  show "45 \<notin> set alphabet"
    by (simp add: alphabet_def ju_def)
qed (simp_all add: charToValue_def map_of_char_index map_of_char_index_None distinct_alphabets)

interpretation b36: digit_alphabet keyAlphabet keyCharToValue
proof unfold_locales
  show "3 \<le> length keyAlphabet"
    by (simp add: keyAlphabet_def)
  show "45 \<notin> set keyAlphabet"
    by (simp add: keyAlphabet_def ju_def)
qed (simp_all add: keyCharToValue_def map_of_char_index map_of_char_index_None distinct_alphabets)

lemma length_alphabet: "length alphabet = 62"
  by (simp add: alphabet_def)

lemma encode_text: "encode (Some i) = b62.text_of i" "encodeKey (Some i) = b36.text_of i"
  by (simp_all add: encode_def encodeKey_def b62.text_of_def b36.text_of_def)

section \<open>Properties\<close>

text \<open>
  C38 (base62). Every integer below \<open>2^53\<close> in absolute value survives \<open>decode\<close> after \<open>encode\<close>, in base
  62 and in the base 36 of the metadata keys, negative numbers and zero included, with the rounding of
  doubles at every step; and a metadata key is made of characters that lower-casing leaves alone.
\<close>

theorem base62_roundtrip:
  assumes "\<bar>i\<bar> < 2 ^ 53"
  shows "decode (encode (Some i)) = Some i \<and> decodeKey (encodeKey (Some i)) = Some i \<and>
    set (encodeKey (Some i)) \<subseteq> insert 45 (set keyAlphabet)"
  using assms b36.text_of_chars
  by (simp add: decode_def decodeKey_def encode_text b62.text_of_nonempty b36.text_of_nonempty
      b62.signed_text_of b36.signed_text_of)

theorem base62_roundtrip_witness:
  "decode (encode (Some (- 9007199254740991))) = Some (- 9007199254740991) \<and>
   decodeKey (encodeKey (Some 9007199254740991)) = Some 9007199254740991"
  using base62_roundtrip [of "- 9007199254740991"] base62_roundtrip [of 9007199254740991] by simp

text \<open>Above \<open>2^53\<close> the rounding of the quotients loses integers that are doubles.\<close>

lemma large_digits:
  "digit_loop alphabet 33684436524613988 [] = map ((!) alphabet) [2, 30, 17, 3, 24, 28, 61, 16, 45, 38]"
  by (simp add: b62.digit_loop_step b62.digit_loop_0 floor_quotient_def log2.simps half_even_def length_alphabet)

theorem base62_loses_large_integers:
  "to_double 33684436524613988 = Some 33684436524613988 \<and>
   decode (encode (Some 33684436524613988)) \<noteq> Some 33684436524613988"
proof -
  have "alphabet ! 2 \<noteq> 45"
    by (simp add: alphabet_def ju_def)
  moreover have "charToValue (alphabet ! i) = Some i" if "i < 62" for i
    using that b62.val_digit by (simp add: length_alphabet)
  ultimately show ?thesis
    by (simp add: encode_def decode_def large_digits signed_value_def length_alphabet to_double_def log2.simps half_even_def
        Let_def)
qed

section \<open>Batches\<close>

lemma signed_digits_chars: "44 \<notin> set (signed_digits i)"
proof -
  have "44 \<notin> set alphabet"
    by (simp add: alphabet_def ju_def)
  then show ?thesis
    using b62.digits_in_alphabet by (auto simp: signed_digits_def)
qed

lemma signed_digits_nonempty: "i \<noteq> 0 \<Longrightarrow> signed_digits i \<noteq> []"
  using b62.digits_nonempty [of "nat \<bar>i\<bar>"] by (simp add: signed_digits_def)

lemma signed_digits_not_zero: "i \<noteq> 0 \<Longrightarrow> \<bar>i\<bar> < 2 ^ 53 \<Longrightarrow> signed_digits i \<noteq> ju ''0''"
proof
  assume i: "i \<noteq> 0" "\<bar>i\<bar> < 2 ^ 53" and eq: "signed_digits i = ju ''0''"
  have "b62.text_of 0 = ju ''0''"
    unfolding b62.text_of_def by (simp add: alphabet_def ju_def)
  with b62.signed_text_of [of 0] b62.signed_digits_value [OF i] eq i(1) show False
    by (simp add: signed_digits_def)
qed

definition batch_part :: "int option \<Rightarrow> ustring" where
  "batch_part v = (case v of None \<Rightarrow> [] | Some scaled \<Rightarrow> if scaled = 0 then ju ''0'' else signed_digits scaled)"

lemma batch_part_value:
  assumes "\<And>i. v = Some i \<Longrightarrow> \<bar>i\<bar> < 2 ^ 53"
  shows "(if batch_part v = ju ''0'' then Some 0
    else if batch_part v = [] then None
    else signed_value (\<lambda>t. value_loop charToValue (length alphabet) t 0) (batch_part v)) = v"
  using assms b62.signed_digits_value [folded signed_digits_def]
  by (cases v) (auto simp: batch_part_def signed_digits_not_zero signed_digits_nonempty)

lemma batch_part_chars: "hd (ju '','') \<notin> set (batch_part v)"
  using signed_digits_chars by (cases v) (auto simp: batch_part_def ju_def)

lemma batch_inner_empty:
  "vs \<noteq> [] \<Longrightarrow> join (ju '','') (map batch_part vs) = [] \<longleftrightarrow> vs = [None]"
proof (cases vs)
  case (Cons v ws)
  then show ?thesis
    by (cases ws; cases v) (auto simp: batch_part_def signed_digits_nonempty ju_def [of "'',''"])
qed simp

text \<open>
  Embeddings. A batch of fixed-point numbers whose scaled integers are below \<open>2^53\<close> reads back
  element by element, \<open>NaN\<close> entries included; the one exception is the batch made of a single \<open>NaN\<close>, which reads back as an empty
  batch, because both are written \<open>^[]\<close>.
\<close>

theorem fixed_point_batch_roundtrip:
  assumes "\<And>i. Some i \<in> set vs \<Longrightarrow> \<bar>i\<bar> < 2 ^ 53"
  shows "decodeFixedPointBatch (encodeFixedPointBatch vs) = (if vs = [None] then [] else vs)"
proof (cases "vs = []")
  case False
  have split: "split_on (hd (ju '','')) (join (ju '','') (map batch_part vs)) = map batch_part vs"
    using False batch_part_chars split_on_join [of "map batch_part vs" "hd (ju '','')"]
    by (simp add: ju_def)
  have "encodeFixedPointBatch vs = ju ''^['' @ join (ju '','') (map batch_part vs) @ ju '']''"
    using False by (simp add: encodeFixedPointBatch_def batch_part_def [abs_def])
  then have "decodeFixedPointBatch (encodeFixedPointBatch vs) =
      (if join (ju '','') (map batch_part vs) = [] then [] else
       map (\<lambda>v. if batch_part v = ju ''0'' then Some 0 else if batch_part v = [] then None
         else signed_value (\<lambda>t. value_loop charToValue (length alphabet) t 0) (batch_part v)) vs)"
    unfolding decodeFixedPointBatch_def
    by (simp add: ju_def butlast_append Let_def split [unfolded ju_def, simplified] o_def)
  also have "\<dots> = (if join (ju '','') (map batch_part vs) = [] then [] else map (\<lambda>v. v) vs)"
    using assms by (intro if_cong refl map_cong batch_part_value) auto
  finally have "decodeFixedPointBatch (encodeFixedPointBatch vs) =
      (if join (ju '','') (map batch_part vs) = [] then [] else vs)"
    by simp
  then show ?thesis
    using batch_inner_empty [OF False] by simp
qed (simp add: encodeFixedPointBatch_def decodeFixedPointBatch_def ju_def)

end
