(* ===== verification/Dictionary.thy ===== *)
theory Dictionary
  imports JsPrelude
begin

text \<open>
  \<open>src/concerns/dictionary-encoding.ts\<close>: one-letter codes for content types and status
  messages, two-letter codes for URL prefixes. The dictionaries are object literals, so a
  lookup may find a member of \<open>Object.prototype\<close> (\<open>js_lookup\<close>); \<open>lookup_text\<close> is what the
  string concatenation makes of it and \<open>lookup_length\<close> its \<open>.length\<close>, \<open>None\<close> where that is
  \<open>undefined\<close> and the sums become \<open>NaN\<close>. Percentages and averages are kept as the two
  numbers they are the quotient of.
\<close>

definition ju_table :: "(string \<times> string) list \<Rightarrow> ustring jsobj" where
  "ju_table t = map (\<lambda>(k, v). (ju k, ju v)) t"

section \<open>The dictionaries\<close>

definition content_types :: "(string \<times> string) list" where
  "content_types = [
     (''application/json'', ''j''), (''application/xml'', ''X''), (''application/ld+json'', ''J''),
     (''text/html'', ''H''), (''text/plain'', ''T''), (''text/css'', ''C''),
     (''text/javascript'', ''V''), (''text/csv'', ''v''), (''image/png'', ''P''),
     (''image/jpeg'', ''I''), (''image/gif'', ''G''), (''image/svg+xml'', ''S''),
     (''image/webp'', ''W''), (''application/pdf'', ''Q''), (''application/zip'', ''z''),
     (''application/octet-stream'', ''o''), (''application/x-www-form-urlencoded'', ''u''),
     (''multipart/form-data'', ''F''), (''font/woff'', ''w''), (''font/woff2'', ''f'')]"

definition url_prefixes :: "(string \<times> string) list" where
  "url_prefixes = [
     (''/api/v1/'', ''@1''), (''/api/v2/'', ''@2''), (''/api/v3/'', ''@3''), (''/api/'', ''@a''),
     (''https://api.example.com/'', ''@A''), (''https://api.'', ''@H''), (''https://www.'', ''@W''),
     (''https://'', ''@h''), (''http://'', ''@t''), (''https://s3.amazonaws.com/'', ''@s''),
     (''https://s3-'', ''@S''), (''http://localhost:'', ''@L''), (''http://localhost'', ''@l''),
     (''/v1/'', ''@v''), (''/users/'', ''@u''), (''/products/'', ''@p'')]"

definition status_messages :: "(string \<times> string) list" where
  "status_messages = [
     (''processing'', ''p''), (''completed'', ''c''), (''succeeded'', ''s''), (''failed'', ''f''),
     (''cancelled'', ''x''), (''timeout'', ''t''), (''retrying'', ''r''), (''authorized'', ''a''),
     (''captured'', ''K''), (''refunded'', ''R''), (''declined'', ''d''), (''shipped'', ''h''),
     (''delivered'', ''D''), (''returned'', ''e''), (''in_transit'', ''i''),
     (''initialized'', ''n''), (''terminated'', ''m'')]"

definition CONTENT_TYPE_DICT :: "ustring jsobj" where
  "CONTENT_TYPE_DICT = ju_table content_types"

definition URL_PREFIX_DICT :: "ustring jsobj" where
  "URL_PREFIX_DICT = ju_table url_prefixes"

definition STATUS_MESSAGE_DICT :: "ustring jsobj" where
  "STATUS_MESSAGE_DICT = ju_table status_messages"

text \<open>\<open>Object.fromEntries(Object.entries(d).map(([k, v]) => [v, k]))\<close>\<close>

definition reverse_dict :: "ustring jsobj \<Rightarrow> ustring jsobj" where
  "reverse_dict d = obj_assign_all [] (map (\<lambda>(k, v). (v, k)) (obj_entries d))"

definition COMBINED_DICT :: "ustring jsobj" where
  "COMBINED_DICT = obj_spread CONTENT_TYPE_DICT STATUS_MESSAGE_DICT"

definition COMBINED_REVERSE :: "ustring jsobj" where
  "COMBINED_REVERSE = obj_spread (reverse_dict CONTENT_TYPE_DICT) (reverse_dict STATUS_MESSAGE_DICT)"

section \<open>Encoding and decoding\<close>

definition function_text :: "ustring \<Rightarrow> ustring" where
  "function_text k = ju ''function '' @ (if k = ju ''constructor'' then ju ''Object'' else k) @
     ju ''() { [native code] }''"

fun lookup_text :: "ustring lookup \<Rightarrow> ustring" where
  "lookup_text (Own v) = v"
| "lookup_text (ProtoFunction k n) = function_text k"
| "lookup_text ProtoObject = ju ''[object Object]''"
| "lookup_text Missing = ju ''undefined''"

fun lookup_length :: "ustring lookup \<Rightarrow> nat option" where
  "lookup_length (Own v) = Some (length v)"
| "lookup_length (ProtoFunction k n) = Some n"
| "lookup_length _ = None"

fun lookup_truthy :: "ustring lookup \<Rightarrow> bool" where
  "lookup_truthy (Own v) = (v \<noteq> [])"
| "lookup_truthy Missing = False"
| "lookup_truthy _ = True"

datatype dictionary_type = DictExact | DictPrefix ustring ustring

record dictionary_result =
  dr_encoded :: ustring
  dr_originalLength :: nat
  dr_encodedLength :: "nat option"
  dr_type :: dictionary_type
  dr_savings :: "int option"

definition sorted_prefixes :: "ustring jsobj" where
  "sorted_prefixes = sort_key (\<lambda>(p, c). - int (length p)) (obj_entries URL_PREFIX_DICT)"

fun encode_prefix :: "ustring \<Rightarrow> ustring jsobj \<Rightarrow> dictionary_result option" where
  "encode_prefix value [] = None"
| "encode_prefix value ((prefix, code) # rest) =
     (if starts_with value prefix then
        let remainder = drop (length prefix) value; encoded = ju ''d:'' @ code @ remainder in
        Some \<lparr>dr_encoded = encoded, dr_originalLength = length value,
          dr_encodedLength = Some (length encoded), dr_type = DictPrefix prefix remainder,
          dr_savings = Some (int (length value) - int (length encoded))\<rparr>
      else encode_prefix value rest)"

definition dictionaryEncode :: "ustring \<Rightarrow> dictionary_result option" where
  "dictionaryEncode value =
     (if value = [] then None
      else let found = js_lookup COMBINED_DICT value in
        if lookup_truthy found then
          Some \<lparr>dr_encoded = ju ''d:'' @ lookup_text found, dr_originalLength = length value,
            dr_encodedLength = map_option (\<lambda>n. 2 + n) (lookup_length found), dr_type = DictExact,
            dr_savings = map_option (\<lambda>n. int (length value) - (2 + int n)) (lookup_length found)\<rparr>
        else encode_prefix value sorted_prefixes)"

text \<open>The keys looked up when decoding have one or two units: no member of the prototype has.\<close>

definition dictionaryDecode :: "ustring \<Rightarrow> ustring option" where
  "dictionaryDecode encoded =
     (if \<not> starts_with encoded (ju ''d:'') then None
      else let payload = drop 2 encoded in
        if payload = [] then None
        else if length payload = 1 \<and> (case map_of COMBINED_REVERSE payload of Some d \<Rightarrow> d \<noteq> [] | None \<Rightarrow> False)
          then map_of COMBINED_REVERSE payload
        else if starts_with payload (ju ''@'') then
          (case map_of (reverse_dict URL_PREFIX_DICT) (take 2 payload) of
            Some prefix \<Rightarrow> if prefix \<noteq> [] then Some (prefix @ drop 2 payload) else None
          | None \<Rightarrow> None)
        else None)"

record compression_stats =
  cs_compressible :: bool
  cs_original :: nat
  cs_encoded :: "nat option"
  cs_savings :: "int option"

definition calculateDictionaryCompression :: "ustring \<Rightarrow> compression_stats" where
  "calculateDictionaryCompression value = (case dictionaryEncode value of
     None \<Rightarrow> \<lparr>cs_compressible = False, cs_original = length value, cs_encoded = Some (length value),
       cs_savings = Some 0\<rparr>
   | Some r \<Rightarrow> \<lparr>cs_compressible = True, cs_original = dr_originalLength r,
       cs_encoded = dr_encodedLength r, cs_savings = dr_savings r\<rparr>)"

record dictionary_stats =
  ds_contentTypes :: nat
  ds_urlPrefixes :: nat
  ds_statusMessages :: nat
  ds_total :: nat
  ds_savingsContentType :: int
  ds_savingsStatus :: int

definition dict_savings :: "ustring jsobj \<Rightarrow> int" where
  "dict_savings d = foldl (\<lambda>acc (k, v). acc + (int (length k) - (2 + int (length v)))) 0 (obj_entries d)"

definition getDictionaryStats :: dictionary_stats where
  "getDictionaryStats =
     \<lparr>ds_contentTypes = length (obj_keys CONTENT_TYPE_DICT), ds_urlPrefixes = length (obj_keys URL_PREFIX_DICT),
      ds_statusMessages = length (obj_keys STATUS_MESSAGE_DICT),
      ds_total = length (obj_keys COMBINED_DICT) + length (obj_keys URL_PREFIX_DICT),
      ds_savingsContentType = dict_savings CONTENT_TYPE_DICT, ds_savingsStatus = dict_savings STATUS_MESSAGE_DICT\<rparr>"

section \<open>Facts about the tables\<close>

lemma map_of_ju_table: "map_of (ju_table t) (ju k) = map_option ju (map_of t k)"
  by (induction t) (auto simp: ju_table_def ju_inject)

lemma ju_table_keys: "map fst (ju_table t) = map ju (map fst t)"
  by (simp add: ju_table_def case_prod_beta o_def)

lemma distinct_ju_table: "distinct (map fst (ju_table t)) \<longleftrightarrow> distinct (map fst t)"
  unfolding ju_table_keys by (simp add: distinct_map inj_on_def ju_inject)

lemma in_ju_table: "(k, v) \<in> set (ju_table t) \<longleftrightarrow> (\<exists>a b. (a, b) \<in> set t \<and> k = ju a \<and> v = ju b)"
  by (auto simp: ju_table_def)

definition plain_keys :: "(string \<times> string) list \<Rightarrow> bool" where
  "plain_keys t \<longleftrightarrow> list_all (\<lambda>p. fst p \<noteq> [] \<and> \<not> is_digit (of_char (hd (fst p)))) t"

lemma obj_entries_ju_table: "plain_keys t \<Longrightarrow> obj_entries (ju_table t) = ju_table t"
proof (intro obj_entries_plain ballI notI)
  fix p
  assume "plain_keys t" and "p \<in> set (ju_table t)" and index: "is_index_key (fst p)"
  then obtain a where "fst p = ju a" and "a \<noteq> []" and "\<not> is_digit (of_char (hd a))"
    by (cases p) (auto simp: in_ju_table plain_keys_def list_all_iff)
  with index show False
    by (cases a) (auto simp: ju_def dest: index_key_first)
qed

lemma tables_plain: "plain_keys content_types" "plain_keys url_prefixes" "plain_keys status_messages"
  by (simp_all add: plain_keys_def content_types_def url_prefixes_def status_messages_def is_digit_def)

lemma tables_distinct: "distinct (map fst content_types)" "distinct (map fst url_prefixes)"
  "distinct (map fst status_messages)"
  by (simp_all add: content_types_def url_prefixes_def status_messages_def)

definition swap_table :: "(string \<times> string) list \<Rightarrow> (string \<times> string) list" where
  "swap_table t = map (\<lambda>(k, v). (v, k)) t"

lemma swapped_distinct: "distinct (map fst (swap_table content_types))"
  "distinct (map fst (swap_table url_prefixes))" "distinct (map fst (swap_table status_messages))"
  by (simp_all add: swap_table_def content_types_def url_prefixes_def status_messages_def)

lemma map_of_reverse_dict:
  assumes "plain_keys t" and "distinct (map fst (swap_table t))"
  shows "map_of (reverse_dict (ju_table t)) (ju c) = map_option ju (map_of (swap_table t) c)"
    and "distinct (map fst (reverse_dict (ju_table t)))"
proof -
  have eq: "reverse_dict (ju_table t) = obj_assign_all [] (ju_table (swap_table t))"
    using assms(1) by (simp add: reverse_dict_def obj_entries_ju_table)
      (simp add: ju_table_def swap_table_def case_prod_beta o_def)
  show "distinct (map fst (reverse_dict (ju_table t)))"
    unfolding eq by (intro distinct_obj_assign_all) simp
  show "map_of (reverse_dict (ju_table t)) (ju c) = map_option ju (map_of (swap_table t) c)"
    unfolding eq using assms(2)
    by (simp add: map_of_obj_assign_all distinct_ju_table map_of_ju_table split: option.split)
qed

lemma map_of_COMBINED_DICT:
  "map_of COMBINED_DICT (ju s) = map_option ju
     (case map_of status_messages s of Some c \<Rightarrow> Some c | None \<Rightarrow> map_of content_types s)"
  unfolding COMBINED_DICT_def CONTENT_TYPE_DICT_def STATUS_MESSAGE_DICT_def
  by (simp add: map_of_obj_spread distinct_ju_table tables_distinct map_of_ju_table split: option.split)

lemma map_of_COMBINED_REVERSE:
  "map_of COMBINED_REVERSE (ju c) = map_option ju
     (case map_of (swap_table status_messages) c of Some s \<Rightarrow> Some s
      | None \<Rightarrow> map_of (swap_table content_types) c)"
  unfolding COMBINED_REVERSE_def CONTENT_TYPE_DICT_def STATUS_MESSAGE_DICT_def
  by (simp add: map_of_obj_spread map_of_reverse_dict tables_plain swapped_distinct split: option.split)

lemma COMBINED_DICT_key: "map_of COMBINED_DICT s = Some c \<Longrightarrow> \<exists>k. s = ju k"
proof -
  assume "map_of COMBINED_DICT s = Some c"
  then have "s \<in> fst ` set COMBINED_DICT"
    by (metis map_of_eq_None_iff option.distinct(1))
  then have "map_of CONTENT_TYPE_DICT s \<noteq> None \<or> map_of STATUS_MESSAGE_DICT s \<noteq> None"
    using \<open>map_of COMBINED_DICT s = Some c\<close>
    unfolding COMBINED_DICT_def CONTENT_TYPE_DICT_def STATUS_MESSAGE_DICT_def
    by (auto simp: map_of_obj_spread distinct_ju_table tables_distinct split: option.splits)
  then show ?thesis
    by (auto simp: CONTENT_TYPE_DICT_def STATUS_MESSAGE_DICT_def in_ju_table dest!: map_of_SomeD)
qed

text \<open>Every code leads back to its key, but for the \<open>f\<close> that two dictionaries share.\<close>

definition code_ok :: "string \<times> string \<Rightarrow> bool" where
  "code_ok p \<longleftrightarrow> fst p = ''font/woff2'' \<or> (length (snd p) = 1 \<and>
     (case map_of (swap_table status_messages) (snd p) of Some s \<Rightarrow> Some s
      | None \<Rightarrow> map_of (swap_table content_types) (snd p)) = Some (fst p))"

lemma codes_ok: "list_all code_ok status_messages" "list_all code_ok content_types"
  by (simp_all add: code_ok_def status_messages_def content_types_def swap_table_def)

lemma combined_code:
  assumes "map_of COMBINED_DICT s = Some c" and "s \<noteq> ju ''font/woff2''"
  shows "length c = 1 \<and> map_of COMBINED_REVERSE c = Some s"
proof -
  obtain k where s: "s = ju k"
    using COMBINED_DICT_key [OF assms(1)] by blast
  with assms(1) obtain d where c: "c = ju d" and "(k, d) \<in> set status_messages \<union> set content_types"
    by (auto simp: map_of_COMBINED_DICT split: option.splits dest!: map_of_SomeD)
  then have "code_ok (k, d)"
    using codes_ok by (auto simp: list_all_iff)
  with assms(2) show ?thesis
    by (simp add: s c ju_inject code_ok_def map_of_COMBINED_REVERSE split: option.splits)
qed

definition prefix_ok :: "string \<times> string \<Rightarrow> bool" where
  "prefix_ok p \<longleftrightarrow> fst p \<noteq> [] \<and> length (snd p) = 2 \<and> take 1 (snd p) = ''@'' \<and>
     map_of (swap_table url_prefixes) (snd p) = Some (fst p)"

lemma prefixes_ok: "list_all prefix_ok url_prefixes"
  by (simp add: prefix_ok_def url_prefixes_def swap_table_def)

lemma encode_prefix_decode:
  assumes "encode_prefix s ps = Some r" and "set ps \<subseteq> set URL_PREFIX_DICT"
  shows "dictionaryDecode (dr_encoded r) = Some s"
  using assms
proof (induction s ps rule: encode_prefix.induct)
  case (2 s prefix code rest)
  show ?case
  proof (cases "starts_with s prefix")
    case True
    obtain k d where k: "prefix = ju k" "code = ju d" and "prefix_ok (k, d)"
      using 2(3) prefixes_ok by (auto simp: URL_PREFIX_DICT_def in_ju_table list_all_iff)
    then obtain e where d: "d = CHR ''@'' # [e]" and ne: "k \<noteq> []"
      and rev: "map_of (swap_table url_prefixes) d = Some k"
      by (auto simp: prefix_ok_def length_Suc_conv numeral_2_eq_2)
    have "map_of (reverse_dict URL_PREFIX_DICT) code = Some prefix"
      unfolding URL_PREFIX_DICT_def k
      by (simp add: map_of_reverse_dict tables_plain swapped_distinct rev)
    moreover have "dr_encoded r = ju ''d:'' @ code @ drop (length prefix) s"
      using 2(2) True by (auto simp: Let_def)
    moreover have "code = [64, of_char e]"
      by (simp add: k d ju_def)
    ultimately show ?thesis
      using ne starts_with_drop [OF True] by (simp add: dictionaryDecode_def k ju_def)
  qed (use 2 in simp)
qed simp

lemma set_sorted_prefixes: "set sorted_prefixes = set URL_PREFIX_DICT"
  by (simp add: sorted_prefixes_def)

text \<open>
  What \<open>dictionaryEncode\<close> compresses, \<open>dictionaryDecode\<close> expands, but for the members of
  \<open>Object.prototype\<close> and the content type \<open>font/woff2\<close>, whose code is taken by a status message.
\<close>

lemma dictionary_roundtrip:
  assumes "dictionaryEncode s = Some r" and "\<not> prototype_member s" and "s \<noteq> ju ''font/woff2''"
  shows "dictionaryDecode (dr_encoded r) = Some s"
proof -
  have "s \<noteq> []"
    using assms(1) by (auto simp: dictionaryEncode_def)
  show ?thesis
  proof (cases "lookup_truthy (js_lookup COMBINED_DICT s)")
    case True
    then obtain c where c: "map_of COMBINED_DICT s = Some c"
      by (auto simp: js_lookup_plain [OF assms(2)] split: option.splits)
    from combined_code [OF this assms(3)] have "length c = 1" and "map_of COMBINED_REVERSE c = Some s"
      by simp_all
    with True assms(1) \<open>s \<noteq> []\<close> c show ?thesis
      by (auto simp: dictionaryEncode_def js_lookup_plain [OF assms(2)] dictionaryDecode_def ju_def Let_def)
  next
    case False
    with assms(1) \<open>s \<noteq> []\<close> have "encode_prefix s sorted_prefixes = Some r"
      by (simp add: dictionaryEncode_def Let_def)
    then show ?thesis
      by (rule encode_prefix_decode) (simp add: set_sorted_prefixes)
  qed
qed

lemma dictionary_encoded_prefix:
  "dictionaryEncode s = Some r \<Longrightarrow> starts_with (dr_encoded r) (ju ''d:'')"
proof -
  have "starts_with (dr_encoded r) (ju ''d:'')" if "encode_prefix s ps = Some r" for ps
    using that by (induction s ps rule: encode_prefix.induct) (auto simp: Let_def split: if_splits)
  then show "dictionaryEncode s = Some r \<Longrightarrow> starts_with (dr_encoded r) (ju ''d:'')"
    by (auto simp: dictionaryEncode_def Let_def split: if_splits)
qed

end
