(* ===== verification/MetadataEncoding.thy ===== *)
theory MetadataEncoding
  imports JsJson Dictionary
begin

text \<open>
  \<open>src/concerns/metadata-encoding.ts\<close>: how a value becomes an S3 metadata value and back.
  \<open>analyzeString\<close> chooses an encoding by counting units (with a cache of 500 results, passed as
  a state); \<open>metadataEncode\<close> picks the dictionary, the table of common values, plain text, URI
  or base64 encoding, and \<open>metadataDecode\<close> reads the prefix back. Ratios are compared as
  fractions: \<open>m / n > 0.3\<close> is \<open>10 * m > 3 * n\<close>. \<open>encodeURIComponent\<close> throws on a lone
  surrogate, which is the outcome \<open>ThrowsURIError\<close>.
\<close>

datatype encoding_type = EncNone | EncSpecial | EncAscii | EncUrl | EncBase64 | EncDictionary

record analysis_stats =
  as_ascii :: nat
  as_latin1 :: nat
  as_multibyte :: nat

record analysis_result =
  an_type :: encoding_type
  an_safe :: bool
  an_reason :: "string option"
  an_stats :: "analysis_stats option"

type_synonym analysis_cache = "(ustring \<times> analysis_result) list"

definition MAX_CACHE_SIZE :: nat where
  "MAX_CACHE_SIZE = 500"

definition isAsciiOnly :: "ustring \<Rightarrow> bool" where
  "isAsciiOnly s \<longleftrightarrow> list_all (\<lambda>u. 0x20 \<le> unat u \<and> unat u \<le> 0x7E) s"

definition cacheAnalysisResult :: "analysis_cache \<Rightarrow> ustring \<Rightarrow> analysis_result \<Rightarrow> analysis_cache" where
  "cacheAnalysisResult cache s result =
     AList.update s result
       (if length cache \<ge> MAX_CACHE_SIZE then
          (case cache of [] \<Rightarrow> cache | (firstKey, r) # rest \<Rightarrow> AList.delete firstKey cache)
        else cache)"

fun count_units :: "ustring \<Rightarrow> analysis_stats \<Rightarrow> analysis_stats" where
  "count_units [] st = st"
| "count_units (u # r) st =
     (let code = unat u in
      count_units r
        (if 0x20 \<le> code \<and> code \<le> 0x7E then st\<lparr>as_ascii := Suc (as_ascii st)\<rparr>
         else if code < 0x20 \<or> code = 0x7F then st\<lparr>as_multibyte := Suc (as_multibyte st)\<rparr>
         else if 0x80 \<le> code \<and> code \<le> 0xFF then st\<lparr>as_latin1 := Suc (as_latin1 st)\<rparr>
         else st\<lparr>as_multibyte := Suc (as_multibyte st)\<rparr>))"

definition analyze_units :: "ustring \<Rightarrow> analysis_result" where
  "analyze_units s =
     (if isAsciiOnly s then
        \<lparr>an_type = EncAscii, an_safe = True, an_reason = None,
         an_stats = Some \<lparr>as_ascii = length s, as_latin1 = 0, as_multibyte = 0\<rparr>\<rparr>
      else
        let st = count_units s \<lparr>as_ascii = 0, as_latin1 = 0, as_multibyte = 0\<rparr>;
            hasMultibyte = as_multibyte st > 0; hasLatin1 = as_latin1 st > 0
        in
        if \<not> hasLatin1 \<and> \<not> hasMultibyte then
          \<lparr>an_type = EncAscii, an_safe = True, an_reason = None,
           an_stats = Some \<lparr>as_ascii = as_ascii st, as_latin1 = 0, as_multibyte = 0\<rparr>\<rparr>
        else if hasMultibyte then
          (if 10 * as_multibyte st > 3 * length s then
             \<lparr>an_type = EncBase64, an_safe = False, an_reason = Some ''high multibyte content'', an_stats = Some st\<rparr>
           else
             \<lparr>an_type = EncUrl, an_safe = False, an_reason = Some ''contains multibyte characters'', an_stats = Some st\<rparr>)
        else
          (if 2 * as_latin1 st > length s then
             \<lparr>an_type = EncBase64, an_safe = False, an_reason = Some ''high Latin-1 content'',
              an_stats = Some (st\<lparr>as_multibyte := 0\<rparr>)\<rparr>
           else
             \<lparr>an_type = EncUrl, an_safe = False, an_reason = Some ''contains Latin-1 extended characters'',
              an_stats = Some (st\<lparr>as_multibyte := 0\<rparr>)\<rparr>))"

definition analyzeString :: "analysis_cache \<Rightarrow> ustring \<Rightarrow> analysis_result \<times> analysis_cache" where
  "analyzeString cache s =
     (if s = [] then (\<lparr>an_type = EncNone, an_safe = True, an_reason = None, an_stats = None\<rparr>, cache)
      else (case map_of cache s of
        Some r \<Rightarrow> (r, cache)
      | None \<Rightarrow> (let r = analyze_units s in (r, cacheAnalysisResult cache s r))))"

section \<open>The table of common values\<close>

definition common_names :: "string list" where
  "common_names = [
     ''active'', ''inactive'', ''pending'', ''completed'', ''failed'', ''success'', ''error'',
     ''processing'', ''queued'', ''cancelled'', ''GET'', ''POST'', ''PUT'', ''DELETE'',
     ''PATCH'', ''HEAD'', ''OPTIONS'', ''200'', ''201'', ''204'', ''301'', ''302'', ''304'',
     ''400'', ''401'', ''403'', ''404'', ''405'', ''409'', ''422'', ''429'', ''500'', ''502'',
     ''503'', ''504'', ''OK'', ''Created'', ''paid'', ''unpaid'', ''refunded'',
     ''pending_payment'', ''authorized'', ''captured'', ''declined'', ''voided'', ''chargeback'',
     ''disputed'', ''settled'', ''reversed'', ''shipped'', ''delivered'', ''returned'',
     ''in_transit'', ''out_for_delivery'', ''ready_to_ship'', ''backordered'', ''pre_order'',
     ''on_hold'', ''awaiting_pickup'', ''admin'', ''moderator'', ''owner'', ''editor'',
     ''viewer'', ''contributor'', ''guest'', ''member'', ''trace'', ''debug'', ''info'',
     ''warn'', ''fatal'', ''emergency'', ''dev'', ''development'', ''staging'', ''production'',
     ''test'', ''qa'', ''uat'', ''create'', ''read'', ''update'', ''delete'', ''list'',
     ''search'', ''count'', ''enabled'', ''disabled'', ''archived'', ''draft'', ''published'',
     ''scheduled'', ''expired'', ''locked'', ''low'', ''medium'', ''high'', ''urgent'',
     ''critical'', ''true'', ''false'', ''yes'', ''no'', ''on'', ''off'', ''1'', ''0'']"

definition COMMON_VALUES :: "(ustring \<times> encoding_type) jsobj" where
  "COMMON_VALUES =
     map (\<lambda>k. (ju k, ju k, EncNone)) common_names @
     [(ju ''null'', ju ''null'', EncSpecial), (ju ''undefined'', ju ''undefined'', EncSpecial),
      (ju ''none'', ju ''none'', EncNone), (ju ''N/A'', ju ''N/A'', EncNone)]"

section \<open>Encoding and decoding a value\<close>

record encode_result =
  er_encoded :: ustring
  er_encoding :: encoding_type
  er_analysis :: "analysis_result option"
  er_dictionary :: "dictionary_result option"
  er_forced :: bool

datatype encode_outcome =
    Encoded encode_result
  | ReturnsPrototype
  | ThrowsURIError

definition plain_result :: "ustring \<Rightarrow> encoding_type \<Rightarrow> analysis_result option \<Rightarrow> encode_outcome" where
  "plain_result e t a = Encoded \<lparr>er_encoded = e, er_encoding = t, er_analysis = a,
     er_dictionary = None, er_forced = False\<rparr>"

definition base64_text :: "ustring \<Rightarrow> ustring" where
  "base64_text s = ju ''b:'' @ b64_encode (utf8_encode s)"

definition encode_common :: "analysis_cache \<Rightarrow> ustring \<Rightarrow> encode_outcome \<times> analysis_cache" where
  "encode_common cache s = (case js_lookup COMMON_VALUES s of
     Own (e, t) \<Rightarrow> (plain_result e t None, cache)
   | Missing \<Rightarrow>
       let (a, cache') = analyzeString cache s in
       ((case an_type a of
           EncNone \<Rightarrow> plain_result s EncNone (Some a)
         | EncAscii \<Rightarrow> plain_result s EncNone (Some a)
         | EncUrl \<Rightarrow> (case uri_encode s of
               Some t \<Rightarrow> plain_result (ju ''u:'' @ t) EncUrl (Some a)
             | None \<Rightarrow> ThrowsURIError)
         | _ \<Rightarrow> plain_result (base64_text s) EncBase64 (Some a)), cache')
   | _ \<Rightarrow> (ReturnsPrototype, cache))"

definition encode_text :: "analysis_cache \<Rightarrow> ustring \<Rightarrow> encode_outcome \<times> analysis_cache" where
  "encode_text cache s =
     (if starts_with s (ju ''d:'') \<or> starts_with s (ju ''u:'') \<or> starts_with s (ju ''b:'') then
        (Encoded \<lparr>er_encoded = base64_text s, er_encoding = EncBase64, er_analysis = None,
           er_dictionary = None, er_forced = True\<rparr>, cache)
      else case dictionaryEncode s of
        Some r \<Rightarrow>
          if (case dr_savings r of Some n \<Rightarrow> n > 0 | None \<Rightarrow> False) then
            (Encoded \<lparr>er_encoded = dr_encoded r, er_encoding = EncDictionary, er_analysis = None,
               er_dictionary = Some r, er_forced = False\<rparr>, cache)
          else encode_common cache s
      | None \<Rightarrow> encode_common cache s)"

definition metadataEncode :: "analysis_cache \<Rightarrow> jsvalue \<Rightarrow> encode_outcome \<times> analysis_cache" where
  "metadataEncode cache v = (case v of
     VNull \<Rightarrow> (plain_result (ju ''null'') EncSpecial None, cache)
   | VUndef \<Rightarrow> (plain_result (ju ''undefined'') EncSpecial None, cache)
   | _ \<Rightarrow> encode_text cache (to_string v))"

definition decode_prefixed :: "ustring \<Rightarrow> jsvalue" where
  "decode_prefixed s = VStr
     (if length s \<ge> 2 \<and> s ! 1 = 58 then
        if s ! 0 = 117 then
          if length s = 2 then s
          else (case uri_decode (drop 2 s) of Some t \<Rightarrow> t | None \<Rightarrow> s)
        else if s ! 0 = 98 then
          if length s = 2 then s else utf8_decode (b64_decode (drop 2 s))
        else s
      else s)"

definition metadataDecode :: "jsvalue \<Rightarrow> jsvalue" where
  "metadataDecode v = (case v of
     VStr s \<Rightarrow>
       if s = ju ''null'' then VNull
       else if s = ju ''undefined'' then VUndef
       else if starts_with s (ju ''d:'') then
         (case dictionaryDecode s of Some t \<Rightarrow> VStr t | None \<Rightarrow> decode_prefixed s)
       else decode_prefixed s
   | _ \<Rightarrow> v)"

record encoded_size_info =
  es_original :: nat
  es_encoded :: nat
  es_overhead :: int
  es_encoding :: encoding_type

definition calculateEncodedSize ::
  "analysis_cache \<Rightarrow> ustring \<Rightarrow> encoded_size_info option \<times> analysis_cache" where
  "calculateEncodedSize cache s =
     (let (a, cache') = analyzeString cache s;
          originalSize = length (utf8_encode s);
          encodedSize = (case an_type a of
             EncNone \<Rightarrow> Some originalSize
           | EncAscii \<Rightarrow> Some originalSize
           | EncUrl \<Rightarrow> map_option (\<lambda>t. 2 + length t) (uri_encode s)
           | _ \<Rightarrow> Some (2 + length (b64_encode (utf8_encode s))))
      in (map_option (\<lambda>n. \<lparr>es_original = originalSize, es_encoded = n,
            es_overhead = int n - int originalSize, es_encoding = an_type a\<rparr>) encodedSize, cache'))"

section \<open>The analysis cache\<close>

definition fresh_analysis :: "ustring \<Rightarrow> analysis_result" where
  "fresh_analysis s = fst (analyzeString [] s)"

definition cache_inv :: "analysis_cache \<Rightarrow> bool" where
  "cache_inv cache \<longleftrightarrow> distinct (map fst cache) \<and> length cache \<le> MAX_CACHE_SIZE \<and>
     (\<forall>(s, r) \<in> set cache. s \<noteq> [] \<and> r = analyze_units s)"

lemma cache_inv_update:
  "cache_inv c \<Longrightarrow> length c < MAX_CACHE_SIZE \<Longrightarrow> s \<noteq> [] \<Longrightarrow> cache_inv (AList.update s (analyze_units s) c)"
  by (auto simp: cache_inv_def distinct_update update_set_eq length_update)

lemma cache_inv_step:
  assumes "cache_inv cache" and "s \<noteq> []"
  shows "cache_inv (cacheAnalysisResult cache s (analyze_units s))"
proof (cases "length cache < MAX_CACHE_SIZE")
  case True
  then show ?thesis
    using assms by (simp add: cacheAnalysisResult_def cache_inv_update)
next
  case False
  then obtain k r rest where cache: "cache = (k, r) # rest"
    by (cases cache) (auto simp: MAX_CACHE_SIZE_def)
  then have "cache_inv rest" and "length rest < MAX_CACHE_SIZE" and "AList.delete k cache = rest"
    using assms(1) delete_first [of k r rest] by (auto simp: cache_inv_def)
  with False assms(2) show ?thesis
    unfolding cacheAnalysisResult_def by (simp add: cache cache_inv_update)
qed

lemma analyzeString_cached:
  assumes "cache_inv cache"
  shows "fst (analyzeString cache s) = fresh_analysis s" and "cache_inv (snd (analyzeString cache s))"
proof -
  show "fst (analyzeString cache s) = fresh_analysis s"
    using assms by (auto simp: analyzeString_def fresh_analysis_def cache_inv_def Let_def
        split: option.split dest!: map_of_SomeD)
  show "cache_inv (snd (analyzeString cache s))"
    using assms cache_inv_step by (auto simp: analyzeString_def Let_def split: option.split)
qed

section \<open>Decoding what was encoded\<close>

lemma decode_base64_text:
  assumes "well_formed s" and "s \<noteq> []"
  shows "metadataDecode (VStr (base64_text s)) = VStr s"
proof -
  have "utf8_decode [] = []"
    by (simp add: utf8_decode_def)
  with assms have "utf8_encode s \<noteq> []"
    using utf8_roundtrip [OF assms(1)] by auto
  then have "length (b64_encode (utf8_encode s)) > 0"
    unfolding b64_encode_length by (cases "utf8_encode s") simp_all
  then show ?thesis
    using assms by (simp add: metadataDecode_def base64_text_def decode_prefixed_def ju_def
        b64_roundtrip utf8_roundtrip)
qed

lemma decode_uri_text:
  assumes "uri_encode s = Some t" and "s \<noteq> []"
  shows "metadataDecode (VStr (ju ''u:'' @ t)) = VStr s"
proof -
  have "t \<noteq> []"
    using uri_roundtrip [OF assms(1)] assms(2) by auto
  then show ?thesis
    using uri_roundtrip [OF assms(1)] by (simp add: metadataDecode_def decode_prefixed_def ju_def)
qed

lemma decode_plain:
  assumes "\<not> starts_with s (ju ''d:'')" and "\<not> starts_with s (ju ''u:'')" and "\<not> starts_with s (ju ''b:'')"
    and "s \<noteq> ju ''null''" and "s \<noteq> ju ''undefined''"
  shows "metadataDecode (VStr s) = VStr s"
  using assms by (cases s; cases "tl s") (auto simp: metadataDecode_def decode_prefixed_def ju_def)

lemma decode_dictionary:
  assumes "dictionaryEncode s = Some r" and "\<not> prototype_member s" and "s \<noteq> ju ''font/woff2''"
  shows "metadataDecode (VStr (dr_encoded r)) = VStr s"
  using dictionary_encoded_prefix [OF assms(1)] dictionary_roundtrip [OF assms]
  by (auto simp: metadataDecode_def starts_with_iff ju_def)

lemma common_values_key: "map_of COMMON_VALUES s = Some (e, t) \<Longrightarrow> e = s"
proof -
  have "\<forall>p \<in> set COMMON_VALUES. fst (snd p) = fst p"
    by (simp add: COMMON_VALUES_def)
  moreover assume "map_of COMMON_VALUES s = Some (e, t)"
  ultimately show ?thesis
    by (metis map_of_SomeD fst_conv snd_conv)
qed

lemma url_analysis: "an_type (fresh_analysis s) = EncUrl \<Longrightarrow> s \<noteq> []"
  by (auto simp: fresh_analysis_def analyzeString_def)

lemma encode_common_decode:
  assumes "cache_inv cache" and "well_formed s" and "\<not> prototype_member s"
    and "\<not> starts_with s (ju ''d:'')" and "\<not> starts_with s (ju ''u:'')" and "\<not> starts_with s (ju ''b:'')"
    and "s \<noteq> ju ''null''" and "s \<noteq> ju ''undefined''" and "s \<noteq> []"
  shows "\<exists>r. fst (encode_common cache s) = Encoded r \<and> metadataDecode (VStr (er_encoded r)) = VStr s"
proof (cases "map_of COMMON_VALUES s")
  case (Some p)
  then show ?thesis
    using assms common_values_key decode_plain
    by (cases p) (auto simp: encode_common_def js_lookup_plain plain_result_def)
next
  case None
  obtain a c where a: "analyzeString cache s = (a, c)"
    by (cases "analyzeString cache s")
  obtain t where "uri_encode s = Some t"
    using assms(2) uri_encode_defined_iff by blast
  with None a assms show ?thesis
    by (cases "an_type a")
      (auto simp: encode_common_def js_lookup_plain plain_result_def decode_plain decode_uri_text
        decode_base64_text)
qed

lemma encode_common_empty: "fst (encode_common cache []) =
    plain_result [] EncNone (Some \<lparr>an_type = EncNone, an_safe = True, an_reason = None, an_stats = None\<rparr>)"
proof -
  have "map_of COMMON_VALUES [] = None" and "\<not> prototype_member []"
    by (simp_all add: COMMON_VALUES_def map_of_eq_None_iff common_names_def prototype_member_def
        prototype_functions_def)
  then show ?thesis
    by (simp add: encode_common_def js_lookup_plain analyzeString_def)
qed

section \<open>What is written is printable ASCII\<close>

lemma ascii_append [simp]: "isAsciiOnly (s @ t) \<longleftrightarrow> isAsciiOnly s \<and> isAsciiOnly t"
  by (simp add: isAsciiOnly_def)

lemma ascii_Nil [simp]: "isAsciiOnly []"
  by (simp add: isAsciiOnly_def)

lemma ascii_Cons: "isAsciiOnly (u # s) \<longleftrightarrow> 0x20 \<le> unat u \<and> unat u \<le> 0x7E \<and> isAsciiOnly s"
  by (simp add: isAsciiOnly_def)

lemma ascii_b64_char: "0x20 \<le> unat (b64_char n) \<and> unat (b64_char n) \<le> 0x7E"
  by (simp add: b64_char_def b64_code_less) (auto simp: b64_code_def)

lemma ascii_b64: "isAsciiOnly (b64_encode bs)"
  by (induction bs rule: b64_encode.induct) (simp_all add: ascii_Cons ascii_b64_char)

lemma ascii_percent_byte: "isAsciiOnly (percent_byte b)"
  using unat_le_255 [of b]
  by (auto simp: percent_byte_def ascii_Cons hex_code_bounds less_mult_imp_div_less)
    (auto simp: hex_code_def less_mult_imp_div_less)

lemma ascii_percent_bytes: "isAsciiOnly (concat (map percent_byte bs))"
  by (induction bs) (simp_all add: ascii_percent_byte)

lemma ascii_unreserved: "uri_unreserved u \<Longrightarrow> 0x20 \<le> unat u \<and> unat u \<le> 0x7E"
  by (auto simp: uri_unreserved_def)

lemma ascii_uri: "uri_encode s = Some t \<Longrightarrow> isAsciiOnly t"
  by (induction s arbitrary: t rule: uri_encode.induct)
    (auto simp: ascii_Cons ascii_unreserved ascii_percent_bytes split: if_splits)

lemma ascii_prefix: "isAsciiOnly (ju ''b:'')" "isAsciiOnly (ju ''u:'')" "isAsciiOnly (ju ''d:'')"
  by (simp_all add: ju_def ascii_Cons)

definition printable :: "string \<Rightarrow> bool" where
  "printable s \<longleftrightarrow> list_all (\<lambda>c. 0x20 \<le> (of_char c :: nat) \<and> (of_char c :: nat) \<le> 0x7E) s"

lemma ascii_ju: "printable s \<Longrightarrow> isAsciiOnly (ju s)"
proof -
  have "unat (of_char c :: 16 word) = of_char c" if "(of_char c :: nat) \<le> 0x7E" for c
  proof -
    have "unat (of_char c :: 16 word) = unat (of_nat (of_char c) :: 16 word)"
      by (simp only: of_nat_of_char)
    also have "\<dots> = of_char c mod 2 ^ 16"
      unfolding unat_of_nat by simp
    finally show ?thesis
      using that by simp
  qed
  then show "printable s \<Longrightarrow> isAsciiOnly (ju s)"
    by (auto simp: isAsciiOnly_def printable_def list_all_iff ju_def)
qed

lemma ascii_common: "map_of COMMON_VALUES s = Some (e, t) \<Longrightarrow> isAsciiOnly e"
proof -
  have "list_all printable common_names"
    by (simp add: common_names_def printable_def)
  then have "\<forall>p \<in> set COMMON_VALUES. isAsciiOnly (fst (snd p))"
    by (auto simp: COMMON_VALUES_def list_all_iff ascii_ju) (auto intro!: ascii_ju simp: printable_def)
  moreover assume "map_of COMMON_VALUES s = Some (e, t)"
  ultimately show ?thesis
    using map_of_SomeD by fastforce
qed

lemma count_units_sum:
  "as_latin1 (count_units t st) + as_multibyte (count_units t st) =
     as_latin1 st + as_multibyte st + length (filter (\<lambda>u. \<not> (0x20 \<le> unat u \<and> unat u \<le> 0x7E)) t)"
  by (induction t st rule: count_units.induct) (simp_all add: Let_def)

lemma analysis_ascii:
  assumes "an_type (fresh_analysis s) = EncNone \<or> an_type (fresh_analysis s) = EncAscii"
  shows "isAsciiOnly s"
proof (cases "s = []")
  case False
  then have "fresh_analysis s = analyze_units s"
    by (simp add: fresh_analysis_def analyzeString_def Let_def)
  then show ?thesis
    using assms count_units_sum [of s "\<lparr>as_ascii = 0, as_latin1 = 0, as_multibyte = 0\<rparr>"]
    by (auto simp: analyze_units_def Let_def isAsciiOnly_def list_all_iff filter_empty_conv split: if_splits)
qed simp

lemma ascii_base64_text: "isAsciiOnly (base64_text s)"
  by (simp add: base64_text_def ascii_prefix ascii_b64)

lemma ascii_encode_common:
  assumes "cache_inv cache" and "fst (encode_common cache s) = Encoded r"
  shows "isAsciiOnly (er_encoded r) \<and> er_dictionary r = None"
proof -
  obtain a c where a: "analyzeString cache s = (a, c)"
    by (cases "analyzeString cache s")
  then have "a = fresh_analysis s"
    using analyzeString_cached(1) [OF assms(1), of s] by simp
  then show ?thesis
    using assms(2) a analysis_ascii [of s]
    by (cases "js_lookup COMMON_VALUES s")
      (auto simp: encode_common_def plain_result_def ascii_prefix ascii_uri ascii_base64_text
        js_lookup_Own ascii_common split: encoding_type.splits option.splits)
qed

text \<open>What \<open>dictionaryEncode\<close> returns is printable but for the remainder after a URL prefix.\<close>

definition dictionary_printable :: "dictionary_result \<Rightarrow> bool" where
  "dictionary_printable d = (case dr_type d of DictExact \<Rightarrow> True | DictPrefix p rest \<Rightarrow> isAsciiOnly rest)"

lemma tables_printable: "list_all (\<lambda>p. printable (snd p)) content_types"
  "list_all (\<lambda>p. printable (snd p)) status_messages" "list_all (\<lambda>p. printable (snd p)) url_prefixes"
  by (simp_all add: content_types_def status_messages_def url_prefixes_def printable_def)

lemma ascii_combined: "map_of COMBINED_DICT s = Some c \<Longrightarrow> isAsciiOnly c"
proof -
  assume c: "map_of COMBINED_DICT s = Some c"
  then obtain k where "s = ju k"
    using COMBINED_DICT_key by blast
  with c obtain d where "c = ju d" and "(k, d) \<in> set status_messages \<union> set content_types"
    by (auto simp: map_of_COMBINED_DICT split: option.splits dest!: map_of_SomeD)
  with tables_printable show ?thesis
    by (auto simp: list_all_iff intro!: ascii_ju)
qed

lemma ascii_encode_prefix:
  assumes "encode_prefix s ps = Some r" and "set ps \<subseteq> set URL_PREFIX_DICT"
  shows "isAsciiOnly (dr_encoded r) \<longleftrightarrow> dictionary_printable r"
  using assms
proof (induction s ps rule: encode_prefix.induct)
  case (2 s prefix code rest)
  have "isAsciiOnly code"
    using 2(3) tables_printable(3) by (auto simp: URL_PREFIX_DICT_def in_ju_table list_all_iff intro!: ascii_ju)
  with 2 show ?case
    by (auto simp: Let_def dictionary_printable_def ascii_prefix split: if_splits)
qed simp

lemma printable_prototype: "list_all (\<lambda>s. printable s) [''function '', ''Object'', ''() { [native code] }'', ''[object Object]'']"
  by (simp add: printable_def)

lemma ascii_lookup_text: "isAsciiOnly (lookup_text (js_lookup COMBINED_DICT s))"
proof (cases "js_lookup COMBINED_DICT s")
  case (ProtoFunction k n)
  have "\<forall>p \<in> set prototype_functions. isAsciiOnly (fst p)"
    by (simp add: prototype_functions_def) (auto intro!: ascii_ju simp: printable_def)
  moreover from ProtoFunction have "(k, n) \<in> set prototype_functions"
    by (auto simp: js_lookup_def split: option.splits if_splits dest: map_of_SomeD)
  ultimately show ?thesis
    using printable_prototype by (auto simp: ProtoFunction function_text_def ascii_ju)
next
  case (Own v)
  then have "map_of COMBINED_DICT s = Some v"
    by (simp add: js_lookup_Own)
  then show ?thesis
    by (simp add: Own ascii_combined)
qed (auto intro!: ascii_ju simp: printable_def)

lemma ascii_dictionary:
  assumes "dictionaryEncode s = Some r"
  shows "isAsciiOnly (dr_encoded r) \<longleftrightarrow> dictionary_printable r"
proof (cases "lookup_truthy (js_lookup COMBINED_DICT s)")
  case True
  with assms show ?thesis
    by (auto simp: dictionaryEncode_def Let_def ascii_lookup_text ascii_prefix dictionary_printable_def
        split: if_splits)
next
  case False
  with assms have "encode_prefix s sorted_prefixes = Some r"
    by (simp add: dictionaryEncode_def Let_def split: if_splits)
  then show ?thesis
    by (rule ascii_encode_prefix) (simp add: set_sorted_prefixes)
qed

section \<open>Properties\<close>

text \<open>The cache after any earlier calls of \<open>metadataEncode\<close>.\<close>

definition cache_after :: "jsvalue list \<Rightarrow> analysis_cache" where
  "cache_after vs = fold (\<lambda>v cache. snd (metadataEncode cache v)) vs []"

lemma cache_inv_encode: "cache_inv cache \<Longrightarrow> cache_inv (snd (metadataEncode cache v))"
proof -
  assume inv: "cache_inv cache"
  have "cache_inv (snd (encode_common cache s))" for s
    using analyzeString_cached(2) [OF inv, of s]
    by (auto simp: encode_common_def inv case_prod_unfold Let_def split: lookup.split)
  then have "cache_inv (snd (encode_text cache s))" for s
    by (auto simp: encode_text_def inv split: option.split)
  then show ?thesis
    by (simp add: metadataEncode_def inv split: jsvalue.split)
qed

lemma cache_inv_after: "cache_inv (cache_after vs)"
proof -
  have "cache_inv (fold (\<lambda>v cache. snd (metadataEncode cache v)) vs cache)" if "cache_inv cache" for cache
    using that by (induction vs arbitrary: cache) (simp_all add: cache_inv_encode)
  from this [of "[]"] show ?thesis
    by (simp add: cache_after_def) (simp add: cache_inv_def)
qed

text \<open>
  C1 (metadata values). After any earlier calls, every well-formed string survives
  \<open>metadataDecode\<close> after \<open>metadataEncode\<close>, whichever of the dictionary, the common values, plain
  text, URI or base64 encoding is chosen and whatever prefix it starts with; the exceptions are
  the strings \<open>null\<close> and \<open>undefined\<close>, the names of \<open>Object.prototype\<close> members and \<open>font/woff2\<close>.
\<close>

theorem metadata_roundtrip:
  assumes "well_formed s" and "\<not> prototype_member s"
    and "s \<notin> {ju ''null'', ju ''undefined'', ju ''font/woff2''}"
  shows "\<exists>r. fst (metadataEncode (cache_after prev) (VStr s)) = Encoded r \<and>
    metadataDecode (VStr (er_encoded r)) = VStr s"
proof -
  let ?c = "cache_after prev"
  let ?forced = "starts_with s (ju ''d:'') \<or> starts_with s (ju ''u:'') \<or> starts_with s (ju ''b:'')"
  have common: "\<exists>r. fst (encode_common ?c s) = Encoded r \<and> metadataDecode (VStr (er_encoded r)) = VStr s"
    if "\<not> ?forced"
  proof (cases "s = []")
    case True
    then show ?thesis
      by (simp add: encode_common_empty plain_result_def metadataDecode_def decode_prefixed_def ju_def)
  next
    case False
    with that assms show ?thesis
      by (intro encode_common_decode) (simp_all add: cache_inv_after)
  qed
  have "s \<noteq> []" if ?forced
    using that by (auto simp: ju_def)
  then show ?thesis
    using assms common decode_base64_text [of s] decode_dictionary [of s]
    by (cases ?forced; cases "dictionaryEncode s") (auto simp: metadataEncode_def encode_text_def)
qed

theorem metadata_roundtrip_witness:
  "\<exists>r. fst (metadataEncode (cache_after [VStr (ju ''x'')]) (VStr [0x75, 0x3A, 0x65E5])) = Encoded r \<and>
     metadataDecode (VStr (er_encoded r)) = VStr [0x75, 0x3A, 0x65E5]"
  by (rule metadata_roundtrip)
    (simp_all add: prototype_member_def prototype_functions_def ju_def is_high_def is_low_def)

lemma common_lookup:
  "map_of (map (\<lambda>k. (ju k, ju k, EncNone)) ks) (ju s) = (if s \<in> set ks then Some (ju s, EncNone) else None)"
  by (induction ks) (auto simp: ju_inject)

lemma common_special:
  "map_of COMMON_VALUES (ju ''null'') = Some (ju ''null'', EncSpecial)"
  "map_of COMMON_VALUES (ju ''undefined'') = Some (ju ''undefined'', EncSpecial)"
  "map_of COMMON_VALUES (ju ''__proto__'') = None"
  by (simp_all add: COMMON_VALUES_def map_add_def common_lookup ju_inject) (simp_all add: common_names_def)

lemma no_url_prefix:
  assumes "s = u # r" and "u \<noteq> 47" and "u \<noteq> 104"
  shows "encode_prefix s sorted_prefixes = None"
proof -
  have none: "encode_prefix s ps = None" if "\<forall>p \<in> fst ` set ps. \<not> starts_with s p" for ps
    using that by (induction s ps rule: encode_prefix.induct) auto
  have "\<forall>p \<in> fst ` set url_prefixes. p \<noteq> [] \<and> (hd p = CHR ''/'' \<or> hd p = CHR ''h'')"
    by (simp add: url_prefixes_def)
  moreover have "of_char CHR ''/'' = (47 :: 16 word)" and "of_char CHR ''h'' = (104 :: 16 word)"
    by simp_all
  ultimately have "\<forall>p \<in> fst ` set URL_PREFIX_DICT. \<exists>v q. p = v # q \<and> v \<noteq> u"
    using assms(2,3) unfolding URL_PREFIX_DICT_def ju_table_def
    by (fastforce simp: ju_def neq_Nil_conv)
  then show ?thesis
    using assms(1) by (intro none) (fastforce simp: set_sorted_prefixes)
qed

lemma special_names:
  "dictionaryEncode (ju ''null'') = None" "dictionaryEncode (ju ''undefined'') = None"
  "js_lookup COMBINED_DICT (ju ''constructor'') = ProtoFunction (ju ''constructor'') 1"
  "js_lookup COMBINED_DICT (ju ''__proto__'') = ProtoObject"
  "js_lookup COMMON_VALUES (ju ''__proto__'') = ProtoObject"
proof -
  have comb: "map_of COMBINED_DICT (ju s) = None"
    if "s \<notin> fst ` set status_messages \<union> fst ` set content_types" for s
    using that by (auto simp: map_of_COMBINED_DICT map_of_eq_None_iff split: option.split)
  have names: "''null'' \<notin> fst ` set status_messages \<union> fst ` set content_types"
    "''undefined'' \<notin> fst ` set status_messages \<union> fst ` set content_types"
    "''constructor'' \<notin> fst ` set status_messages \<union> fst ` set content_types"
    "''__proto__'' \<notin> fst ` set status_messages \<union> fst ` set content_types"
    by (simp_all add: status_messages_def content_types_def)
  show "js_lookup COMBINED_DICT (ju ''constructor'') = ProtoFunction (ju ''constructor'') 1"
    "js_lookup COMBINED_DICT (ju ''__proto__'') = ProtoObject"
    by (simp_all add: js_lookup_def comb [OF names(1)] comb [OF names(2)] comb [OF names(3)]
        comb [OF names(4)] prototype_functions_def ju_inject)
  have "js_lookup COMBINED_DICT (ju ''null'') = Missing" "js_lookup COMBINED_DICT (ju ''undefined'') = Missing"
    by (simp_all add: js_lookup_def comb [OF names(1)] comb [OF names(2)] comb [OF names(3)]
        comb [OF names(4)] prototype_functions_def ju_inject)
  then show "dictionaryEncode (ju ''null'') = None" "dictionaryEncode (ju ''undefined'') = None"
    using no_url_prefix [of "ju ''null''" 110 "ju ''ull''"] no_url_prefix [of "ju ''undefined''" 117 "ju ''ndefined''"]
    by (simp_all add: dictionaryEncode_def) (simp_all add: ju_def)
  show "js_lookup COMMON_VALUES (ju ''__proto__'') = ProtoObject"
    by (simp add: js_lookup_def common_special prototype_functions_def ju_inject)
qed

lemma not_forced:
  "\<not> starts_with (ju (c # s)) (ju [d, CHR '':'']) " if "s = e # t" "e \<noteq> CHR '':''"
proof -
  have "of_char e \<noteq> (of_char CHR '':'' :: 16 word)"
    using that by (simp only: of_char_word_inject not_False_eq_True)
  with that show ?thesis
    by (simp add: ju_def)
qed

text \<open>
  Metadata values. The values \<open>metadataDecode\<close> does not bring back: \<open>font/woff2\<close> is written
  with the code of \<open>failed\<close> and reads back as \<open>failed\<close>; the strings \<open>null\<close> and \<open>undefined\<close>
  read back as the values of those names; \<open>constructor\<close>, found on \<open>Object.prototype\<close>, is
  written as the source text of a function; for \<open>__proto__\<close> no encoded text is returned.
\<close>

theorem metadata_lost_values:
  "(\<exists>r. fst (metadataEncode cache (VStr (ju ''font/woff2''))) = Encoded r \<and>
      metadataDecode (VStr (er_encoded r)) = VStr (ju ''failed'')) \<and>
   (\<exists>r. fst (metadataEncode cache (VStr (ju ''null''))) = Encoded r \<and>
      metadataDecode (VStr (er_encoded r)) = VNull) \<and>
   (\<exists>r. fst (metadataEncode cache (VStr (ju ''undefined''))) = Encoded r \<and>
      metadataDecode (VStr (er_encoded r)) = VUndef) \<and>
   (\<exists>r. fst (metadataEncode cache (VStr (ju ''constructor''))) = Encoded r \<and>
      metadataDecode (VStr (er_encoded r)) = VStr (ju ''d:function Object() { [native code] }'')) \<and>
   fst (metadataEncode cache (VStr (ju ''__proto__''))) = ReturnsPrototype"
proof (intro conjI)
  have woff: "js_lookup COMBINED_DICT (ju ''font/woff2'') = Own (ju ''f'')"
    by (simp add: js_lookup_Own map_of_COMBINED_DICT status_messages_def content_types_def)
  have dec: "dictionaryDecode (ju ''d:f'') = Some (ju ''failed'')"
  proof -
    have "map_of COMBINED_REVERSE (ju ''f'') = Some (ju ''failed'')"
      by (simp add: map_of_COMBINED_REVERSE status_messages_def swap_table_def)
    then show ?thesis
      by (simp add: dictionaryDecode_def ju_def)
  qed
  show "\<exists>r. fst (metadataEncode cache (VStr (ju ''font/woff2''))) = Encoded r \<and>
      metadataDecode (VStr (er_encoded r)) = VStr (ju ''failed'')"
    using woff dec
    by (simp add: metadataEncode_def encode_text_def dictionaryEncode_def metadataDecode_def)
      (simp add: ju_def)
  show "\<exists>r. fst (metadataEncode cache (VStr (ju ''null''))) = Encoded r \<and>
      metadataDecode (VStr (er_encoded r)) = VNull"
    by (simp add: metadataEncode_def encode_text_def special_names not_forced encode_common_def
        js_lookup_def common_special plain_result_def metadataDecode_def)
  show "\<exists>r. fst (metadataEncode cache (VStr (ju ''undefined''))) = Encoded r \<and>
      metadataDecode (VStr (er_encoded r)) = VUndef"
    by (simp add: metadataEncode_def encode_text_def special_names not_forced encode_common_def
        js_lookup_def common_special plain_result_def metadataDecode_def ju_inject)
  show "\<exists>r. fst (metadataEncode cache (VStr (ju ''constructor''))) = Encoded r \<and>
      metadataDecode (VStr (er_encoded r)) = VStr (ju ''d:function Object() { [native code] }'')"
    by (simp add: metadataEncode_def encode_text_def special_names not_forced dictionaryEncode_def
        function_text_def)
      (simp add: metadataDecode_def dictionaryDecode_def decode_prefixed_def ju_def)
  show "fst (metadataEncode cache (VStr (ju ''__proto__''))) = ReturnsPrototype"
    by (simp add: metadataEncode_def encode_text_def special_names not_forced dictionaryEncode_def
        encode_common_def)
qed

text \<open>
  C36 (metadata values). What is written is printable ASCII, as S3 requires of metadata, except
  for a text that starts with one of the URL prefixes of the dictionary: the text after the
  prefix is appended as it is, so it is written in ASCII only if it already was.
\<close>

theorem metadata_value_printable:
  assumes "fst (metadataEncode (cache_after prev) (VStr s)) = Encoded r"
  shows "isAsciiOnly (er_encoded r) \<longleftrightarrow>
    (case er_dictionary r of None \<Rightarrow> True
     | Some d \<Rightarrow> (case dr_type d of DictExact \<Rightarrow> True | DictPrefix p rest \<Rightarrow> isAsciiOnly rest))"
  using assms ascii_encode_common [OF cache_inv_after, of prev s r] ascii_dictionary [of s]
  by (auto simp: metadataEncode_def encode_text_def ascii_base64_text dictionary_printable_def
      split: if_splits option.splits)

lemma sorted_prefixes_eq:
  "sorted_prefixes = ju_table
    [(''https://s3.amazonaws.com/'', ''@s''), (''https://api.example.com/'', ''@A''),
     (''http://localhost:'', ''@L''), (''http://localhost'', ''@l''), (''https://api.'', ''@H''),
     (''https://www.'', ''@W''), (''https://s3-'', ''@S''), (''/products/'', ''@p''),
     (''/api/v1/'', ''@1''), (''/api/v2/'', ''@2''), (''/api/v3/'', ''@3''), (''https://'', ''@h''),
     (''http://'', ''@t''), (''/users/'', ''@u''), (''/api/'', ''@a''), (''/v1/'', ''@v'')]"
  unfolding sorted_prefixes_def URL_PREFIX_DICT_def obj_entries_ju_table [OF tables_plain(2)]
  by (simp add: url_prefixes_def ju_table_def)

theorem metadata_value_printable_witness:
  "\<exists>r. fst (metadataEncode (cache_after []) (VStr (ju ''https://'' @ [0xE9]))) = Encoded r \<and>
     \<not> isAsciiOnly (er_encoded r)"
proof -
  let ?s = "ju ''https://'' @ [0xE9]"
  obtain d where d: "encode_prefix ?s sorted_prefixes = Some d" and
    type: "dr_type d = DictPrefix (ju ''https://'') [0xE9]" and "dr_savings d = Some 4"
    by (simp add: sorted_prefixes_eq ju_table_def ju_def Let_def)
  moreover have "js_lookup COMBINED_DICT ?s = Missing"
  proof -
    have "map_of COMBINED_DICT ?s = None"
    proof (rule ccontr)
      assume "map_of COMBINED_DICT ?s \<noteq> None"
      then obtain c where c: "map_of COMBINED_DICT ?s = Some c"
        by auto
      then obtain k where k: "?s = ju k"
        using COMBINED_DICT_key by blast
      then have "of_char (last k) = (0xE9 :: 16 word)" and "length k = 9"
        by (auto simp: ju_def last_map dest: arg_cong [where f = length] arg_cong [where f = last])
      moreover have "list_all (\<lambda>p. length (fst p) \<noteq> 9 \<or> of_char (last (fst p)) \<noteq> (0xE9 :: 16 word))
          (status_messages @ content_types)"
        by (simp add: status_messages_def content_types_def)
      moreover obtain x where "(k, x) \<in> set (status_messages @ content_types)"
        using c k by (auto simp: map_of_COMBINED_DICT split: option.splits dest!: map_of_SomeD)
      ultimately show False
        unfolding list_all_iff by (metis fst_conv)
    qed
    then show ?thesis
      by (simp add: js_lookup_def prototype_functions_def ju_def)
  qed
  ultimately have enc: "fst (metadataEncode (cache_after []) (VStr ?s)) = Encoded
      \<lparr>er_encoded = dr_encoded d, er_encoding = EncDictionary, er_analysis = None,
       er_dictionary = Some d, er_forced = False\<rparr>"
    by (simp add: metadataEncode_def encode_text_def dictionaryEncode_def) (simp add: ju_def)
  from metadata_value_printable [OF this] type have "\<not> isAsciiOnly (dr_encoded d)"
    by (simp add: isAsciiOnly_def)
  with enc show ?thesis
    by simp
qed

end
