(* ===== verification/MemoryStorage.thy ===== *)
theory MemoryStorage
  imports JsText
begin

text \<open>
  \<open>src/clients/memory-storage.class.ts\<close>: the in-memory S3 of tests and caches. The state is the
  \<open>objects\<close> map in insertion order (which is the eviction order), the memory counter and the
  statistics; the configuration is a record of its own. MD5 is a parameter \<open>md5\<close>, the current
  time an argument \<open>now\<close>. Errors are values: an operation that throws returns \<open>Inl\<close> and leaves
  the state as it was. Logging, streams over a body and the files of \<open>saveToDisk\<close> and
  \<open>loadFromDisk\<close> are not modelled.
\<close>

type_synonym bytes = "byte list"

record storage_object =
  so_body :: bytes
  so_metadata :: "ustring jsobj"
  so_contentType :: ustring
  so_etag :: ustring
  so_lastModified :: nat
  so_size :: nat
  so_contentEncoding :: "ustring option"
  so_contentLength :: nat

record storage_config =
  cf_bucket :: ustring
  cf_enforceLimits :: bool
  cf_metadataLimit :: nat
  cf_maxObjectSize :: nat
  cf_maxMemoryBytes :: int
  cf_evictionEnabled :: bool

record memory_storage =
  ms_objects :: "(ustring \<times> storage_object) list"
  ms_currentMemoryBytes :: int
  ms_evictions :: nat
  ms_evictedBytes :: nat
  ms_peakMemoryBytes :: int

datatype storage_error =
    MetadataLimitExceeded nat
  | ObjectTooLarge nat
  | PreconditionFailed ustring
  | NoSuchKey ustring
  | InvalidContinuationToken
  | InvalidSnapshot

definition new_storage :: memory_storage where
  "new_storage = \<lparr>ms_objects = [], ms_currentMemoryBytes = 0, ms_evictions = 0, ms_evictedBytes = 0,
     ms_peakMemoryBytes = 0\<rparr>"

section \<open>Bodies, limits and conditional headers\<close>

datatype put_body = NoBody | BufferBody bytes | TextBody ustring

fun toBuffer :: "put_body \<Rightarrow> bytes" where
  "toBuffer (BufferBody b) = b"
| "toBuffer NoBody = []"
| "toBuffer (TextBody s) = utf8_encode s"

definition calculateMetadataSize :: "ustring jsobj option \<Rightarrow> nat" where
  "calculateMetadataSize metadata = (case metadata of
     None \<Rightarrow> 0
   | Some m \<Rightarrow> foldl (\<lambda>size (k, v). size + length (utf8_encode k) + length (utf8_encode v)) 0 (obj_entries m))"

definition validateLimits ::
  "storage_config \<Rightarrow> put_body \<Rightarrow> ustring jsobj option \<Rightarrow> storage_error option" where
  "validateLimits cf body metadata =
     (if \<not> cf_enforceLimits cf then None
      else let metadataSize = calculateMetadataSize metadata in
        if metadataSize > cf_metadataLimit cf then Some (MetadataLimitExceeded metadataSize)
        else let bodySize = (case body of BufferBody b \<Rightarrow> length b | TextBody s \<Rightarrow> length (utf8_encode s)
            | NoBody \<Rightarrow> 0) in
          if bodySize > cf_maxObjectSize cf then Some (ObjectTooLarge bodySize) else None)"

text \<open>\<open>normalizeEtagHeader\<close> of \<open>client-compat.ts\<close>.\<close>

definition strip_weak :: "ustring \<Rightarrow> ustring" where
  "strip_weak s = (if starts_with s (ju ''W/'') \<or> starts_with s (ju ''w/'') then drop 2 s else s)"

definition is_quote :: "16 word \<Rightarrow> bool" where
  "is_quote u \<longleftrightarrow> u = 34 \<or> u = 39"

definition strip_quotes :: "ustring \<Rightarrow> ustring" where
  "strip_quotes s =
     (let t = (if s \<noteq> [] \<and> is_quote (hd s) then tl s else s) in
      if t \<noteq> [] \<and> is_quote (last t) then butlast t else t)"

definition normalizeEtagHeader :: "ustring option \<Rightarrow> ustring list" where
  "normalizeEtagHeader header = (case header of
     None \<Rightarrow> []
   | Some h \<Rightarrow> map (\<lambda>v. strip_quotes (strip_weak v))
       (filter (\<lambda>v. v \<noteq> []) (map js_trim (split_on 44 h))))"

section \<open>Memory accounting and eviction\<close>

definition trackMemory :: "int \<Rightarrow> memory_storage \<Rightarrow> memory_storage" where
  "trackMemory delta st =
     (let st' = st\<lparr>ms_currentMemoryBytes := ms_currentMemoryBytes st + delta\<rparr> in
      if ms_currentMemoryBytes st' > ms_peakMemoryBytes st'
      then st'\<lparr>ms_peakMemoryBytes := ms_currentMemoryBytes st'\<rparr> else st')"

definition touchKey :: "ustring \<Rightarrow> memory_storage \<Rightarrow> memory_storage" where
  "touchKey key st = (case map_of (ms_objects st) key of
     None \<Rightarrow> st
   | Some ob \<Rightarrow> st\<lparr>ms_objects := AList.update key ob (AList.delete key (ms_objects st))\<rparr>)"

fun evict_scan ::
  "(ustring \<times> storage_object) list \<Rightarrow> int \<Rightarrow> int \<Rightarrow> int \<Rightarrow> nat \<Rightarrow> ustring list \<times> nat" where
  "evict_scan [] current required target evicted = ([], evicted)"
| "evict_scan ((key, ob) # rest) current required target evicted =
     (if current - int evicted + required \<le> target then ([], evicted)
      else let (keys, total) = evict_scan rest current required target (evicted + so_size ob)
        in (key # keys, total))"

definition evict_key :: "ustring \<Rightarrow> memory_storage \<Rightarrow> memory_storage" where
  "evict_key key st = (case map_of (ms_objects st) key of
     None \<Rightarrow> st
   | Some ob \<Rightarrow> st\<lparr>ms_objects := AList.delete key (ms_objects st), ms_evictions := Suc (ms_evictions st),
       ms_evictedBytes := ms_evictedBytes st + so_size ob\<rparr>)"

definition evictIfNeeded :: "storage_config \<Rightarrow> int \<Rightarrow> memory_storage \<Rightarrow> memory_storage" where
  "evictIfNeeded cf required st =
     (if \<not> cf_evictionEnabled cf then st
      else if ms_currentMemoryBytes st + required \<le> cf_maxMemoryBytes cf then st
      else let (keys, evicted) =
          evict_scan (ms_objects st) (ms_currentMemoryBytes st) required (cf_maxMemoryBytes cf) 0;
          st' = fold evict_key keys st
        in st'\<lparr>ms_currentMemoryBytes := ms_currentMemoryBytes st' - int evicted\<rparr>)"

section \<open>Objects\<close>

record put_params =
  pp_body :: put_body
  pp_metadata :: "ustring jsobj option"
  pp_contentType :: "ustring option"
  pp_contentEncoding :: "ustring option"
  pp_contentLength :: "nat option"
  pp_ifMatch :: "ustring option"
  pp_ifNoneMatch :: "ustring option"

definition format_etag :: "ustring \<Rightarrow> ustring" where
  "format_etag etag = [34] @ etag @ [34]"

definition ifMatch_fails :: "storage_object option \<Rightarrow> ustring option \<Rightarrow> bool" where
  "ifMatch_fails existing ifMatch = (case ifMatch of
     None \<Rightarrow> False
   | Some h \<Rightarrow>
       (case existing of
         None \<Rightarrow> True
       | Some ob \<Rightarrow> \<not> (so_etag ob \<noteq> [] \<and> so_etag ob \<in> set (normalizeEtagHeader (Some h)))))"

definition ifNoneMatch_fails :: "storage_object option \<Rightarrow> ustring option \<Rightarrow> bool" where
  "ifNoneMatch_fails existing ifNoneMatch = (case ifNoneMatch of
     None \<Rightarrow> False
   | Some h \<Rightarrow>
       (case existing of
         None \<Rightarrow> False
       | Some ob \<Rightarrow> h = ju ''*'' \<or>
           (so_etag ob \<noteq> [] \<and> so_etag ob \<in> set (normalizeEtagHeader (Some h)))))"

definition storage_put ::
  "(bytes \<Rightarrow> ustring) \<Rightarrow> storage_config \<Rightarrow> nat \<Rightarrow> ustring \<Rightarrow> put_params \<Rightarrow> memory_storage \<Rightarrow>
     (storage_error + ustring) \<times> memory_storage" where
  "storage_put md5 cf now key params st =
     (case validateLimits cf (pp_body params) (pp_metadata params) of
       Some e \<Rightarrow> (Inl e, st)
     | None \<Rightarrow>
         let existing = map_of (ms_objects st) key in
         if ifMatch_fails existing (pp_ifMatch params) then (Inl (PreconditionFailed key), st)
         else if ifNoneMatch_fails existing (pp_ifNoneMatch params) then (Inl (PreconditionFailed key), st)
         else
           let buffer = toBuffer (pp_body params); etag = md5 buffer; sz = length buffer;
             existingSize = (case existing of Some ob \<Rightarrow> so_size ob | None \<Rightarrow> 0);
             memoryDelta = int sz - int existingSize;
             st1 = evictIfNeeded cf (if memoryDelta > 0 then memoryDelta else 0) st;
             ob = \<lparr>so_body = buffer,
               so_metadata = (case pp_metadata params of Some m \<Rightarrow> obj_spread [] m | None \<Rightarrow> []),
               so_contentType = (case pp_contentType params of
                  Some t \<Rightarrow> if t \<noteq> [] then t else ju ''application/octet-stream''
                | None \<Rightarrow> ju ''application/octet-stream''),
               so_etag = etag, so_lastModified = now, so_size = sz,
               so_contentEncoding = pp_contentEncoding params,
               so_contentLength = (case pp_contentLength params of Some n \<Rightarrow> n | None \<Rightarrow> sz)\<rparr>;
             st2 = st1\<lparr>ms_objects := AList.update key ob (ms_objects st1)\<rparr>
           in (Inr (format_etag etag), trackMemory memoryDelta st2))"

record object_response =
  or_body :: bytes
  or_metadata :: "ustring jsobj"
  or_contentType :: ustring
  or_contentLength :: nat
  or_etag :: ustring
  or_lastModified :: nat
  or_contentEncoding :: "ustring option"

definition response_of :: "storage_object \<Rightarrow> object_response" where
  "response_of ob = \<lparr>or_body = so_body ob, or_metadata = obj_spread [] (so_metadata ob),
     or_contentType = so_contentType ob, or_contentLength = so_size ob, or_etag = format_etag (so_etag ob),
     or_lastModified = so_lastModified ob, or_contentEncoding = so_contentEncoding ob\<rparr>"

definition storage_get :: "ustring \<Rightarrow> memory_storage \<Rightarrow> (storage_error + object_response) \<times> memory_storage" where
  "storage_get key st = (case map_of (ms_objects st) key of
     None \<Rightarrow> (Inl (NoSuchKey key), st)
   | Some ob \<Rightarrow> (Inr (response_of ob), touchKey key st))"

text \<open>\<open>head\<close> returns the same without the body.\<close>

definition storage_head :: "ustring \<Rightarrow> memory_storage \<Rightarrow> (storage_error + object_response) \<times> memory_storage" where
  "storage_head key st = (case map_of (ms_objects st) key of
     None \<Rightarrow> (Inl (NoSuchKey key), st)
   | Some ob \<Rightarrow> (Inr ((response_of ob)\<lparr>or_body := []\<rparr>), touchKey key st))"

record copy_params =
  cp_metadata :: "ustring jsobj option"
  cp_replace :: bool
  cp_contentType :: "ustring option"

definition storage_copy ::
  "(bytes \<Rightarrow> ustring) \<Rightarrow> storage_config \<Rightarrow> nat \<Rightarrow> ustring \<Rightarrow> ustring \<Rightarrow> copy_params \<Rightarrow> memory_storage \<Rightarrow>
     (storage_error + ustring) \<times> memory_storage" where
  "storage_copy md5 cf now src dst params st = (case map_of (ms_objects st) src of
     None \<Rightarrow> (Inl (NoSuchKey src), st)
   | Some source \<Rightarrow>
       let own = obj_spread [] (so_metadata source);
         finalMetadata = (case cp_metadata params of
            None \<Rightarrow> own | Some m \<Rightarrow> if cp_replace params then m else obj_spread own m)
       in storage_put md5 cf now dst
         \<lparr>pp_body = BufferBody (so_body source), pp_metadata = Some finalMetadata,
          pp_contentType = Some (case cp_contentType params of
              Some t \<Rightarrow> if t \<noteq> [] then t else so_contentType source | None \<Rightarrow> so_contentType source),
          pp_contentEncoding = so_contentEncoding source, pp_contentLength = None,
          pp_ifMatch = None, pp_ifNoneMatch = None\<rparr> st)"

definition exists_key :: "ustring \<Rightarrow> memory_storage \<Rightarrow> bool" where
  "exists_key key st \<longleftrightarrow> key \<in> fst ` set (ms_objects st)"

definition delete_object :: "ustring \<Rightarrow> memory_storage \<Rightarrow> memory_storage" where
  "delete_object key st =
     (let st' = (case map_of (ms_objects st) key of
        Some ob \<Rightarrow> trackMemory (- int (so_size ob)) st | None \<Rightarrow> st)
      in st'\<lparr>ms_objects := AList.delete key (ms_objects st')\<rparr>)"

definition deleteMultiple :: "ustring list \<Rightarrow> memory_storage \<Rightarrow> ustring list \<times> memory_storage" where
  "deleteMultiple keys st = (keys, fold delete_object keys st)"

section \<open>Listing\<close>

definition strip_padding :: "ustring \<Rightarrow> ustring" where
  "strip_padding s = rev (dropWhile (\<lambda>u. u = 61) (rev s))"

definition encodeContinuationToken :: "ustring \<Rightarrow> ustring" where
  "encodeContinuationToken key = b64_encode (utf8_encode key)"

definition decodeContinuationToken :: "ustring \<Rightarrow> storage_error + ustring" where
  "decodeContinuationToken token =
     (let normalized = js_trim token;
          decoded = utf8_decode (b64_decode normalized);
          reencoded = strip_padding (b64_encode (utf8_encode decoded))
      in if decoded = [] \<or> reencoded \<noteq> strip_padding normalized then Inl InvalidContinuationToken
         else Inr decoded)"

fun index_of :: "ustring \<Rightarrow> ustring \<Rightarrow> nat option" where
  "index_of sub [] = (if sub = [] then Some 0 else None)"
| "index_of sub (u # s) = (if starts_with (u # s) sub then Some 0 else map_option Suc (index_of sub s))"

definition extractCommonPrefix :: "ustring \<Rightarrow> ustring \<Rightarrow> ustring \<Rightarrow> ustring option" where
  "extractCommonPrefix prefix delimiter key =
     (if delimiter = [] then None
      else if prefix \<noteq> [] \<and> \<not> starts_with key prefix then None
      else let remainder = (if prefix \<noteq> [] then drop (length prefix) key else key) in
        case index_of delimiter remainder of
          None \<Rightarrow> None
        | Some i \<Rightarrow> Some (take ((if prefix \<noteq> [] then length prefix else 0) + i + length delimiter) key))"

record list_params =
  lp_prefix :: ustring
  lp_delimiter :: ustring
  lp_maxKeys :: nat
  lp_continuationToken :: ustring
  lp_startAfter :: ustring

record page_state =
  ps_contents :: "ustring list"
  ps_prefixes :: "ustring list"
  ps_processed :: nat
  ps_last :: "ustring option"
  ps_more :: bool

fun list_loop :: "ustring \<Rightarrow> ustring \<Rightarrow> nat \<Rightarrow> ustring list \<Rightarrow> page_state \<Rightarrow> page_state" where
  "list_loop prefix delimiter maxKeys [] pg = pg"
| "list_loop prefix delimiter maxKeys (key # rest) pg =
     (if ps_processed pg \<ge> maxKeys then pg\<lparr>ps_more := True\<rparr>
      else case (if delimiter \<noteq> [] then extractCommonPrefix prefix delimiter key else None) of
        Some entry \<Rightarrow>
          if entry = [] then
            list_loop prefix delimiter maxKeys rest
              (pg\<lparr>ps_contents := ps_contents pg @ [key], ps_processed := Suc (ps_processed pg), ps_last := Some key\<rparr>)
          else if entry \<in> set (ps_prefixes pg) then list_loop prefix delimiter maxKeys rest pg
          else list_loop prefix delimiter maxKeys rest
            (pg\<lparr>ps_prefixes := ps_prefixes pg @ [entry], ps_processed := Suc (ps_processed pg), ps_last := Some key\<rparr>)
      | None \<Rightarrow>
          list_loop prefix delimiter maxKeys rest
            (pg\<lparr>ps_contents := ps_contents pg @ [key], ps_processed := Suc (ps_processed pg), ps_last := Some key\<rparr>))"

record list_response =
  lr_contents :: "(ustring \<times> nat \<times> nat \<times> ustring) list"
  lr_prefixes :: "ustring list"
  lr_isTruncated :: bool
  lr_next :: "ustring option"
  lr_keyCount :: nat

definition getKeys :: "memory_storage \<Rightarrow> ustring list" where
  "getKeys st = sort (map fst (ms_objects st))"

definition selected_keys :: "list_params \<Rightarrow> ustring option \<Rightarrow> memory_storage \<Rightarrow> ustring list" where
  "selected_keys params after st =
     (let sortedKeys = sort (map fst (ms_objects st));
          filtered = (if lp_prefix params \<noteq> [] then filter (\<lambda>k. starts_with k (lp_prefix params)) sortedKeys
            else sortedKeys)
      in case after of
           Some a \<Rightarrow> if a \<noteq> [] then filter (\<lambda>k. a < k) filtered else filtered
         | None \<Rightarrow> filtered)"

definition list_objects :: "list_params \<Rightarrow> memory_storage \<Rightarrow> storage_error + list_response" where
  "list_objects params st =
     (let after = (if lp_continuationToken params \<noteq> []
            then map_sum id Some (decodeContinuationToken (lp_continuationToken params))
            else Inr (if lp_startAfter params \<noteq> [] then Some (lp_startAfter params) else None))
      in case after of
           Inl e \<Rightarrow> Inl e
         | Inr a \<Rightarrow>
             let pg = list_loop (lp_prefix params) (lp_delimiter params) (lp_maxKeys params)
                   (selected_keys params a st)
                   \<lparr>ps_contents = [], ps_prefixes = [], ps_processed = 0, ps_last = None, ps_more = False\<rparr>;
                 token = (if ps_more pg then
                     (case ps_last pg of Some k \<Rightarrow> if k \<noteq> [] then Some (encodeContinuationToken k) else None
                      | None \<Rightarrow> None)
                   else None);
                 entry = (\<lambda>k. case map_of (ms_objects st) k of
                   Some ob \<Rightarrow> (k, so_size ob, so_lastModified ob, format_etag (so_etag ob))
                 | None \<Rightarrow> (k, 0, 0, []))
             in Inr \<lparr>lr_contents = map entry (ps_contents pg), lr_prefixes = ps_prefixes pg,
               lr_isTruncated = (token \<noteq> None), lr_next = token, lr_keyCount = length (ps_contents pg)\<rparr>)"

section \<open>Snapshots and statistics\<close>

record snapshot_object =
  sn_body :: ustring
  sn_metadata :: "ustring jsobj"
  sn_contentType :: ustring
  sn_etag :: ustring
  sn_lastModified :: nat
  sn_size :: nat
  sn_contentEncoding :: "ustring option"
  sn_contentLength :: nat

definition snapshot_of :: "storage_object \<Rightarrow> snapshot_object" where
  "snapshot_of ob = \<lparr>sn_body = b64_encode (so_body ob), sn_metadata = so_metadata ob,
     sn_contentType = so_contentType ob, sn_etag = so_etag ob, sn_lastModified = so_lastModified ob,
     sn_size = so_size ob, sn_contentEncoding = so_contentEncoding ob, sn_contentLength = so_contentLength ob\<rparr>"

definition object_of :: "snapshot_object \<Rightarrow> storage_object" where
  "object_of sn = \<lparr>so_body = b64_decode (sn_body sn), so_metadata = sn_metadata sn,
     so_contentType = sn_contentType sn, so_etag = sn_etag sn, so_lastModified = sn_lastModified sn,
     so_size = sn_size sn, so_contentEncoding = sn_contentEncoding sn, so_contentLength = sn_contentLength sn\<rparr>"

definition storage_snapshot :: "memory_storage \<Rightarrow> snapshot_object jsobj" where
  "storage_snapshot st = fold (\<lambda>(key, ob) sn. AList.update key (snapshot_of ob) sn) (ms_objects st) []"

definition storage_restore ::
  "storage_config \<Rightarrow> snapshot_object jsobj option \<Rightarrow> memory_storage \<Rightarrow> (storage_error + unit) \<times> memory_storage" where
  "storage_restore cf snap st = (case snap of
     None \<Rightarrow> (Inl InvalidSnapshot, st)
   | Some objs \<Rightarrow>
       let entries = obj_entries objs;
           cleared = st\<lparr>ms_objects := [], ms_currentMemoryBytes := 0\<rparr>;
           loaded = cleared\<lparr>ms_objects :=
             fold (\<lambda>(key, sn) os. AList.update key (object_of sn) os) entries []\<rparr>;
           totalBytes = sum_list (map (\<lambda>(key, sn). length (b64_decode (sn_body sn))) entries);
           tracked = trackMemory (int totalBytes) loaded;
           evicted = (if ms_currentMemoryBytes tracked > cf_maxMemoryBytes cf then evictIfNeeded cf 0 tracked
             else tracked)
       in (Inr (), evicted\<lparr>ms_peakMemoryBytes := ms_currentMemoryBytes evicted\<rparr>))"

definition storage_clear :: "memory_storage \<Rightarrow> memory_storage" where
  "storage_clear st = new_storage"

definition resetStats :: "memory_storage \<Rightarrow> memory_storage" where
  "resetStats st = st\<lparr>ms_evictions := 0, ms_evictedBytes := 0, ms_peakMemoryBytes := ms_currentMemoryBytes st\<rparr>"

section \<open>Invariant and memory accounting\<close>

definition objects_total :: "(ustring \<times> storage_object) list \<Rightarrow> nat" where
  "objects_total os = sum_list (map (\<lambda>(k, ob). so_size ob) os)"

definition object_ok :: "(bytes \<Rightarrow> ustring) \<Rightarrow> storage_object \<Rightarrow> bool" where
  "object_ok md5 ob \<longleftrightarrow> so_size ob = length (so_body ob) \<and> so_etag ob = md5 (so_body ob)"

definition objects_ok :: "(bytes \<Rightarrow> ustring) \<Rightarrow> (ustring \<times> storage_object) list \<Rightarrow> bool" where
  "objects_ok md5 os \<longleftrightarrow> distinct (map fst os) \<and> (\<forall>p \<in> set os. object_ok md5 (snd p))"

definition storage_inv :: "(bytes \<Rightarrow> ustring) \<Rightarrow> memory_storage \<Rightarrow> bool" where
  "storage_inv md5 st \<longleftrightarrow> objects_ok md5 (ms_objects st)"

lemma objects_ok_update: "objects_ok md5 os \<Longrightarrow> object_ok md5 ob \<Longrightarrow> objects_ok md5 (AList.update k ob os)"
  by (auto simp: objects_ok_def distinct_update update_set_eq)

lemma objects_ok_delete: "objects_ok md5 os \<Longrightarrow> objects_ok md5 (AList.delete k os)"
  unfolding objects_ok_def by (auto simp: distinct_delete) (auto simp: AList.delete_eq)

lemma objects_ok_drop: "objects_ok md5 os \<Longrightarrow> objects_ok md5 (drop n os)"
  unfolding objects_ok_def by (auto simp: distinct_drop dest: in_set_dropD simp flip: drop_map)

lemma objects_ok_lookup: "objects_ok md5 os \<Longrightarrow> map_of os k = Some ob \<Longrightarrow> object_ok md5 ob"
  unfolding objects_ok_def by (metis map_of_SomeD snd_conv)

lemma storage_inv_distinct: "storage_inv md5 st \<Longrightarrow> distinct (map fst (ms_objects st))"
  by (simp add: storage_inv_def objects_ok_def)

definition accounted :: "memory_storage \<Rightarrow> bool" where
  "accounted st \<longleftrightarrow> ms_currentMemoryBytes st = int (objects_total (ms_objects st))"

lemma objects_total_append: "objects_total (a @ b) = objects_total a + objects_total b"
  by (simp add: objects_total_def)

lemma objects_total_update:
  "int (objects_total (AList.update k ob os)) = int (objects_total os) + int (so_size ob) -
     (case map_of os k of Some old \<Rightarrow> int (so_size old) | None \<Rightarrow> 0)"
  by (induction os) (auto simp: objects_total_def split: option.split)

lemma objects_total_delete:
  "distinct (map fst os) \<Longrightarrow> int (objects_total (AList.delete k os)) = int (objects_total os) -
     (case map_of os k of Some old \<Rightarrow> int (so_size old) | None \<Rightarrow> 0)"
proof (induction os)
  case (Cons p os)
  obtain j ob where p: "p = (j, ob)"
    by (cases p)
  show ?case
  proof (cases "j = k")
    case True
    with Cons.prems show ?thesis
      by (simp add: p delete_first objects_total_def del: AList.delete_simps)
  next
    case False
    with Cons show ?thesis
      by (simp add: p objects_total_def)
  qed
qed (simp add: objects_total_def)

lemma evict_scan_spec:
  "evict_scan os current required target evicted = (ks, tot) \<Longrightarrow>
   \<exists>n. ks = map fst (take n os) \<and> tot = evicted + objects_total (take n os) \<and>
     (n < length os \<longrightarrow> current - int tot + required \<le> target)"
proof (induction os current required target evicted arbitrary: ks tot rule: evict_scan.induct)
  case (1 current required target evicted)
  then show ?case
    by (simp add: objects_total_def)
next
  case (2 key ob rest current required target evicted)
  show ?case
  proof (cases "current - int evicted + required \<le> target")
    case True
    with 2 show ?thesis
      by (intro exI [of _ 0]) (simp add: objects_total_def)
  next
    case False
    then obtain ks' where scan: "evict_scan rest current required target (evicted + so_size ob) = (ks', tot)"
      and ks: "ks = key # ks'"
      using 2(2) by (auto split: prod.splits)
    from 2(1) [OF False scan] obtain n where "ks' = map fst (take n rest)"
      and "tot = evicted + so_size ob + objects_total (take n rest)"
      and "n < length rest \<longrightarrow> current - int tot + required \<le> target"
      by blast
    then show ?thesis
      by (intro exI [of _ "Suc n"]) (simp add: ks objects_total_def)
  qed
qed

lemma evict_keys:
  assumes "distinct (map fst (ms_objects st))"
  shows "ms_objects (fold evict_key (map fst (take n (ms_objects st))) st) = drop n (ms_objects st) \<and>
    ms_currentMemoryBytes (fold evict_key (map fst (take n (ms_objects st))) st) = ms_currentMemoryBytes st"
  using assms
proof (induction n arbitrary: st)
  case (Suc n)
  show ?case
  proof (cases "ms_objects st")
    case (Cons p os)
    obtain k ob where p: "p = (k, ob)"
      by (cases p)
    have objs: "ms_objects (evict_key k st) = os"
      using Suc.prems delete_first [of k ob os] by (simp add: evict_key_def Cons p)
    have current: "ms_currentMemoryBytes (evict_key k st) = ms_currentMemoryBytes st"
      by (simp add: evict_key_def split: option.split)
    from Suc.IH [of "evict_key k st"] Suc.prems show ?thesis
      by (simp add: Cons p objs current)
  qed simp
qed simp

lemma evictIfNeeded_spec:
  assumes "distinct (map fst (ms_objects st))"
  obtains n where "ms_objects (evictIfNeeded cf required st) = drop n (ms_objects st)"
    and "ms_currentMemoryBytes (evictIfNeeded cf required st) =
      ms_currentMemoryBytes st - int (objects_total (take n (ms_objects st)))"
    and "cf_evictionEnabled cf \<Longrightarrow> n < length (ms_objects st) \<or> n = 0 \<Longrightarrow>
      n = 0 \<and> ms_objects st = [] \<or>
      ms_currentMemoryBytes (evictIfNeeded cf required st) + required \<le> cf_maxMemoryBytes cf"
    and "\<not> cf_evictionEnabled cf \<Longrightarrow> n = 0"
proof (cases "cf_evictionEnabled cf \<and> \<not> ms_currentMemoryBytes st + required \<le> cf_maxMemoryBytes cf")
  case False
  then have "evictIfNeeded cf required st = st"
    by (auto simp: evictIfNeeded_def)
  with False show ?thesis
    by (intro that [of 0]) (auto simp: objects_total_def)
next
  case True
  obtain ks tot where scan: "evict_scan (ms_objects st) (ms_currentMemoryBytes st) required (cf_maxMemoryBytes cf) 0 =
      (ks, tot)"
    by (cases "evict_scan (ms_objects st) (ms_currentMemoryBytes st) required (cf_maxMemoryBytes cf) 0")
  from evict_scan_spec [OF scan] obtain n where "ks = map fst (take n (ms_objects st))"
    and "tot = objects_total (take n (ms_objects st))"
    and "n < length (ms_objects st) \<longrightarrow> ms_currentMemoryBytes st - int tot + required \<le> cf_maxMemoryBytes cf"
    by auto
  with True show ?thesis
    using evict_keys [OF assms, of n] by (intro that [of n]) (auto simp: evictIfNeeded_def scan Let_def)
qed

lemma trackMemory_simps [simp]:
  "ms_objects (trackMemory d st) = ms_objects st"
  "ms_currentMemoryBytes (trackMemory d st) = ms_currentMemoryBytes st + d"
  by (simp_all add: trackMemory_def Let_def)

section \<open>What put does\<close>

definition old_size :: "ustring \<Rightarrow> memory_storage \<Rightarrow> nat" where
  "old_size key st = (case map_of (ms_objects st) key of Some ob \<Rightarrow> so_size ob | None \<Rightarrow> 0)"

definition put_object :: "(bytes \<Rightarrow> ustring) \<Rightarrow> nat \<Rightarrow> put_params \<Rightarrow> storage_object" where
  "put_object md5 now params =
     \<lparr>so_body = toBuffer (pp_body params),
      so_metadata = (case pp_metadata params of Some m \<Rightarrow> obj_spread [] m | None \<Rightarrow> []),
      so_contentType = (case pp_contentType params of
          Some t \<Rightarrow> if t \<noteq> [] then t else ju ''application/octet-stream''
        | None \<Rightarrow> ju ''application/octet-stream''),
      so_etag = md5 (toBuffer (pp_body params)), so_lastModified = now,
      so_size = length (toBuffer (pp_body params)),
      so_contentEncoding = pp_contentEncoding params,
      so_contentLength = (case pp_contentLength params of Some n \<Rightarrow> n | None \<Rightarrow> length (toBuffer (pp_body params)))\<rparr>"

definition room_made :: "storage_config \<Rightarrow> ustring \<Rightarrow> put_params \<Rightarrow> memory_storage \<Rightarrow> memory_storage" where
  "room_made cf key params st =
     evictIfNeeded cf (max 0 (int (length (toBuffer (pp_body params))) - int (old_size key st))) st"

lemma put_cases:
  obtains (rejected) e where "storage_put md5 cf now key params st = (Inl e, st)"
  | (stored) "storage_put md5 cf now key params st =
      (Inr (format_etag (md5 (toBuffer (pp_body params)))),
       trackMemory (int (length (toBuffer (pp_body params))) - int (old_size key st))
         ((room_made cf key params st)\<lparr>ms_objects :=
            AList.update key (put_object md5 now params) (ms_objects (room_made cf key params st))\<rparr>))"
    "validateLimits cf (pp_body params) (pp_metadata params) = None"
    "\<not> ifMatch_fails (map_of (ms_objects st) key) (pp_ifMatch params)"
    "\<not> ifNoneMatch_fails (map_of (ms_objects st) key) (pp_ifNoneMatch params)"
proof -
  have max: "(if d > 0 then d else 0) = max 0 d" for d :: int
    by simp
  show ?thesis
    using that unfolding storage_put_def room_made_def put_object_def old_size_def
    by (cases "validateLimits cf (pp_body params) (pp_metadata params)";
        cases "ifMatch_fails (map_of (ms_objects st) key) (pp_ifMatch params)";
        cases "ifNoneMatch_fails (map_of (ms_objects st) key) (pp_ifNoneMatch params)")
      (simp_all only: Let_def max option.case if_True if_False simp_thms)
qed

lemma room_made_spec:
  assumes "storage_inv md5 st"
  obtains n where "ms_objects (room_made cf key params st) = drop n (ms_objects st)"
    and "ms_currentMemoryBytes (room_made cf key params st) =
      ms_currentMemoryBytes st - int (objects_total (take n (ms_objects st)))"
    and "\<not> cf_evictionEnabled cf \<Longrightarrow> n = 0"
  using evictIfNeeded_spec [of st cf "max 0 (int (length (toBuffer (pp_body params))) - int (old_size key st))"]
    storage_inv_distinct [OF assms] unfolding room_made_def by blast

lemma object_ok_put: "object_ok md5 (put_object md5 now params)"
  by (simp add: object_ok_def put_object_def)

lemma storage_inv_put:
  assumes "storage_inv md5 st"
  shows "storage_inv md5 (snd (storage_put md5 cf now key params st))"
proof (cases rule: put_cases [of md5 cf now key params st])
  case stored
  obtain n where "ms_objects (room_made cf key params st) = drop n (ms_objects st)"
    using room_made_spec [OF assms] by blast
  then show ?thesis
    using assms by (simp add: stored(1) storage_inv_def objects_ok_update objects_ok_drop object_ok_put)
qed (use assms in simp)

lemma storage_inv_touch: "storage_inv md5 st \<Longrightarrow> storage_inv md5 (touchKey key st)"
  by (auto simp: touchKey_def storage_inv_def objects_ok_update objects_ok_delete objects_ok_lookup
      split: option.split)

lemma touch_map_of: "map_of (ms_objects (touchKey key st)) k = map_of (ms_objects st) k"
  by (simp add: touchKey_def map_of_update map_of_delete split: option.split)

lemma touch_total:
  assumes "distinct (map fst (ms_objects st))"
  shows "objects_total (ms_objects (touchKey key st)) = objects_total (ms_objects st)"
proof (cases "map_of (ms_objects st) key")
  case (Some ob)
  have "int (objects_total (ms_objects (touchKey key st))) = int (objects_total (ms_objects st))"
    using assms
    by (simp add: touchKey_def Some objects_total_update objects_total_delete map_of_delete)
  then show ?thesis
    by simp
qed (simp add: touchKey_def)

lemma storage_inv_delete: "storage_inv md5 st \<Longrightarrow> storage_inv md5 (delete_object key st)"
  by (simp add: delete_object_def storage_inv_def objects_ok_delete Let_def split: option.split)

lemma accounted_delete:
  assumes "storage_inv md5 st" and "accounted st"
  shows "accounted (delete_object key st)"
  using assms(2) objects_total_delete [OF storage_inv_distinct [OF assms(1)], of key]
  by (simp add: accounted_def delete_object_def Let_def split: option.splits)

section \<open>Pages\<close>

text \<open>A caller that follows the continuation tokens until the listing is no longer truncated.\<close>

fun list_pages :: "nat \<Rightarrow> list_params \<Rightarrow> memory_storage \<Rightarrow> storage_error + list_response list" where
  "list_pages 0 params st = Inr []"
| "list_pages (Suc fuel) params st = (case list_objects params st of
     Inl e \<Rightarrow> Inl e
   | Inr r \<Rightarrow> (case lr_next r of
       None \<Rightarrow> Inr [r]
     | Some token \<Rightarrow> map_sum id ((#) r) (list_pages fuel (params\<lparr>lp_continuationToken := token\<rparr>) st)))"

definition page_keys :: "list_response \<Rightarrow> ustring list" where
  "page_keys r = map fst (lr_contents r)"

lemma b64_no_space: "u \<in> set (b64_encode bs) \<Longrightarrow> \<not> trim_ws u"
proof -
  have char: "\<not> trim_ws (b64_char n)" for n
    by (simp add: trim_ws_def b64_char_def b64_code_less) (auto simp: b64_code_def)
  have pad: "\<not> trim_ws 61"
    by (simp add: trim_ws_def)
  show "u \<in> set (b64_encode bs) \<Longrightarrow> \<not> trim_ws u"
    by (induction bs rule: b64_encode.induct) (auto simp: char pad)
qed

lemma continuation_token_roundtrip:
  "well_formed k \<Longrightarrow> k \<noteq> [] \<Longrightarrow> decodeContinuationToken (encodeContinuationToken k) = Inr k"
  using b64_no_space
  by (simp add: decodeContinuationToken_def encodeContinuationToken_def js_trim_id b64_roundtrip utf8_roundtrip)

lemma encode_token_nonempty: "well_formed k \<Longrightarrow> k \<noteq> [] \<Longrightarrow> encodeContinuationToken k \<noteq> []"
  using continuation_token_roundtrip [of k]
  by (auto simp: decodeContinuationToken_def js_trim_def b64_decode_def utf8_decode_def List.map_filter_simps)

lemma list_loop_no_delimiter:
  assumes "ps_processed pg \<le> m" and "\<not> ps_more pg"
  shows "ps_contents (list_loop p [] m ks pg) = ps_contents pg @ take (m - ps_processed pg) ks \<and>
    ps_last (list_loop p [] m ks pg) =
      (if take (m - ps_processed pg) ks = [] then ps_last pg else Some (last (take (m - ps_processed pg) ks))) \<and>
    ps_more (list_loop p [] m ks pg) = (length ks > m - ps_processed pg)"
  using assms
proof (induction ks arbitrary: pg)
  case (Cons k ks)
  show ?case
  proof (cases "ps_processed pg \<ge> m")
    case False
    then have eq: "m - ps_processed pg = Suc (m - Suc (ps_processed pg))"
      by simp
    show ?thesis
      using Cons.IH [of "pg\<lparr>ps_contents := ps_contents pg @ [k], ps_processed := Suc (ps_processed pg),
          ps_last := Some k\<rparr>"] Cons.prems False
      by (simp add: eq)
  qed (use Cons.prems in simp)
qed simp

definition matching_keys :: "ustring \<Rightarrow> memory_storage \<Rightarrow> ustring list" where
  "matching_keys prefix st = filter (\<lambda>k. starts_with k prefix) (sort (map fst (ms_objects st)))"

lemma selected_keys_eq:
  "selected_keys params after st = (case after of
     Some a \<Rightarrow> if a \<noteq> [] then filter (\<lambda>k. a < k) (matching_keys (lp_prefix params) st)
       else matching_keys (lp_prefix params) st
   | None \<Rightarrow> matching_keys (lp_prefix params) st)"
  by (simp add: selected_keys_def matching_keys_def Let_def split: option.split)

lemma matching_keys_sorted:
  "distinct (map fst (ms_objects st)) \<Longrightarrow> sorted (matching_keys prefix st) \<and> distinct (matching_keys prefix st)"
  by (simp add: matching_keys_def sorted_wrt_filter)

lemma filter_after_page:
  fixes ks :: "'a :: linorder list"
  assumes "sorted ks" and "distinct ks" and "0 < m" and "m < length ks"
  shows "filter (\<lambda>k. last (take m ks) < k) ks = drop m ks"
proof -
  have strict: "sorted_wrt (<) ks"
    using assms(1,2) by (simp add: strict_sorted_iff)
  have last: "last (take m ks) = ks ! (m - 1)"
    using assms(3,4) by (subst last_conv_nth) (auto simp: min_def)
  have "filter (\<lambda>k. ks ! (m - 1) < k) (take m ks) = []"
  proof -
    have "\<not> ks ! (m - 1) < k" if mem: "k \<in> set (take m ks)" for k
    proof -
      from mem obtain i where "i < length (take m ks)" and "take m ks ! i = k"
        unfolding in_set_conv_nth by blast
      then have i: "i < m" and k: "k = ks ! i"
        by auto
      then have "ks ! i \<le> ks ! (m - 1)"
        using assms(1,4) by (intro sorted_nth_mono) auto
      then show ?thesis
        by (simp add: k)
    qed
    then show ?thesis
      by (simp add: filter_empty_conv)
  qed
  moreover have "filter (\<lambda>k. ks ! (m - 1) < k) (drop m ks) = drop m ks"
  proof -
    have "ks ! (m - 1) < k" if mem: "k \<in> set (drop m ks)" for k
    proof -
      from mem obtain i where "i < length (drop m ks)" and "drop m ks ! i = k"
        unfolding in_set_conv_nth by blast
      then show ?thesis
        using sorted_wrt_nth_less [OF strict, of "m - 1" "m + i"] assms(3) by auto
    qed
    then show ?thesis
      by (simp add: filter_id_conv)
  qed
  ultimately show ?thesis
    unfolding last by (metis append_Nil append_take_drop_id filter_append)
qed

lemma page_no_delimiter:
  assumes "lp_delimiter params = []" and "0 < lp_maxKeys params"
    and "lp_continuationToken params = [] \<Longrightarrow> after = (if lp_startAfter params \<noteq> [] then Some (lp_startAfter params) else None)"
    and "lp_continuationToken params \<noteq> [] \<Longrightarrow>
      \<exists>a. decodeContinuationToken (lp_continuationToken params) = Inr a \<and> after = Some a"
    and "\<forall>k \<in> fst ` set (ms_objects st). k \<noteq> []"
  defines "ks \<equiv> selected_keys params after st" and "m \<equiv> lp_maxKeys params"
  obtains r where "list_objects params st = Inr r" and "page_keys r = take m ks"
    and "lr_next r = (if m < length ks then Some (encodeContinuationToken (last (take m ks))) else None)"
proof -
  let ?pg = "list_loop (lp_prefix params) [] m ks
    \<lparr>ps_contents = [], ps_prefixes = [], ps_processed = 0, ps_last = None, ps_more = False\<rparr>"
  have pg: "ps_contents ?pg = take m ks" "ps_more ?pg = (m < length ks)"
    "ps_last ?pg = (if take m ks = [] then None else Some (last (take m ks)))"
    using list_loop_no_delimiter [of "\<lparr>ps_contents = [], ps_prefixes = [], ps_processed = 0, ps_last = None,
        ps_more = False\<rparr>" m "lp_prefix params" ks] by simp_all
  have nonempty: "last (take m ks) \<noteq> []" if "m < length ks"
  proof -
    have "take m ks \<noteq> []"
      using that assms(2) by (auto simp: m_def)
    then have "last (take m ks) \<in> set ks"
      by (meson in_set_takeD last_in_set)
    then have "last (take m ks) \<in> fst ` set (ms_objects st)"
      by (auto simp: ks_def selected_keys_eq matching_keys_def split: option.splits if_splits)
    with assms(5) show ?thesis
      by blast
  qed
  have fst_entry: "map (fst \<circ> (\<lambda>k. case map_of (ms_objects st) k of
      Some ob \<Rightarrow> (k, so_size ob, so_lastModified ob, format_etag (so_etag ob)) | None \<Rightarrow> (k, 0, 0, []))) xs = xs" for xs
    by (induction xs) (auto split: option.split)
  have "(if lp_continuationToken params \<noteq> []
      then map_sum id Some (decodeContinuationToken (lp_continuationToken params))
      else Inr (if lp_startAfter params \<noteq> [] then Some (lp_startAfter params) else None)) = Inr after"
    using assms(3,4) by (cases "lp_continuationToken params = []") auto
  then show ?thesis
    using that pg nonempty assms(1,2)
    unfolding list_objects_def page_keys_def ks_def m_def
    by (auto simp: fst_entry Let_def split: if_splits)
qed

lemma pages_no_delimiter:
  assumes "lp_delimiter params = []" and "0 < lp_maxKeys params"
    and "lp_continuationToken params = [] \<Longrightarrow> after = (if lp_startAfter params \<noteq> [] then Some (lp_startAfter params) else None)"
    and "lp_continuationToken params \<noteq> [] \<Longrightarrow>
      \<exists>a. decodeContinuationToken (lp_continuationToken params) = Inr a \<and> after = Some a"
    and keys: "\<forall>k \<in> fst ` set (ms_objects st). k \<noteq> [] \<and> well_formed k"
    and dist: "distinct (map fst (ms_objects st))"
    and "length (selected_keys params after st) < fuel"
  shows "\<exists>rs. list_pages fuel params st = Inr rs \<and>
    concat (map page_keys rs) = selected_keys params after st \<and>
    (\<forall>r \<in> set rs. length (page_keys r) \<le> lp_maxKeys params)"
  using assms(1-4,7)
proof (induction fuel arbitrary: params after)
  case (Suc fuel)
  let ?ks = "selected_keys params after st" and ?m = "lp_maxKeys params"
  have "\<forall>k \<in> fst ` set (ms_objects st). k \<noteq> []"
    using keys by blast
  from page_no_delimiter [OF Suc.prems(1-4) this] obtain r
    where r: "list_objects params st = Inr r" "page_keys r = take ?m ?ks"
      and token: "lr_next r = (if ?m < length ?ks then Some (encodeContinuationToken (last (take ?m ?ks))) else None)"
    by blast
  show ?case
  proof (cases "?m < length ?ks")
    case False
    with r token show ?thesis
      by simp
  next
    case True
    let ?last = "last (take ?m ?ks)"
    let ?params = "params\<lparr>lp_continuationToken := encodeContinuationToken ?last\<rparr>"
    have "take ?m ?ks \<noteq> []"
      using True Suc.prems(2) by auto
    then have "?last \<in> set ?ks"
      by (meson in_set_takeD last_in_set)
    then have in_objects: "?last \<in> set (matching_keys (lp_prefix params) st)"
      by (auto simp: selected_keys_eq split: option.splits if_splits)
    then have ok: "?last \<noteq> []" "well_formed ?last"
      using keys by (auto simp: matching_keys_def)
    have sorted: "sorted ?ks" "distinct ?ks"
      using matching_keys_sorted [OF dist, of "lp_prefix params"]
      by (auto simp: selected_keys_eq sorted_wrt_filter split: option.split)
    have "filter (\<lambda>k. ?last < k) (matching_keys (lp_prefix params) st) = filter (\<lambda>k. ?last < k) ?ks"
      using \<open>?last \<in> set ?ks\<close>
      by (auto simp: selected_keys_eq split: option.splits if_splits intro!: filter_cong
          dest: order.strict_trans)
    then have next_keys: "selected_keys ?params (Some ?last) st = drop ?m ?ks"
      using ok filter_after_page [OF sorted Suc.prems(2) True] by (simp add: selected_keys_eq)
    have "\<exists>rs. list_pages fuel ?params st = Inr rs \<and>
        concat (map page_keys rs) = selected_keys ?params (Some ?last) st \<and>
        (\<forall>r \<in> set rs. length (page_keys r) \<le> lp_maxKeys ?params)"
      using Suc.prems True ok next_keys
      by (intro Suc.IH) (auto simp: continuation_token_roundtrip encode_token_nonempty)
    then obtain rs where "list_pages fuel ?params st = Inr rs"
      and "concat (map page_keys rs) = drop ?m ?ks" and "\<forall>r \<in> set rs. length (page_keys r) \<le> ?m"
      by (auto simp: next_keys)
    with r token True show ?thesis
      by simp
  qed
qed simp

section \<open>Sequences of operations\<close>

datatype storage_op =
    OpPut nat ustring put_params
  | OpGet ustring
  | OpHead ustring
  | OpCopy nat ustring ustring copy_params
  | OpDelete ustring
  | OpDeleteMany "ustring list"
  | OpClear
  | OpResetStats

fun storage_step ::
  "(bytes \<Rightarrow> ustring) \<Rightarrow> storage_config \<Rightarrow> storage_op \<Rightarrow> memory_storage \<Rightarrow> memory_storage" where
  "storage_step md5 cf (OpPut now key params) st = snd (storage_put md5 cf now key params st)"
| "storage_step md5 cf (OpGet key) st = snd (storage_get key st)"
| "storage_step md5 cf (OpHead key) st = snd (storage_head key st)"
| "storage_step md5 cf (OpCopy now src dst params) st = snd (storage_copy md5 cf now src dst params st)"
| "storage_step md5 cf (OpDelete key) st = delete_object key st"
| "storage_step md5 cf (OpDeleteMany keys) st = snd (deleteMultiple keys st)"
| "storage_step md5 cf OpClear st = storage_clear st"
| "storage_step md5 cf OpResetStats st = resetStats st"

text \<open>The specification: a finite map from keys to objects.\<close>

type_synonym object_map = "ustring \<Rightarrow> storage_object option"

definition map_put ::
  "(bytes \<Rightarrow> ustring) \<Rightarrow> storage_config \<Rightarrow> nat \<Rightarrow> ustring \<Rightarrow> put_params \<Rightarrow> object_map \<Rightarrow> object_map" where
  "map_put md5 cf now key params m =
     (if validateLimits cf (pp_body params) (pp_metadata params) \<noteq> None \<or>
         ifMatch_fails (m key) (pp_ifMatch params) \<or> ifNoneMatch_fails (m key) (pp_ifNoneMatch params)
      then m else m(key \<mapsto> put_object md5 now params))"

definition copied :: "storage_object \<Rightarrow> copy_params \<Rightarrow> put_params" where
  "copied source params =
     (let own = obj_spread [] (so_metadata source) in
      \<lparr>pp_body = BufferBody (so_body source),
       pp_metadata = Some (case cp_metadata params of
          None \<Rightarrow> own | Some m \<Rightarrow> if cp_replace params then m else obj_spread own m),
       pp_contentType = Some (case cp_contentType params of
          Some t \<Rightarrow> if t \<noteq> [] then t else so_contentType source | None \<Rightarrow> so_contentType source),
       pp_contentEncoding = so_contentEncoding source, pp_contentLength = None,
       pp_ifMatch = None, pp_ifNoneMatch = None\<rparr>)"

fun map_step :: "(bytes \<Rightarrow> ustring) \<Rightarrow> storage_config \<Rightarrow> storage_op \<Rightarrow> object_map \<Rightarrow> object_map" where
  "map_step md5 cf (OpPut now key params) m = map_put md5 cf now key params m"
| "map_step md5 cf (OpCopy now src dst params) m = (case m src of
     None \<Rightarrow> m | Some source \<Rightarrow> map_put md5 cf now dst (copied source params) m)"
| "map_step md5 cf (OpDelete key) m = m(key := None)"
| "map_step md5 cf (OpDeleteMany keys) m = fold (\<lambda>k m. m(k := None)) keys m"
| "map_step md5 cf OpClear m = Map.empty"
| "map_step md5 cf _ m = m"

lemma storage_copy_eq:
  "storage_copy md5 cf now src dst params st = (case map_of (ms_objects st) src of
     None \<Rightarrow> (Inl (NoSuchKey src), st)
   | Some source \<Rightarrow> storage_put md5 cf now dst (copied source params) st)"
  by (simp add: storage_copy_def copied_def Let_def split: option.split)

lemma room_made_no_eviction: "\<not> cf_evictionEnabled cf \<Longrightarrow> room_made cf key params st = st"
  by (simp add: room_made_def evictIfNeeded_def)

lemma put_map:
  assumes "\<not> cf_evictionEnabled cf"
  shows "map_of (ms_objects (snd (storage_put md5 cf now key params st))) =
    map_put md5 cf now key params (map_of (ms_objects st))"
proof (cases rule: put_cases [of md5 cf now key params st])
  case (rejected e)
  then have "validateLimits cf (pp_body params) (pp_metadata params) \<noteq> None \<or>
      ifMatch_fails (map_of (ms_objects st) key) (pp_ifMatch params) \<or>
      ifNoneMatch_fails (map_of (ms_objects st) key) (pp_ifNoneMatch params)"
    by (auto simp: storage_put_def Let_def split: option.splits if_splits)
  with rejected show ?thesis
    by (simp add: map_put_def)
next
  case stored
  then show ?thesis
    by (auto simp: map_put_def room_made_no_eviction [OF assms] map_of_update)
qed

lemma delete_map: "map_of (ms_objects (delete_object key st)) = (map_of (ms_objects st))(key := None)"
  by (auto simp: delete_object_def map_of_delete Let_def split: option.split)

lemma step_map:
  assumes "\<not> cf_evictionEnabled cf"
  shows "map_of (ms_objects (storage_step md5 cf op st)) = map_step md5 cf op (map_of (ms_objects st))"
proof (cases op)
  case (OpDeleteMany keys)
  have "map_of (ms_objects (fold delete_object keys st)) = fold (\<lambda>k m. m(k := None)) keys (map_of (ms_objects st))"
    for st
    by (induction keys arbitrary: st) (simp_all add: delete_map)
  then show ?thesis
    by (simp add: OpDeleteMany deleteMultiple_def)
qed (auto simp: put_map [OF assms] storage_get_def storage_head_def touch_map_of storage_copy_eq delete_map
    storage_clear_def new_storage_def resetStats_def split: option.split)

lemma storage_inv_new: "storage_inv md5 new_storage"
  by (simp add: new_storage_def storage_inv_def objects_ok_def)

lemma storage_inv_reset: "storage_inv md5 (resetStats st) = storage_inv md5 st"
  by (simp add: resetStats_def storage_inv_def)

lemma storage_inv_step:
  assumes "storage_inv md5 st"
  shows "storage_inv md5 (storage_step md5 cf op st)"
proof (cases op)
  case (OpDeleteMany keys)
  have "storage_inv md5 (fold delete_object keys st)"
    using assms by (induction keys arbitrary: st) (simp_all add: storage_inv_delete)
  then show ?thesis
    by (simp add: OpDeleteMany deleteMultiple_def)
qed (use assms in \<open>auto simp: storage_inv_put storage_get_def storage_head_def storage_copy_eq storage_inv_touch
    storage_inv_delete storage_clear_def storage_inv_new storage_inv_reset split: option.split\<close>)

lemma put_effect:
  assumes "storage_inv md5 st" and "accounted st"
    and "storage_put md5 cf now key params st = (result, st')"
  shows "(case result of
      Inl e \<Rightarrow> st' = st
    | Inr etag \<Rightarrow> \<exists>n. etag = format_etag (md5 (toBuffer (pp_body params))) \<and>
        ms_objects st' = AList.update key (put_object md5 now params) (drop n (ms_objects st)) \<and>
        ms_currentMemoryBytes st' = int (objects_total (ms_objects st')) -
          (if key \<in> fst ` set (take n (ms_objects st)) then int (old_size key st) else 0))"
proof (cases rule: put_cases [of md5 cf now key params st])
  case (rejected e)
  with assms(3) show ?thesis
    by auto
next
  case stored
  obtain n where n: "ms_objects (room_made cf key params st) = drop n (ms_objects st)"
    "ms_currentMemoryBytes (room_made cf key params st) =
      ms_currentMemoryBytes st - int (objects_total (take n (ms_objects st)))"
    using room_made_spec [OF assms(1)] by blast
  let ?os = "ms_objects st"
  have total: "objects_total ?os = objects_total (take n ?os) + objects_total (drop n ?os)"
    by (metis append_take_drop_id objects_total_append)
  have dist: "fst ` set (take n ?os) \<inter> fst ` set (drop n ?os) = {}"
    using storage_inv_distinct [OF assms(1)]
    by (metis append_take_drop_id distinct_append map_append set_map)
  have lookup: "map_of (drop n ?os) key = (if key \<in> fst ` set (take n ?os) then None else map_of ?os key)"
  proof (cases "key \<in> fst ` set (take n ?os)")
    case True
    with dist have "key \<notin> fst ` set (drop n ?os)"
      by blast
    with True show ?thesis
      by (simp add: map_of_eq_None_iff)
  next
    case False
    then have "map_of (take n ?os) key = None"
      by (simp add: map_of_eq_None_iff)
    then have "map_of (take n ?os @ drop n ?os) key = map_of (drop n ?os) key"
      by (simp add: map_add_def del: append_take_drop_id)
    with False show ?thesis
      by simp
  qed
  have st': "st' = trackMemory (int (length (toBuffer (pp_body params))) - int (old_size key st))
      ((room_made cf key params st)\<lparr>ms_objects := AList.update key (put_object md5 now params) (drop n ?os)\<rparr>)"
    and result: "result = Inr (format_etag (md5 (toBuffer (pp_body params))))"
    using assms(3) by (simp_all add: stored(1) n(1))
  have objs: "ms_objects st' = AList.update key (put_object md5 now params) (drop n ?os)"
    by (simp add: st')
  have cur: "ms_currentMemoryBytes st' = int (objects_total (drop n ?os)) +
      int (length (toBuffer (pp_body params))) - int (old_size key st)"
    using assms(2) total by (simp add: st' n(2) accounted_def)
  have new: "so_size (put_object md5 now params) = length (toBuffer (pp_body params))"
    by (simp add: put_object_def)
  have "ms_currentMemoryBytes st' = int (objects_total (ms_objects st')) -
      (if key \<in> fst ` set (take n ?os) then int (old_size key st) else 0)"
    unfolding cur objs objects_total_update new lookup
    by (cases "key \<in> fst ` set (take n ?os)") (simp_all add: old_size_def split: option.split)
  then show ?thesis
    unfolding result sum.case objs by blast
qed

lemma accounted_put:
  assumes "storage_inv md5 st" and "accounted st" and "\<not> cf_evictionEnabled cf"
  shows "accounted (snd (storage_put md5 cf now key params st))"
proof (cases rule: put_cases [of md5 cf now key params st])
  case stored
  then show ?thesis
    using assms(2)
    by (auto simp: accounted_def room_made_no_eviction [OF assms(3)] objects_total_update old_size_def
        put_object_def split: option.split)
qed (use assms(2) in simp)

lemma accounted_touch: "storage_inv md5 st \<Longrightarrow> accounted st \<Longrightarrow> accounted (touchKey key st)"
  using touch_total [OF storage_inv_distinct] by (simp add: accounted_def touchKey_def split: option.split)

lemma accounted_new: "accounted new_storage"
  by (simp add: accounted_def new_storage_def objects_total_def)

lemma accounted_reset: "accounted (resetStats st) = accounted st"
  by (simp add: accounted_def resetStats_def)

lemma accounted_step:
  assumes "storage_inv md5 st" and "accounted st" and "\<not> cf_evictionEnabled cf"
  shows "accounted (storage_step md5 cf op st)"
proof (cases op)
  case (OpDeleteMany keys)
  have "storage_inv md5 st \<Longrightarrow> accounted st \<Longrightarrow> accounted (fold delete_object keys st)" for st
    by (induction keys arbitrary: st) (simp_all add: storage_inv_delete accounted_delete)
  with assms show ?thesis
    by (simp add: OpDeleteMany deleteMultiple_def)
qed (use assms in \<open>auto simp: accounted_put storage_get_def storage_head_def storage_copy_eq accounted_touch
    accounted_delete storage_clear_def accounted_new accounted_reset split: option.split\<close>)

definition storage_run ::
  "(bytes \<Rightarrow> ustring) \<Rightarrow> storage_config \<Rightarrow> storage_op list \<Rightarrow> memory_storage \<Rightarrow> memory_storage" where
  "storage_run md5 cf ops st = fold (storage_step md5 cf) ops st"

lemma storage_inv_run: "storage_inv md5 st \<Longrightarrow> storage_inv md5 (storage_run md5 cf ops st)"
  unfolding storage_run_def by (induction ops arbitrary: st) (simp_all add: storage_inv_step)

section \<open>Properties\<close>

text \<open>
  MemoryStorage.put. A successful put stores the object under its key, keeps every other
  object but the ones evicted from the front of the order, and moves the memory counter by the
  change in stored bytes, short by the size of the old object when that object was itself
  evicted to make room for its replacement. A put that fails changes nothing.
\<close>

theorem put_moves_counter:
  assumes "accounted (storage_run md5 cf ops new_storage)"
    and "storage_put md5 cf now key params (storage_run md5 cf ops new_storage) = (result, st')"
  shows "(case result of
      Inl e \<Rightarrow> st' = storage_run md5 cf ops new_storage
    | Inr etag \<Rightarrow> \<exists>n. etag = format_etag (md5 (toBuffer (pp_body params))) \<and>
        ms_objects st' = AList.update key (put_object md5 now params)
          (drop n (ms_objects (storage_run md5 cf ops new_storage))) \<and>
        ms_currentMemoryBytes st' = int (objects_total (ms_objects st')) -
          (if key \<in> fst ` set (take n (ms_objects (storage_run md5 cf ops new_storage)))
           then int (old_size key (storage_run md5 cf ops new_storage)) else 0))"
  using put_effect [OF storage_inv_run [OF storage_inv_new] assms] .

text \<open>
  C2 (MemoryStorage). With eviction off, every sequence of operations on a new storage behaves
  as the same operations on a finite map from keys to objects (conditional puts, limits and
  copies included), keeps sizes and entity tags true to the bodies, and keeps the memory
  counter equal to the bytes stored.
\<close>

theorem storage_refines_map:
  assumes "\<not> cf_evictionEnabled cf"
  shows "map_of (ms_objects (storage_run md5 cf ops new_storage)) = fold (map_step md5 cf) ops Map.empty \<and>
    storage_inv md5 (storage_run md5 cf ops new_storage) \<and>
    ms_currentMemoryBytes (storage_run md5 cf ops new_storage) =
      int (objects_total (ms_objects (storage_run md5 cf ops new_storage)))"
proof -
  have "map_of (ms_objects (storage_run md5 cf ops st)) = fold (map_step md5 cf) ops (map_of (ms_objects st)) \<and>
      accounted (storage_run md5 cf ops st)" if "storage_inv md5 st" and "accounted st" for st
    using that unfolding storage_run_def
    by (induction ops arbitrary: st) (simp_all add: step_map [OF assms] storage_inv_step accounted_step [OF _ _ assms])
  from this [OF storage_inv_new] storage_inv_run [OF storage_inv_new] show ?thesis
    using accounted_new by (simp add: accounted_def) (simp add: new_storage_def)
qed

text \<open>The parameters of the examples: an object of the given size, a store of ten bytes.\<close>

definition sized :: "nat \<Rightarrow> put_params" where
  "sized n = \<lparr>pp_body = BufferBody (replicate n 0), pp_metadata = None, pp_contentType = None,
     pp_contentEncoding = None, pp_contentLength = None, pp_ifMatch = None, pp_ifNoneMatch = None\<rparr>"

definition ten_bytes :: "bool \<Rightarrow> storage_config" where
  "ten_bytes eviction = \<lparr>cf_bucket = ju ''b'', cf_enforceLimits = False, cf_metadataLimit = 2048,
     cf_maxObjectSize = 100, cf_maxMemoryBytes = 10, cf_evictionEnabled = eviction\<rparr>"

lemmas put_example = storage_put_def sized_def ten_bytes_def validateLimits_def ifMatch_fails_def
  ifNoneMatch_fails_def evictIfNeeded_def evict_key_def trackMemory_def objects_total_def Let_def

theorem put_moves_counter_witness:
  "\<exists>result st'. storage_put (\<lambda>b. []) (ten_bytes True) 0 [98] (sized 4) (storage_run (\<lambda>b. []) (ten_bytes True) [] new_storage) =
      (result, st') \<and> ms_currentMemoryBytes st' = int (objects_total (ms_objects st'))"
proof -
  have acc: "accounted (storage_run (\<lambda>b. []) (ten_bytes True) [] new_storage)"
    by (simp add: storage_run_def accounted_new)
  obtain result st' where r: "storage_put (\<lambda>b. []) (ten_bytes True) 0 [98] (sized 4)
      (storage_run (\<lambda>b. []) (ten_bytes True) [] new_storage) = (result, st')"
    by fastforce
  moreover have "\<exists>e. result = Inr e"
    using r by (auto simp: storage_run_def new_storage_def put_example)
  ultimately show ?thesis
    using put_moves_counter [OF acc r] by (auto simp: storage_run_def new_storage_def)
qed

theorem storage_refines_map_witness:
  "map_of (ms_objects (storage_run (\<lambda>b. []) (ten_bytes False)
     [OpPut 0 [97] (sized 6), OpPut 1 [98] (sized 9), OpGet [97], OpDelete [97]] new_storage)) =
   [[98] \<mapsto> put_object (\<lambda>b. []) 1 (sized 9)]"
  by (subst storage_refines_map [THEN conjunct1])
    (simp_all add: ten_bytes_def map_put_def validateLimits_def ifMatch_fails_def ifNoneMatch_fails_def sized_def)

text \<open>
  C39 (MemoryStorage eviction). With eviction enabled, in a store that satisfies \<open>storage_inv\<close> and
  whose byte counter equals the bytes it stores (\<open>accounted\<close>; overwriting can break this, see
  \<open>overwrite_exceeds_memory\<close>), a put that succeeds under a key the store does not have, of a body no
  larger than the limit, leaves the bytes stored within the memory limit and the counter right.
\<close>

theorem put_within_memory:
  assumes "storage_inv md5 st" and "accounted st" and "cf_evictionEnabled cf"
    and "key \<notin> fst ` set (ms_objects st)"
    and "int (length (toBuffer (pp_body params))) \<le> cf_maxMemoryBytes cf"
    and "storage_put md5 cf now key params st = (Inr etag, st')"
  shows "int (objects_total (ms_objects st')) \<le> cf_maxMemoryBytes cf \<and> accounted st'"
proof (cases rule: put_cases [of md5 cf now key params st])
  case stored
  let ?os = "ms_objects st" and ?size = "length (toBuffer (pp_body params))"
  have old: "old_size key st = 0"
    using assms(4) by (auto simp: old_size_def split: option.split dest: map_of_SomeD intro: rev_image_eqI)
  obtain n where n: "ms_objects (room_made cf key params st) = drop n ?os"
    and cur: "ms_currentMemoryBytes (room_made cf key params st) =
      ms_currentMemoryBytes st - int (objects_total (take n ?os))"
    and room: "n < length ?os \<or> n = 0 \<Longrightarrow> n = 0 \<and> ?os = [] \<or>
      ms_currentMemoryBytes (room_made cf key params st) + int ?size \<le> cf_maxMemoryBytes cf"
    using evictIfNeeded_spec [OF storage_inv_distinct [OF assms(1)], of cf "int ?size"] assms(3)
    unfolding room_made_def old by simp metis
  have total: "objects_total ?os = objects_total (take n ?os) + objects_total (drop n ?os)"
    by (metis append_take_drop_id objects_total_append)
  have "key \<notin> fst ` set (drop n ?os)"
    using assms(4) by (auto dest: in_set_dropD)
  then have new: "objects_total (ms_objects st') = objects_total (drop n ?os) + ?size"
    using assms(6) by (auto simp: stored(1) n update_fresh objects_total_append put_object_def objects_total_def)
  have "objects_total (drop n ?os) = 0" if "n \<ge> length ?os"
    using that by (simp add: objects_total_def)
  then have "int (objects_total (ms_objects st')) \<le> cf_maxMemoryBytes cf"
    using room cur total new assms(2,5) by (cases "n < length ?os") (auto simp: accounted_def objects_total_def)
  moreover have "accounted st'"
    using assms(2,6) cur total new by (auto simp: accounted_def stored(1) n old)
  ultimately show ?thesis
    by simp
qed (use assms(6) in simp)

theorem put_within_memory_witness:
  "\<exists>etag st'. storage_put (\<lambda>b. []) (ten_bytes True) 0 [98] (sized 10) new_storage = (Inr etag, st') \<and>
     int (objects_total (ms_objects st')) \<le> cf_maxMemoryBytes (ten_bytes True) \<and> accounted st'"
proof -
  obtain st' where r: "storage_put (\<lambda>b. []) (ten_bytes True) 0 [98] (sized 10) new_storage = (Inr (format_etag []), st')"
    by (simp add: new_storage_def put_example)
  moreover from put_within_memory [OF storage_inv_new accounted_new _ _ _ r]
  have "int (objects_total (ms_objects st')) \<le> cf_maxMemoryBytes (ten_bytes True) \<and> accounted st'"
    by (simp add: ten_bytes_def sized_def new_storage_def)
  ultimately show ?thesis
    by blast
qed

text \<open>
  MemoryStorage eviction. Overwriting the oldest object breaks the accounting: in a store
  of ten bytes that holds \<open>a\<close> (6 bytes) and \<open>b\<close> (4 bytes), replacing \<open>a\<close> by 8 bytes evicts
  the old \<open>a\<close>, counts its bytes out twice, and leaves 12 bytes stored with a counter of 6.
\<close>

theorem overwrite_exceeds_memory:
  "let st = storage_run md5 (ten_bytes True)
       [OpPut 0 [97] (sized 6), OpPut 1 [98] (sized 4), OpPut 2 [97] (sized 8)] new_storage
   in objects_total (ms_objects st) = 12 \<and> ms_currentMemoryBytes st = 6 \<and>
      cf_maxMemoryBytes (ten_bytes True) = 10"
  by (simp add: storage_run_def new_storage_def put_example)

text \<open>
  C30 (conditional puts). Within the limits, a put with \<open>If-None-Match: *\<close> succeeds exactly when
  the key is free, and a put with \<open>If-Match\<close> set to the entity tag that an earlier response
  carried succeeds exactly when the object is there with that tag; a put that is refused leaves
  the state as it was.
\<close>

lemma normalize_formatted_etag:
  assumes "e \<noteq> []" and "\<forall>u \<in> set e. \<not> trim_ws u \<and> u \<noteq> 44 \<and> \<not> is_quote u"
  shows "normalizeEtagHeader (Some (format_etag e)) = [e]"
proof -
  have "44 \<notin> set (format_etag e)" and trim: "\<forall>u \<in> set (format_etag e). \<not> trim_ws u"
    using assms(2) by (auto simp: format_etag_def trim_ws_def)
  then have "normalizeEtagHeader (Some (format_etag e)) = [strip_quotes (strip_weak (format_etag e))]"
    by (simp add: normalizeEtagHeader_def split_on_no_separator js_trim_id) (simp add: format_etag_def)
  also have "strip_weak (format_etag e) = format_etag e"
    by (simp add: strip_weak_def format_etag_def ju_def)
  also have "strip_quotes (format_etag e) = e"
    by (simp add: strip_quotes_def format_etag_def is_quote_def Let_def)
  finally show ?thesis .
qed

theorem conditional_put:
  assumes "validateLimits cf (pp_body params) (pp_metadata params) = None"
    and "e \<noteq> []" and "\<forall>u \<in> set e. \<not> trim_ws u \<and> u \<noteq> 44 \<and> \<not> is_quote u"
  shows "(\<exists>etag. fst (storage_put md5 cf now key (params\<lparr>pp_ifMatch := None, pp_ifNoneMatch := Some (ju ''*'')\<rparr>) st) =
      Inr etag) = (\<not> exists_key key st) \<and>
    (\<exists>etag. fst (storage_put md5 cf now key (params\<lparr>pp_ifMatch := Some (format_etag e), pp_ifNoneMatch := None\<rparr>) st) =
      Inr etag) = (\<exists>ob. map_of (ms_objects st) key = Some ob \<and> so_etag ob = e) \<and>
    (\<forall>err. fst (storage_put md5 cf now key params st) = Inl err \<longrightarrow>
      snd (storage_put md5 cf now key params st) = st)"
proof (intro conjI)
  show "(\<exists>etag. fst (storage_put md5 cf now key (params\<lparr>pp_ifMatch := None, pp_ifNoneMatch := Some (ju ''*'')\<rparr>) st) =
      Inr etag) = (\<not> exists_key key st)"
    using assms(1) map_of_eq_None_iff [of "ms_objects st" key]
    by (auto simp: storage_put_def ifMatch_fails_def ifNoneMatch_fails_def exists_key_def Let_def
        split: option.split)
  show "(\<exists>etag. fst (storage_put md5 cf now key (params\<lparr>pp_ifMatch := Some (format_etag e), pp_ifNoneMatch := None\<rparr>) st) =
      Inr etag) = (\<exists>ob. map_of (ms_objects st) key = Some ob \<and> so_etag ob = e)"
    using assms(1,2) normalize_formatted_etag [OF assms(2,3)]
    by (auto simp: storage_put_def ifMatch_fails_def ifNoneMatch_fails_def Let_def split: option.split)
  show "\<forall>err. fst (storage_put md5 cf now key params st) = Inl err \<longrightarrow>
      snd (storage_put md5 cf now key params st) = st"
    by (cases rule: put_cases [of md5 cf now key params st]) simp_all
qed

theorem conditional_put_witness:
  "(\<exists>etag. fst (storage_put (\<lambda>b. [101]) (ten_bytes False) 0 [97]
      ((sized 1)\<lparr>pp_ifMatch := None, pp_ifNoneMatch := Some (ju ''*'')\<rparr>) new_storage) = Inr etag) \<and>
   \<not> (\<exists>etag. fst (storage_put (\<lambda>b. [101]) (ten_bytes False) 0 [97]
      ((sized 1)\<lparr>pp_ifMatch := Some (format_etag [101]), pp_ifNoneMatch := None\<rparr>) new_storage) = Inr etag)"
proof -
  have "validateLimits (ten_bytes False) (pp_body (sized 1)) (pp_metadata (sized 1)) = None"
    by (simp add: put_example)
  moreover have "\<forall>u \<in> set [101 :: 16 word]. \<not> trim_ws u \<and> u \<noteq> 44 \<and> \<not> is_quote u"
    by (simp add: trim_ws_def is_quote_def)
  ultimately show ?thesis
    using conditional_put [of "ten_bytes False" "sized 1" "[101]" "\<lambda>b. [101]" 0 "[97]" new_storage]
    by (simp add: exists_key_def new_storage_def)
qed

text \<open>
  C19 (listing). Following the continuation tokens from the first page of a listing without a
  delimiter returns every matching key exactly once, in order, in pages of at most \<open>maxKeys\<close>,
  and ends within one page more than there are objects.
\<close>

theorem pagination_complete:
  assumes "distinct (map fst (ms_objects st))"
    and "\<forall>k \<in> fst ` set (ms_objects st). k \<noteq> [] \<and> well_formed k"
    and "0 < m"
  shows "\<exists>pages. list_pages (Suc (length (ms_objects st)))
      \<lparr>lp_prefix = p, lp_delimiter = [], lp_maxKeys = m, lp_continuationToken = [], lp_startAfter = []\<rparr> st = Inr pages \<and>
    concat (map page_keys pages) = filter (\<lambda>k. starts_with k p) (sort (map fst (ms_objects st))) \<and>
    (\<forall>r \<in> set pages. length (page_keys r) \<le> m)"
proof -
  have "length (filter (\<lambda>k. starts_with k p) (sort (map fst (ms_objects st)))) \<le> length (ms_objects st)"
    by (metis length_filter_le length_map length_sort)
  then show ?thesis
    using pages_no_delimiter [of "\<lparr>lp_prefix = p, lp_delimiter = [], lp_maxKeys = m, lp_continuationToken = [],
        lp_startAfter = []\<rparr>" None st "Suc (length (ms_objects st))"] assms
    by (simp add: selected_keys_eq matching_keys_def)
qed

definition two_keys :: memory_storage where
  "two_keys = storage_run (\<lambda>b. []) (ten_bytes False)
     [OpPut 0 (ju ''p/b'') (sized 1), OpPut 1 (ju ''p/a'') (sized 2)] new_storage"

lemma two_keys_keys: "map fst (ms_objects two_keys) = [ju ''p/b'', ju ''p/a'']"
  by (simp add: two_keys_def storage_run_def new_storage_def put_example ju_inject)

lemma two_keys_sorted: "sort (map fst (ms_objects two_keys)) = [ju ''p/a'', ju ''p/b'']"
  unfolding two_keys_keys by (simp add: ju_def)

theorem pagination_complete_witness:
  "\<exists>pages. list_pages 3 \<lparr>lp_prefix = ju ''p/'', lp_delimiter = [], lp_maxKeys = 1, lp_continuationToken = [],
      lp_startAfter = []\<rparr> two_keys = Inr pages \<and>
    concat (map page_keys pages) = [ju ''p/a'', ju ''p/b'']"
proof -
  have "Suc (length (ms_objects two_keys)) = 3"
    using arg_cong [OF two_keys_keys, of length] by simp
  moreover have "distinct (map fst (ms_objects two_keys))"
    unfolding two_keys_keys by (simp add: ju_inject)
  moreover have "\<forall>k \<in> fst ` set (ms_objects two_keys). k \<noteq> [] \<and> well_formed k"
    using arg_cong [OF two_keys_keys, of set] by (simp add: ju_def is_high_def is_low_def)
  moreover have "filter (\<lambda>k. starts_with k (ju ''p/'')) (sort (map fst (ms_objects two_keys))) =
      [ju ''p/a'', ju ''p/b'']"
    unfolding two_keys_sorted by (simp add: ju_def)
  ultimately show ?thesis
    using pagination_complete [of two_keys 1 "ju ''p/''"] by auto
qed

text \<open>
  Listing. With a delimiter the token of a page is the first key under its last common
  prefix, so the next page starts inside that prefix and reports it again.
\<close>

theorem common_prefix_repeated:
  "\<exists>r r' token. list_objects \<lparr>lp_prefix = [], lp_delimiter = ju ''/'', lp_maxKeys = 1,
       lp_continuationToken = [], lp_startAfter = []\<rparr> two_keys = Inr r \<and>
     lr_prefixes r = [ju ''p/''] \<and> lr_next r = Some token \<and>
     list_objects \<lparr>lp_prefix = [], lp_delimiter = ju ''/'', lp_maxKeys = 1,
       lp_continuationToken = token, lp_startAfter = []\<rparr> two_keys = Inr r' \<and>
     lr_prefixes r' = [ju ''p/'']"
proof -
  have entry: "extractCommonPrefix [] (ju ''/'') (ju ''p/a'') = Some (ju ''p/'')"
    "extractCommonPrefix [] (ju ''/'') (ju ''p/b'') = Some (ju ''p/'')"
    by (simp_all add: extractCommonPrefix_def ju_def)
  have less: "\<not> ju ''p/a'' < ju ''p/a''" "ju ''p/a'' < ju ''p/b''"
    by (simp_all add: ju_def)
  have "well_formed (ju ''p/a'')"
    by (simp add: ju_def is_high_def is_low_def)
  then have token: "decodeContinuationToken (encodeContinuationToken (ju ''p/a'')) = Inr (ju ''p/a'')"
    "encodeContinuationToken (ju ''p/a'') \<noteq> []"
    by (simp_all add: continuation_token_roundtrip encode_token_nonempty)
  show ?thesis
    by (simp add: list_objects_def selected_keys_def two_keys_sorted entry less token Let_def)
qed

lemma object_of_snapshot [simp]: "object_of (snapshot_of ob) = ob"
  by (simp add: object_of_def snapshot_of_def b64_roundtrip)

lemma storage_snapshot_eq:
  "distinct (map fst (ms_objects st)) \<Longrightarrow>
   storage_snapshot st = map (\<lambda>(k, ob). (k, snapshot_of ob)) (ms_objects st)"
  by (simp add: storage_snapshot_def fold_update_fresh)

text \<open>
  Snapshots. \<open>restore\<close> after \<open>snapshot\<close> brings back every object, bodies through base64
  included, into any other storage with enough memory, and recounts the memory exactly.
\<close>

theorem snapshot_restore:
  assumes "storage_inv md5 st" and "int (objects_total (ms_objects st)) \<le> cf_maxMemoryBytes cf"
  shows "fst (storage_restore cf (Some (storage_snapshot st)) other) = Inr () \<and>
    map_of (ms_objects (snd (storage_restore cf (Some (storage_snapshot st)) other))) = map_of (ms_objects st) \<and>
    accounted (snd (storage_restore cf (Some (storage_snapshot st)) other))"
proof -
  let ?snap = "map (\<lambda>(k, ob). (k, snapshot_of ob)) (ms_objects st)"
  let ?loaded = "map (\<lambda>(k, sn). (k, object_of sn)) (obj_entries ?snap)"
  have snap: "storage_snapshot st = ?snap" and dist: "distinct (map fst ?snap)"
    using storage_snapshot_eq storage_inv_distinct [OF assms(1)] by (auto simp: case_prod_beta o_def)
  then have "distinct (map fst (obj_entries ?snap))"
    by (simp add: distinct_obj_keys [unfolded obj_keys_def])
  then have loaded: "fold (\<lambda>(key, sn) os. AList.update key (object_of sn) os) (obj_entries ?snap) [] = ?loaded"
    by (simp add: fold_update_fresh)
  have map: "map_of ?loaded = map_of (ms_objects st)"
    by (simp add: fun_eq_iff map_of_map_snd map_of_obj_entries [OF dist] option.map_comp o_def option.map_ident)
  have total: "objects_total ?loaded = objects_total (ms_objects st)"
    by (simp add: objects_total_def case_prod_unfold comp_def sum_obj_entries object_of_def snapshot_of_def)
  have "\<forall>p \<in> set (ms_objects st). so_size (snd p) = length (so_body (snd p))"
    using assms(1) by (simp add: storage_inv_def objects_ok_def object_ok_def)
  then have bytes: "sum_list (map (\<lambda>(key, sn). length (b64_decode (sn_body sn))) (obj_entries ?snap)) =
      objects_total (ms_objects st)"
    by (simp add: sum_obj_entries objects_total_def case_prod_unfold comp_def snapshot_of_def b64_roundtrip
        cong: map_cong)
  show ?thesis
    using assms(2) total
    by (simp add: storage_restore_def snap loaded bytes map accounted_def Let_def trackMemory_def)
qed

theorem snapshot_restore_witness:
  "map_of (ms_objects (snd (storage_restore (ten_bytes True) (Some (storage_snapshot two_keys)) new_storage))) =
    map_of (ms_objects two_keys)"
proof -
  have "storage_inv (\<lambda>b. []) two_keys"
    unfolding two_keys_def by (rule storage_inv_run [OF storage_inv_new])
  moreover have "int (objects_total (ms_objects two_keys)) \<le> cf_maxMemoryBytes (ten_bytes True)"
    by (simp add: two_keys_def storage_run_def new_storage_def put_example ju_inject)
  ultimately show ?thesis
    using snapshot_restore [of "\<lambda>b. []" two_keys "ten_bytes True" new_storage] by simp
qed

end
