(* ===== verification/OptimizedEncoding.thy ===== *)
theory OptimizedEncoding
  imports MetadataEncoding
begin

text \<open>
  \<open>src/concerns/optimized-encoding.ts\<close>: an encoding of metadata values without a prefix for base64.
  Printable text stands for itself (after \<open>!\<close> when it looks like base64), other text becomes a URI
  component after \<open>%\<close> or bare base64, whichever is shorter.

  Shown: well-formed text that is not printable and has a unit above 127 reads back, as does printable
  text that does not start with \<open>!\<close> or \<open>%\<close> and is not \<open>undefined\<close>; texts that do not read back are
  listed in \<open>optimized_lost_values\<close>.
\<close>

definition b64_letter :: "16 word \<Rightarrow> bool" where
  "b64_letter u \<longleftrightarrow> (let c = unat u in
     65 \<le> c \<and> c \<le> 90 \<or> 97 \<le> c \<and> c \<le> 122 \<or> 48 \<le> c \<and> c \<le> 57 \<or> c = 43 \<or> c = 47)"

text \<open>The pattern \<open>[A-Za-z0-9+/]+=*\<close> on the whole text, and a length that is a multiple of four.\<close>

definition looksLikeBase64 :: "ustring \<Rightarrow> bool" where
  "looksLikeBase64 s \<longleftrightarrow> \<not> length s < 4 \<and>
     takeWhile b64_letter s \<noteq> [] \<and> list_all (\<lambda>u. u = 61) (dropWhile b64_letter s) \<and> length s mod 4 = 0"

definition hasMultibyte :: "ustring \<Rightarrow> bool" where
  "hasMultibyte s \<longleftrightarrow> list_ex (\<lambda>u. unat u > 255) s"

definition notAscii :: "ustring \<Rightarrow> bool" where
  "notAscii s \<longleftrightarrow> list_ex (\<lambda>u. unat u > 127) s"

text \<open>
  \<open>None\<close> is the \<open>URIError\<close> of \<open>encodeURIComponent\<close>, which a text without units above 255 never raises.
\<close>

definition optimizedEncode :: "jsvalue \<Rightarrow> ustring option" where
  "optimizedEncode v = (case v of
     VNull \<Rightarrow> Some (ju ''null'')
   | VUndef \<Rightarrow> Some (ju ''undefined'')
   | _ \<Rightarrow>
     let str = to_string v in
     if str = [] then Some []
     else if isAsciiOnly str then (if looksLikeBase64 str then Some (33 # str) else Some str)
     else if hasMultibyte str then Some (b64_encode (utf8_encode str))
     else let base64 = b64_encode (utf8_encode str) in
       (case uri_encode str of
          None \<Rightarrow> None
        | Some urlEncoded \<Rightarrow> if length urlEncoded \<le> length base64 then Some (37 # urlEncoded) else Some base64))"

definition optimizedDecode :: "jsvalue \<Rightarrow> jsvalue" where
  "optimizedDecode v =
     (if v = VStr (ju ''null'') then VNull
      else if v = VStr (ju ''undefined'') then VUndef
      else if v = VStr [] \<or> v = VNull \<or> v = VUndef then v
      else let str = to_string v in
        case str of
          [] \<Rightarrow> VStr str
        | c # rest \<Rightarrow>
          if c = 33 then VStr rest
          else if c = 37 then (case uri_decode rest of Some t \<Rightarrow> VStr t | None \<Rightarrow> VStr str)
          else if looksLikeBase64 str then
            (let decoded = utf8_decode (b64_decode str) in
             if notAscii decoded \<and> b64_encode (utf8_encode decoded) = str then VStr decoded else VStr str)
          else VStr str)"

datatype optimized_method = MethodNone | MethodAsciiMarked | MethodUrl | MethodBase64 | MethodUnknown

record encoding_comparison =
  ec_original :: nat
  ec_base64Pure :: nat
  ec_base64Prefixed :: nat
  ec_urlPure :: nat
  ec_urlPrefixed :: nat
  ec_optimized :: nat
  ec_method :: optimized_method

definition compareEncodings :: "jsvalue \<Rightarrow> encoding_comparison option" where
  "compareEncodings v =
     (let str = to_string v; base64 = b64_encode (utf8_encode str) in
      case uri_encode str of
        None \<Rightarrow> None
      | Some urlEncoded \<Rightarrow>
        (case optimizedEncode v of
           None \<Rightarrow> None
         | Some optimized \<Rightarrow> Some
             \<lparr>ec_original = length (utf8_encode str), ec_base64Pure = length base64,
              ec_base64Prefixed = 2 + length base64, ec_urlPure = length urlEncoded,
              ec_urlPrefixed = 2 + length urlEncoded, ec_optimized = length optimized,
              ec_method = (if optimized = str then MethodNone
                else if starts_with optimized [33] then MethodAsciiMarked
                else if starts_with optimized [37] then MethodUrl
                else if looksLikeBase64 optimized then MethodBase64 else MethodUnknown)\<rparr>))"

section \<open>Base64 text looks like base64\<close>

lemma b64_letter_char: "n < 64 \<Longrightarrow> b64_letter (b64_char n)"
proof -
  have "unat (b64_char n) = b64_code n"
    by (simp add: b64_char_def b64_code_less)
  then show "n < 64 \<Longrightarrow> b64_letter (b64_char n)"
    by (simp add: b64_letter_def Let_def) (auto simp: b64_code_def)
qed

lemma b64_shape: "bs \<noteq> [] \<Longrightarrow> \<exists>xs pad. b64_encode bs = xs @ pad \<and> xs \<noteq> [] \<and> list_all b64_letter xs \<and> set pad \<subseteq> {61}"
proof (induction bs rule: b64_encode.induct)
  case (2 a)
  show ?case
    by (intro exI [of _ "[b64_char (unat a div 4), b64_char (unat a mod 4 * 16)]"] exI [of _ "[61, 61]"])
      (simp add: b64_letter_char b64_bounds)
next
  case (3 a b)
  show ?case
    by (intro exI [of _ "[b64_char (unat a div 4), b64_char (unat a mod 4 * 16 + unat b div 16),
          b64_char (unat b mod 16 * 4)]"] exI [of _ "[61]"])
      (simp add: b64_letter_char b64_bounds)
next
  case (4 a b c r)
  let ?q = "[b64_char (unat a div 4), b64_char (unat a mod 4 * 16 + unat b div 16),
     b64_char (unat b mod 16 * 4 + unat c div 64), b64_char (unat c mod 64)]"
  have q: "list_all b64_letter ?q"
    by (simp add: b64_letter_char b64_bounds)
  show ?case
  proof (cases "r = []")
    case True
    with q show ?thesis
      by (intro exI [of _ ?q] exI [of _ "[]"]) simp
  next
    case False
    then obtain xs pad where "b64_encode r = xs @ pad" "xs \<noteq> []" "list_all b64_letter xs" "set pad \<subseteq> {61}"
      using 4 by blast
    with q show ?thesis
      by (intro exI [of _ "?q @ xs"] exI [of _ pad]) simp
  qed
qed simp

lemma not_letter_pad: "\<not> b64_letter 61"
  by (simp add: b64_letter_def)

lemma looksLikeBase64_encode:
  assumes "bs \<noteq> []"
  shows "looksLikeBase64 (b64_encode bs)"
proof -
  obtain xs pad where s: "b64_encode bs = xs @ pad" "xs \<noteq> []" "list_all b64_letter xs" "set pad \<subseteq> {61}"
    using b64_shape [OF assms] by blast
  have pad: "takeWhile b64_letter pad = []" "dropWhile b64_letter pad = pad"
    using s(4) not_letter_pad by (cases pad; auto)+
  have "length (b64_encode bs) mod 4 = 0" and "\<not> length (b64_encode bs) < 4"
    using assms by (simp_all add: b64_encode_length) (cases bs; simp)+
  moreover have "takeWhile b64_letter (xs @ pad) = xs" "dropWhile b64_letter (xs @ pad) = pad"
    using s(3) pad by (simp_all add: list_all_iff takeWhile_append2 dropWhile_append2)
  moreover have "list_all (\<lambda>u. u = 61) pad"
    using s(4) by (auto simp: list_all_iff)
  ultimately show ?thesis
    using s by (simp add: looksLikeBase64_def)
qed

section \<open>What reads back\<close>

lemma undefined_not_base64: "\<not> looksLikeBase64 (ju ''undefined'')"
proof -
  have "length (ju ''undefined'') = 9"
    by (simp add: ju_def)
  then show ?thesis
    by (simp add: looksLikeBase64_def)
qed

text \<open>No text starts with a continuation byte.\<close>

lemma utf8_first_byte:
  assumes "s \<noteq> []"
  shows "unat (hd (utf8_encode s)) < 128 \<or> 192 \<le> unat (hd (utf8_encode s))"
proof -
  have first: "utf8_bytes c \<noteq> [] \<and> (unat (hd (utf8_bytes c)) < 128 \<or> 192 \<le> unat (hd (utf8_bytes c)))"
    if "c < 1114112" for c
  proof -
    have "c < 2048 \<Longrightarrow> c div 64 < 32" "c < 65536 \<Longrightarrow> c div 4096 < 16" "c div 262144 < 5"
      using that by (simp_all add: less_mult_imp_div_less)
    then show ?thesis
      by (auto simp: utf8_bytes_def)
  qed
  have "code_points s \<noteq> []"
    using assms by (cases s rule: code_points.cases) simp_all
  then obtain c cs where "code_points s = c # cs"
    by (meson list.exhaust)
  moreover have "(if scalar_value c then c else 65533) < 1114112"
    by (simp add: scalar_value_def)
  ultimately show ?thesis
    using first by (auto simp: utf8_encode_def hd_append)
qed

lemma decode_bare_base64:
  assumes "well_formed s" and "notAscii s"
  shows "optimizedDecode (VStr (b64_encode (utf8_encode s))) = VStr s"
proof -
  let ?t = "b64_encode (utf8_encode s)"
  have "s \<noteq> []"
    using assms(2) by (auto simp: notAscii_def)
  then have bytes: "utf8_encode s \<noteq> []"
    using utf8_roundtrip [OF assms(1)] by (auto simp: utf8_decode_def)
  have looks: "looksLikeBase64 ?t"
    by (rule looksLikeBase64_encode [OF bytes])
  then obtain c rest where t: "?t = c # rest" and "b64_letter c"
    by (cases ?t) (auto simp: looksLikeBase64_def split: if_splits)
  then have c: "c \<noteq> 33" "c \<noteq> 37"
    by (auto simp: b64_letter_def)
  have "?t \<noteq> ju ''null''"
  proof
    assume "?t = ju ''null''"
    then have "utf8_encode s = b64_decode (ju ''null'')"
      using b64_roundtrip [of "utf8_encode s"] by simp
    also have "\<dots> = [158, 233, 101]"
      by (simp add: ju_def b64_decode_def map_filter_Cons List.map_filter_simps b64_val_def b64_value_def byte_of_def)
    finally have "utf8_encode s = [158, 233, 101]" .
    then have "unat (hd (utf8_encode s)) = 158"
      by simp
    with utf8_first_byte [OF \<open>s \<noteq> []\<close>] show False
      by simp
  qed
  moreover have "?t \<noteq> ju ''undefined''"
    using looks undefined_not_base64 by auto
  moreover have "utf8_decode (b64_decode (c # rest)) = s"
    using b64_roundtrip [of "utf8_encode s"] utf8_roundtrip [OF assms(1)] t by simp
  ultimately show ?thesis
    using t c looks assms by (simp add: optimizedDecode_def Let_def)
qed

lemma decode_plain_text:
  assumes "s \<noteq> ju ''undefined''" and "s \<noteq> ju ''null''" and "\<not> starts_with s [33]" and "\<not> starts_with s [37]"
    and "\<not> looksLikeBase64 s"
  shows "optimizedDecode (VStr s) = VStr s"
  using assms by (cases s) (auto simp: optimizedDecode_def)

lemma looks_null: "looksLikeBase64 (ju ''null'')"
  by (simp add: looksLikeBase64_def ju_def b64_letter_def)

text \<open>
  C37 (optimized encoding). Printable ASCII text that does not start with \<open>!\<close> or \<open>%\<close> and is not
  \<open>undefined\<close>, and well-formed text (without lone surrogates) that is not printable ASCII and has a
  unit above 127, decode to themselves after encoding, whether they are written plainly, marked, as a URI component or as bare base64.
\<close>

theorem optimized_roundtrip:
  assumes "if isAsciiOnly s then s \<noteq> ju ''undefined'' \<and> \<not> starts_with s [33] \<and> \<not> starts_with s [37]
      else well_formed s \<and> notAscii s"
  shows "map_option (\<lambda>t. optimizedDecode (VStr t)) (optimizedEncode (VStr s)) = Some (VStr s)"
proof (cases "s = []")
  case True
  then show ?thesis
    by (simp add: optimizedEncode_def optimizedDecode_def ju_def)
next
  case nonempty: False
  show ?thesis
  proof (cases "isAsciiOnly s")
    case True
    show ?thesis
    proof (cases "looksLikeBase64 s")
      case True
      have "optimizedDecode (VStr (33 # s)) = VStr s"
        by (simp add: optimizedDecode_def ju_def)
      with True \<open>isAsciiOnly s\<close> nonempty show ?thesis
        by (simp add: optimizedEncode_def)
    next
      case False
      then have "s \<noteq> ju ''null''"
        using looks_null by auto
      with False True assms have "optimizedDecode (VStr s) = VStr s"
        by (intro decode_plain_text) simp_all
      with False True nonempty show ?thesis
        by (simp add: optimizedEncode_def)
    qed
  next
    case False
    then have s: "well_formed s" "notAscii s"
      using assms by simp_all
    obtain t where t: "uri_encode s = Some t"
      using s(1) uri_encode_defined_iff by blast
    have "optimizedDecode (VStr (37 # t)) = VStr s"
      using uri_roundtrip [OF t] by (simp add: optimizedDecode_def ju_def)
    with False nonempty t decode_bare_base64 [OF s] show ?thesis
      by (simp add: optimizedEncode_def Let_def)
  qed
qed

theorem optimized_roundtrip_witness:
  "map_option (\<lambda>t. optimizedDecode (VStr t)) (optimizedEncode (VStr [99, 97, 102, 233])) = Some (VStr [99, 97, 102, 233])"
  by (rule optimized_roundtrip) (simp add: isAsciiOnly_def notAscii_def is_high_def is_low_def)

lemma lost_line_feed: "optimizedEncode (VStr [97, 10, 98]) = Some (ju ''YQpi'')"
proof -
  have "b64_encode (utf8_encode [97, 10, 98]) = ju ''YQpi''"
    by (simp add: utf8_encode_def is_high_def is_low_def scalar_value_def utf8_bytes_def byte_of_def b64_char_def
        b64_code_def ju_def)
  moreover have "uri_encode [97, 10, 98] = Some (ju ''a%0Ab'')"
    by (simp add: js_simps is_high_def is_low_def utf8_bytes_def ju_def)
  ultimately show ?thesis
    by (simp add: optimizedEncode_def isAsciiOnly_def hasMultibyte_def Let_def ju_def)
qed

lemma lost_line_feed_decode: "optimizedDecode (VStr (ju ''YQpi'')) = VStr (ju ''YQpi'')"
proof -
  have "b64_decode (ju ''YQpi'') = [97, 10, 98]"
    by (simp add: ju_def b64_decode_def map_filter_Cons List.map_filter_simps js_simps)
  then have "utf8_decode (b64_decode (ju ''YQpi'')) = [97, 10, 98]"
    by (simp add: utf8_decode_def utf16_def)
  then show ?thesis
    by (simp add: optimizedDecode_def ju_def notAscii_def Let_def)
qed

lemma lost_plain: "isAsciiOnly s \<Longrightarrow> s \<noteq> [] \<Longrightarrow> \<not> looksLikeBase64 s \<Longrightarrow> optimizedEncode (VStr s) = Some s"
  by (simp add: optimizedEncode_def)

text \<open>
  Optimized encoding. Text that does not come back: the short text \<open>a\<close>, line feed, \<open>b\<close> is
  written as base64, which the decoder takes for plain text because it decodes to ASCII; printable
  text that starts with \<open>!\<close> or \<open>%\<close> loses it; and \<open>undefined\<close> becomes no value.
\<close>

theorem optimized_lost_values:
  "map (\<lambda>s. map_option (\<lambda>t. optimizedDecode (VStr t)) (optimizedEncode (VStr s)))
     [[97, 10, 98], ju ''!x'', ju ''%41'', ju ''undefined''] =
   [Some (VStr (ju ''YQpi'')), Some (VStr (ju ''x'')), Some (VStr (ju ''41'')), Some VUndef]"
proof -
  have "optimizedEncode (VStr (ju ''!x'')) = Some (ju ''!x'')" and "optimizedEncode (VStr (ju ''%41'')) = Some (ju ''%41'')"
    by (rule lost_plain; simp add: ju_def isAsciiOnly_def looksLikeBase64_def)+
  moreover have "optimizedEncode (VStr (ju ''undefined'')) = Some (ju ''undefined'')"
    by (rule lost_plain [OF _ _ undefined_not_base64]) (simp_all add: ju_def isAsciiOnly_def)
  moreover have "optimizedDecode (VStr (ju ''!x'')) = VStr (ju ''x'')"
    and "optimizedDecode (VStr (ju ''%41'')) = VStr (ju ''41'')"
    and "optimizedDecode (VStr (ju ''undefined'')) = VUndef"
    by (simp_all add: optimizedDecode_def ju_def js_simps)
  ultimately show ?thesis
    by (simp add: lost_line_feed lost_line_feed_decode)
qed

end
