(* ===== verification/Locks.thy ===== *)
theory Locks
  imports JsPrelude
begin

text \<open>
  \<open>src/concerns/distributed-lock.ts\<close>: a lock kept as one object of a storage adapter, as seen by
  any number of clients that interleave. A client is an automaton whose states are the awaits
  of \<open>acquire\<close>, \<open>release\<close>, \<open>isLocked\<close> and \<open>getLockInfo\<close>; an event lets one client perform its next storage operation (or
  lets time pass), and each storage operation is atomic, as the adapter's are. A stored value
  that \<open>isValidLockPayload\<close> rejects is \<open>Garbage\<close>. Times are milliseconds. The identifiers that
  \<open>idGenerator\<close> returns are the arguments \<open>token\<close>, and are fresh.

  A lock that is not taken over is exclusive, which the locale \<open>lock_service\<close> states once for
  this lock and the one of \<open>Mutex\<close>; a lock that outlives its time to live is taken over by a
  read and a separate, unconditional delete, and then it is not (\<open>takeover_race\<close>).
\<close>

record lock_info =
  li_workerId :: ustring
  li_token :: nat
  li_acquiredAt :: nat
  li_expiresAt :: "nat option"

datatype stored_value = Garbage | Lock lock_info

record acquire_options =
  ao_ttl :: nat
  ao_timeout :: "nat option"
  ao_retryDelay :: nat
  ao_maxRetryDelay :: nat
  ao_workerId :: ustring

definition LOCK_DEFAULTS :: acquire_options where
  "LOCK_DEFAULTS = \<lparr>ao_ttl = 30, ao_timeout = Some 0, ao_retryDelay = 100, ao_maxRetryDelay = 1000,
     ao_workerId = ju ''unknown''\<rparr>"

record lock_handle =
  lh_token :: nat
  lh_workerId :: ustring
  lh_expiresAt :: nat

text \<open>\<open>jitter\<close> is the value of \<open>Math.floor(Math.random() * Math.max(baseDelay / 2, 1))\<close>.\<close>

definition computeBackoff :: "nat \<Rightarrow> nat \<Rightarrow> nat \<Rightarrow> nat \<Rightarrow> nat" where
  "computeBackoff attempt baseDelay maxDelay jitter =
     min (baseDelay * 2 ^ max (attempt - 1) 0) maxDelay + jitter"

definition isValidLockPayload :: "stored_value \<Rightarrow> bool" where
  "isValidLockPayload v = (case v of Garbage \<Rightarrow> False | Lock li \<Rightarrow> True)"

definition isExpiredLockPayload :: "lock_info \<Rightarrow> nat \<Rightarrow> bool" where
  "isExpiredLockPayload li now = (case li_expiresAt li of None \<Rightarrow> False | Some e \<Rightarrow> now > e)"

section \<open>The clients\<close>

record acquisition =
  aq_options :: acquire_options
  aq_token :: nat
  aq_startTime :: nat
  aq_attempt :: nat
  aq_acquiredAt :: nat

datatype client =
    Idle
  | Putting acquisition
  | Reading acquisition
  | Clearing acquisition
  | Sleeping acquisition nat
  | Holding lock_handle
  | ReleaseReading lock_handle
  | ReleaseDeleting lock_handle
  | NamedReading nat
  | NamedDeleting nat
  | Asking
  | AskDeleting

record lock_system =
  sys_cell :: "stored_value option"
  sys_now :: nat
  sys_client :: "nat \<Rightarrow> client"
  sys_tokens :: "nat set"

definition lock_init :: lock_system where
  "lock_init = \<lparr>sys_cell = None, sys_now = 0, sys_client = (\<lambda>i. Idle), sys_tokens = {}\<rparr>"

text \<open>
  The answer of the adapter to a read: the value, nothing, or an exception, after which
  every operation deletes the key. \<open>ReleaseNamed\<close> is \<open>release(name, token)\<close> with any token, \<open>Ask\<close>
  is \<open>isLocked\<close> or \<open>getLockInfo\<close>. A write may fail for another reason than the
  precondition, and \<open>acquire\<close> throws.
\<close>

datatype lock_event =
    Tick nat
  | Acquire nat acquire_options nat
  | Put nat
  | PutFails nat
  | Read nat
  | ReadFails nat
  | Clear nat
  | ClearFails nat
  | Wake nat nat
  | Release nat
  | ReleaseRead nat
  | ReleaseDelete nat
  | ReleaseNamed nat nat
  | Ask nat
  | AskRead nat
  | AskDelete nat

definition goto :: "nat \<Rightarrow> client \<Rightarrow> lock_system \<Rightarrow> lock_system" where
  "goto i c s = s\<lparr>sys_client := (sys_client s)(i := c)\<rparr>"

text \<open>The head of the loop: the payload is dated, and the write awaited.\<close>

definition try_put :: "nat \<Rightarrow> acquisition \<Rightarrow> lock_system \<Rightarrow> lock_system" where
  "try_put i aq s = goto i (Putting (aq\<lparr>aq_acquiredAt := sys_now s\<rparr>)) s"

definition put_lock :: "nat \<Rightarrow> acquisition \<Rightarrow> lock_system \<Rightarrow> lock_system" where
  "put_lock i aq s =
     (let now = sys_now s; expiresAt = aq_acquiredAt aq + ao_ttl (aq_options aq) * 1000;
          payload = \<lparr>li_workerId = ao_workerId (aq_options aq), li_token = aq_token aq,
            li_acquiredAt = aq_acquiredAt aq, li_expiresAt = Some expiresAt\<rparr>
      in case sys_cell s of
        None \<Rightarrow> goto i (Holding \<lparr>lh_token = aq_token aq, lh_workerId = ao_workerId (aq_options aq),
            lh_expiresAt = expiresAt\<rparr>) (s\<lparr>sys_cell := Some (Lock payload)\<rparr>)
      | Some v \<Rightarrow>
          if (case ao_timeout (aq_options aq) of None \<Rightarrow> False | Some t \<Rightarrow> now - aq_startTime aq \<ge> t)
          then goto i Idle s
          else goto i (Reading aq) s)"

definition read_lock :: "nat \<Rightarrow> acquisition \<Rightarrow> lock_system \<Rightarrow> lock_system" where
  "read_lock i aq s =
     (case sys_cell s of
        None \<Rightarrow> try_put i aq s
      | Some v \<Rightarrow>
          if \<not> isValidLockPayload v \<or> (case v of Lock li \<Rightarrow> isExpiredLockPayload li (sys_now s) | Garbage \<Rightarrow> False)
          then goto i (Clearing aq) s
          else goto i (Sleeping (aq\<lparr>aq_attempt := Suc (aq_attempt aq)\<rparr>) (sys_now s)) s)"

definition release_read :: "nat \<Rightarrow> nat \<Rightarrow> client \<Rightarrow> lock_system \<Rightarrow> lock_system" where
  "release_read i expectedToken deleting s =
     (case sys_cell s of
        None \<Rightarrow> goto i Idle s
      | Some v \<Rightarrow>
          if (case v of Lock li \<Rightarrow> li_token li = expectedToken | Garbage \<Rightarrow> False)
          then goto i deleting s
          else goto i Idle s)"

text \<open>
  \<open>isLocked\<close> and \<open>getLockInfo\<close> answer from one read. The second component says whether they then
  delete the key.
\<close>

datatype read_answer = ReadThrows | Stored "stored_value option"

definition isLocked :: "read_answer \<Rightarrow> nat \<Rightarrow> bool \<times> bool" where
  "isLocked r now = (case r of
     ReadThrows \<Rightarrow> (False, True)
   | Stored None \<Rightarrow> (False, False)
   | Stored (Some v) \<Rightarrow>
       if \<not> isValidLockPayload v \<or> (case v of Lock li \<Rightarrow> isExpiredLockPayload li now | Garbage \<Rightarrow> False)
       then (False, True)
       else (True, False))"

definition getLockInfo :: "read_answer \<Rightarrow> nat \<Rightarrow> lock_info option \<times> bool" where
  "getLockInfo r now = (case r of
     ReadThrows \<Rightarrow> (None, True)
   | Stored None \<Rightarrow> (None, False)
   | Stored (Some Garbage) \<Rightarrow> (None, True)
   | Stored (Some (Lock li)) \<Rightarrow> if isExpiredLockPayload li now then (None, True) else (Some li, False))"

lemma getLockInfo_deletes: "snd (getLockInfo r now) = snd (isLocked r now)"
  by (auto simp: getLockInfo_def isLocked_def isValidLockPayload_def split: read_answer.split option.split stored_value.split)

definition ask_read :: "nat \<Rightarrow> lock_system \<Rightarrow> lock_system" where
  "ask_read i s = goto i (if snd (isLocked (Stored (sys_cell s)) (sys_now s)) then AskDeleting else Idle) s"

definition lock_event :: "lock_event \<Rightarrow> lock_system \<Rightarrow> lock_system option" where
  "lock_event ev s = (case ev of
     Tick d \<Rightarrow> Some (s\<lparr>sys_now := sys_now s + d\<rparr>)
   | Acquire i opts token \<Rightarrow>
       if sys_client s i = Idle \<and> token \<notin> sys_tokens s
       then Some (try_put i \<lparr>aq_options = opts, aq_token = token, aq_startTime = sys_now s, aq_attempt = 0,
           aq_acquiredAt = sys_now s\<rparr> (s\<lparr>sys_tokens := insert token (sys_tokens s)\<rparr>))
       else None
   | Put i \<Rightarrow> (case sys_client s i of Putting aq \<Rightarrow> Some (put_lock i aq s) | _ \<Rightarrow> None)
   | PutFails i \<Rightarrow> (case sys_client s i of Putting aq \<Rightarrow> Some (goto i Idle s) | _ \<Rightarrow> None)
   | Read i \<Rightarrow> (case sys_client s i of Reading aq \<Rightarrow> Some (read_lock i aq s) | _ \<Rightarrow> None)
   | ReadFails i \<Rightarrow> (case sys_client s i of
         Reading aq \<Rightarrow> Some (goto i (Clearing aq) s)
       | ReleaseReading h \<Rightarrow> Some (goto i (ReleaseDeleting h) s)
       | NamedReading t \<Rightarrow> Some (goto i (NamedDeleting t) s)
       | Asking \<Rightarrow> Some (goto i AskDeleting s)
       | _ \<Rightarrow> None)
   | Clear i \<Rightarrow> (case sys_client s i of
         Clearing aq \<Rightarrow> Some (try_put i aq (s\<lparr>sys_cell := None\<rparr>)) | _ \<Rightarrow> None)
   | ClearFails i \<Rightarrow> (case sys_client s i of
         Clearing aq \<Rightarrow> Some (try_put i aq s)
       | ReleaseDeleting h \<Rightarrow> Some (goto i Idle s)
       | NamedDeleting t \<Rightarrow> Some (goto i Idle s)
       | AskDeleting \<Rightarrow> Some (goto i Idle s)
       | _ \<Rightarrow> None)
   | Wake i jitter \<Rightarrow> (case sys_client s i of
         Sleeping aq since \<Rightarrow>
           if sys_now s \<ge> since + computeBackoff (aq_attempt aq) (ao_retryDelay (aq_options aq))
                (ao_maxRetryDelay (aq_options aq)) jitter
           then Some (try_put i aq s) else None
       | _ \<Rightarrow> None)
   | Release i \<Rightarrow> (case sys_client s i of Holding h \<Rightarrow> Some (goto i (ReleaseReading h) s) | _ \<Rightarrow> None)
   | ReleaseRead i \<Rightarrow> (case sys_client s i of
         ReleaseReading h \<Rightarrow> Some (release_read i (lh_token h) (ReleaseDeleting h) s)
       | NamedReading t \<Rightarrow> Some (release_read i t (NamedDeleting t) s)
       | _ \<Rightarrow> None)
   | ReleaseDelete i \<Rightarrow> (case sys_client s i of
         ReleaseDeleting h \<Rightarrow> Some (goto i Idle (s\<lparr>sys_cell := None\<rparr>))
       | NamedDeleting t \<Rightarrow> Some (goto i Idle (s\<lparr>sys_cell := None\<rparr>))
       | _ \<Rightarrow> None)
   | ReleaseNamed i token \<Rightarrow>
       if sys_client s i = Idle then Some (goto i (NamedReading token) (s\<lparr>sys_tokens := insert token (sys_tokens s)\<rparr>))
       else None
   | Ask i \<Rightarrow> if sys_client s i = Idle then Some (goto i Asking s) else None
   | AskRead i \<Rightarrow> (case sys_client s i of Asking \<Rightarrow> Some (ask_read i s) | _ \<Rightarrow> None)
   | AskDelete i \<Rightarrow> (case sys_client s i of
         AskDeleting \<Rightarrow> Some (goto i Idle (s\<lparr>sys_cell := None\<rparr>)) | _ \<Rightarrow> None))"

fun lock_run :: "lock_event list \<Rightarrow> lock_system \<Rightarrow> lock_system option" where
  "lock_run [] s = Some s"
| "lock_run (ev # evs) s = (case lock_event ev s of None \<Rightarrow> None | Some s' \<Rightarrow> lock_run evs s')"

section \<open>Mutual exclusion\<close>

text \<open>What a client of a lock relies on: of the states a system reaches, at most one client holds.\<close>

locale lock_service =
  fixes reachable :: "'s \<Rightarrow> bool" and holds :: "'s \<Rightarrow> nat \<Rightarrow> bool"
  assumes exclusive: "reachable s \<Longrightarrow> holds s i \<Longrightarrow> holds s j \<Longrightarrow> i = j"
begin

lemma at_most_one: "reachable s \<Longrightarrow> finite {i. holds s i} \<and> card {i. holds s i} \<le> 1"
proof -
  assume s: "reachable s"
  show ?thesis
  proof (cases "\<exists>i. holds s i")
    case True
    then obtain i where "holds s i"
      by blast
    with s exclusive have "{i. holds s i} = {i}"
      by blast
    then show ?thesis
      by simp
  qed simp
qed

end

fun client_token :: "client \<Rightarrow> nat option" where
  "client_token Idle = None"
| "client_token (Putting aq) = Some (aq_token aq)"
| "client_token (Reading aq) = Some (aq_token aq)"
| "client_token (Clearing aq) = Some (aq_token aq)"
| "client_token (Sleeping aq since) = Some (aq_token aq)"
| "client_token (Holding h) = Some (lh_token h)"
| "client_token (ReleaseReading h) = Some (lh_token h)"
| "client_token (ReleaseDeleting h) = Some (lh_token h)"
| "client_token c = None"

fun client_lock :: "client \<Rightarrow> lock_handle option" where
  "client_lock (Holding h) = Some h"
| "client_lock (ReleaseReading h) = Some h"
| "client_lock (ReleaseDeleting h) = Some h"
| "client_lock c = None"

fun clearing :: "client \<Rightarrow> bool" where
  "clearing (Clearing aq) = True"
| "clearing (NamedDeleting t) = True"
| "clearing AskDeleting = True"
| "clearing c = False"

definition lock_held :: "lock_system \<Rightarrow> nat \<Rightarrow> bool" where
  "lock_held s i \<longleftrightarrow> client_lock (sys_client s i) \<noteq> None"

definition cell_handle :: "stored_value option \<Rightarrow> (nat \<times> nat option) option" where
  "cell_handle c = (case c of Some (Lock li) \<Rightarrow> Some (li_token li, li_expiresAt li) | _ \<Rightarrow> None)"

definition cell_token :: "stored_value option \<Rightarrow> nat option" where
  "cell_token c = map_option fst (cell_handle c)"

definition lock_inv :: "lock_system \<Rightarrow> bool" where
  "lock_inv s \<longleftrightarrow>
     (\<forall>i. \<not> clearing (sys_client s i)) \<and>
     (\<forall>i h. client_lock (sys_client s i) = Some h \<longrightarrow>
        cell_handle (sys_cell s) = Some (lh_token h, Some (lh_expiresAt h))) \<and>
     (\<forall>i t. client_token (sys_client s i) = Some t \<longrightarrow> t \<in> sys_tokens s) \<and>
     (\<forall>i j t. client_token (sys_client s i) = Some t \<longrightarrow> client_token (sys_client s j) = Some t \<longrightarrow> i = j) \<and>
     (\<forall>i t. sys_client s i = NamedReading t \<longrightarrow> t \<in> sys_tokens s \<and> cell_token (sys_cell s) \<noteq> Some t \<and>
        (\<forall>j. client_token (sys_client s j) \<noteq> Some t))"

text \<open>
  A takeover is a read that decides to delete a key that is not the caller's: what \<open>acquire\<close>,
  \<open>isLocked\<close> or \<open>getLockInfo\<close> read is no lock, or a lock past its time to live, or the read threw; and
  a \<open>release\<close> by name with a token that a client was given for the lock.
\<close>

definition calm :: "lock_system \<Rightarrow> bool" where
  "calm s \<longleftrightarrow> (case sys_cell s of
     None \<Rightarrow> True | Some Garbage \<Rightarrow> False | Some (Lock li) \<Rightarrow> \<not> isExpiredLockPayload li (sys_now s))"

definition takeover :: "lock_event \<Rightarrow> lock_system \<Rightarrow> bool" where
  "takeover ev s \<longleftrightarrow> (case ev of
     Read i \<Rightarrow> \<not> calm s
   | AskRead i \<Rightarrow> \<not> calm s
   | ReadFails i \<Rightarrow> client_lock (sys_client s i) = None
   | ReleaseNamed i token \<Rightarrow> (\<exists>j. client_token (sys_client s j) = Some token) \<or> cell_token (sys_cell s) = Some token
   | _ \<Rightarrow> False)"

fun undisturbed :: "lock_event list \<Rightarrow> lock_system \<Rightarrow> bool" where
  "undisturbed [] s = True"
| "undisturbed (ev # evs) s \<longleftrightarrow>
     \<not> takeover ev s \<and> (case lock_event ev s of None \<Rightarrow> True | Some s' \<Rightarrow> undisturbed evs s')"

inductive lock_reach :: "lock_system \<Rightarrow> bool" where
  start: "lock_reach lock_init"
| step: "lock_reach s \<Longrightarrow> lock_event ev s = Some s' \<Longrightarrow> \<not> takeover ev s \<Longrightarrow> lock_reach s'"

lemma client_lock_token: "client_lock c = Some h \<Longrightarrow> client_token c = Some (lh_token h)"
  by (cases c) auto

lemma lock_inv_exclusive:
  assumes "lock_inv s" and "lock_held s i" and "lock_held s j"
  shows "i = j"
proof -
  obtain h k where h: "client_lock (sys_client s i) = Some h" and k: "client_lock (sys_client s j) = Some k"
    using assms(2,3) unfolding lock_held_def by blast
  have "cell_handle (sys_cell s) = Some (lh_token h, Some (lh_expiresAt h))"
    and "cell_handle (sys_cell s) = Some (lh_token k, Some (lh_expiresAt k))"
    using assms(1) h k unfolding lock_inv_def by blast+
  then have "lh_token h = lh_token k"
    by simp
  with client_lock_token [OF h] client_lock_token [OF k] assms(1) show ?thesis
    unfolding lock_inv_def by metis
qed

lemma lock_inv_goto:
  assumes "lock_inv s" and "sys_client s i = c" and "client_token c' = client_token c \<or> client_token c' = None"
    and "\<not> clearing c'" and "client_lock c' = client_lock c \<or> client_lock c' = None"
    and "\<And>t. c' \<noteq> NamedReading t"
  shows "lock_inv (goto i c' s)"
proof -
  have old: "\<And>j. \<not> clearing (sys_client s j)"
    "\<And>j h. client_lock (sys_client s j) = Some h \<Longrightarrow>
       cell_handle (sys_cell s) = Some (lh_token h, Some (lh_expiresAt h))"
    "\<And>j t. client_token (sys_client s j) = Some t \<Longrightarrow> t \<in> sys_tokens s"
    "\<And>j k t. client_token (sys_client s j) = Some t \<Longrightarrow> client_token (sys_client s k) = Some t \<Longrightarrow> j = k"
    "\<And>j t. sys_client s j = NamedReading t \<Longrightarrow> t \<in> sys_tokens s \<and> cell_token (sys_cell s) \<noteq> Some t \<and>
       (\<forall>k. client_token (sys_client s k) \<noteq> Some t)"
    using assms(1) unfolding lock_inv_def by blast+
  have client: "sys_client (goto i c' s) j = (if j = i then c' else sys_client s j)" for j
    by (simp add: goto_def)
  have token: "client_token (sys_client (goto i c' s) j) = Some t \<Longrightarrow> client_token (sys_client s j) = Some t" for j t
    using assms(2,3) by (auto simp: client split: if_splits)
  have lock: "client_lock (sys_client (goto i c' s) j) = Some h \<Longrightarrow> client_lock (sys_client s j) = Some h" for j h
    using assms(2,5) by (auto simp: client split: if_splits)
  show ?thesis
    unfolding lock_inv_def
  proof (intro conjI allI impI)
    show "\<not> clearing (sys_client (goto i c' s) j)" for j
      using old(1) assms(4) by (simp add: client)
    show "cell_handle (sys_cell (goto i c' s)) = Some (lh_token h, Some (lh_expiresAt h))"
      if "client_lock (sys_client (goto i c' s) j) = Some h" for j h
      using old(2) [OF lock [OF that]] by (simp add: goto_def)
    show "t \<in> sys_tokens (goto i c' s)" if "client_token (sys_client (goto i c' s) j) = Some t" for j t
      using old(3) [OF token [OF that]] by (simp add: goto_def)
    show "j = k" if "client_token (sys_client (goto i c' s) j) = Some t"
      and "client_token (sys_client (goto i c' s) k) = Some t" for j k t
      using old(4) token [OF that(1)] token [OF that(2)] by blast
    fix j t
    assume "sys_client (goto i c' s) j = NamedReading t"
    then have "sys_client s j = NamedReading t"
      using assms(6) by (auto simp: client split: if_splits)
    from old(5) [OF this] show "t \<in> sys_tokens (goto i c' s)" "cell_token (sys_cell (goto i c' s)) \<noteq> Some t"
      "client_token (sys_client (goto i c' s) k) \<noteq> Some t" for k
      using token [of k t] by (auto simp: goto_def)
  qed
qed

lemma lock_inv_try_put:
  assumes "lock_inv s" and "client_token (sys_client s i) = Some (aq_token aq)"
    and "client_lock (sys_client s i) = None"
  shows "lock_inv (try_put i aq s)"
  unfolding try_put_def using assms by (intro lock_inv_goto [OF assms(1) refl]) auto

lemma lock_inv_time: "lock_inv (s\<lparr>sys_now := n\<rparr>) = lock_inv s"
  by (simp add: lock_inv_def)

lemma lock_inv_event:
  assumes inv: "lock_inv s" and ev: "lock_event ev s = Some s'" and calm: "\<not> takeover ev s"
  shows "lock_inv s'"
proof (cases ev)
  case (Tick d)
  with ev inv show ?thesis
    by (auto simp: lock_event_def lock_inv_time)
next
  case (Acquire i opts token)
  with ev inv show ?thesis
    by (auto simp: lock_event_def lock_inv_def try_put_def goto_def split: if_splits) blast+
next
  case (Put i)
  then obtain aq where pc: "sys_client s i = Putting aq" and s': "s' = put_lock i aq s"
    using ev by (auto simp: lock_event_def split: client.splits)
  show ?thesis
  proof (cases "sys_cell s")
    case None
    then have none: "client_lock (sys_client s j) = None" for j
      using inv by (auto simp: lock_inv_def cell_handle_def)
    have "aq_token aq \<in> sys_tokens s"
      using inv pc unfolding lock_inv_def by (metis client_token.simps(2))
    moreover have "j = i" if "client_token (sys_client s j) = Some (aq_token aq)" for j
      using inv pc that unfolding lock_inv_def by (metis client_token.simps(2))
    ultimately show ?thesis
      using inv pc None none by (auto simp: s' put_lock_def lock_inv_def goto_def cell_handle_def cell_token_def Let_def)
        (metis client_token.simps(2))
  next
    case (Some v)
    then show ?thesis
      using inv pc lock_inv_goto [OF inv pc] by (auto simp: s' put_lock_def Let_def split: option.split)
  qed
next
  case (PutFails i)
  with ev inv show ?thesis
    by (auto simp: lock_event_def lock_inv_goto split: client.splits)
next
  case (Read i)
  then obtain aq where pc: "sys_client s i = Reading aq" and s': "s' = read_lock i aq s"
    using ev by (auto simp: lock_event_def split: client.splits)
  show ?thesis
    using calm lock_inv_goto [OF inv pc] lock_inv_try_put [OF inv, of i aq] pc
    by (auto simp: s' Read takeover_def read_lock_def calm_def isValidLockPayload_def split: option.split stored_value.splits)
next
  case (ReadFails i)
  with ev calm inv show ?thesis
    by (auto simp: lock_event_def takeover_def lock_inv_goto split: client.splits)
next
  case (Clear i)
  with ev inv show ?thesis
    by (auto simp: lock_event_def lock_inv_def split: client.splits) (metis clearing.simps(1))+
next
  case (ClearFails i)
  with ev inv show ?thesis
    by (auto simp: lock_event_def lock_inv_try_put lock_inv_goto split: client.splits)
next
  case (Wake i jitter)
  with ev inv show ?thesis
    by (auto simp: lock_event_def lock_inv_try_put split: client.splits if_splits)
next
  case (Release i)
  with ev inv show ?thesis
    by (auto simp: lock_event_def lock_inv_goto split: client.splits)
next
  case (ReleaseRead i)
  have "release_read i t (NamedDeleting t) s = goto i Idle s" if t: "sys_client s i = NamedReading t" for t
  proof -
    have "cell_token (sys_cell s) \<noteq> Some t"
      using inv t unfolding lock_inv_def by blast
    then show ?thesis
      by (auto simp: release_read_def cell_token_def cell_handle_def split: option.split stored_value.splits)
  qed
  with ReleaseRead ev inv show ?thesis
    by (auto simp: lock_event_def lock_inv_goto split: client.splits)
      (auto simp: release_read_def lock_inv_goto split: option.split)
next
  case (ReleaseDelete i)
  then obtain h where pc: "sys_client s i = ReleaseDeleting h" and s': "s' = goto i Idle (s\<lparr>sys_cell := None\<rparr>)"
    using ev inv unfolding lock_inv_def by (auto simp: lock_event_def split: client.splits) (metis clearing.simps(2))+
  have "client_lock (sys_client s j) = None" if "j \<noteq> i" for j
    using lock_inv_exclusive [OF inv, of i j] pc that
    by (cases "client_lock (sys_client s j)") (auto simp: lock_held_def)
  with inv show ?thesis
    by (auto simp: s' lock_inv_def goto_def cell_token_def cell_handle_def)
next
  case (ReleaseNamed i token)
  with ev inv calm show ?thesis
    by (auto simp: lock_event_def lock_inv_def goto_def takeover_def split: if_splits) blast+
next
  case (Ask i)
  with ev inv show ?thesis
    by (auto simp: lock_event_def lock_inv_goto split: if_splits)
next
  case (AskRead i)
  with ev inv calm show ?thesis
    by (auto simp: lock_event_def takeover_def ask_read_def isLocked_def calm_def isValidLockPayload_def lock_inv_goto
        split: client.splits option.splits stored_value.splits)
next
  case (AskDelete i)
  with ev inv show ?thesis
    by (auto simp: lock_event_def lock_inv_def split: client.splits) (metis clearing.simps(3))+
qed

lemma lock_reach_inv: "lock_reach s \<Longrightarrow> lock_inv s"
proof (induction rule: lock_reach.induct)
  case start
  then show ?case
    by (simp add: lock_init_def lock_inv_def)
next
  case step
  then show ?case
    using lock_inv_event by blast
qed

lemma lock_reach_run:
  "lock_reach s \<Longrightarrow> undisturbed evs s \<Longrightarrow> lock_run evs s = Some s' \<Longrightarrow> lock_reach s'"
  by (induction evs arbitrary: s) (auto split: option.splits intro: lock_reach.step)

interpretation dl: lock_service lock_reach lock_held
  by unfold_locales (rule lock_inv_exclusive [OF lock_reach_inv])

lemmas lock_defs = lock_event_def goto_def try_put_def put_lock_def read_lock_def release_read_def
  ask_read_def isLocked_def takeover_def cell_token_def cell_handle_def calm_def isExpiredLockPayload_def isValidLockPayload_def computeBackoff_def Let_def

text \<open>
  C5 (locks). In every run of any number of clients that acquire and release, ask with \<open>isLocked\<close> and
  \<open>getLockInfo\<close> and release by name with tokens that are not in use, at most one client is between
  its successful \<open>acquire\<close> and the end of its \<open>release\<close>, as long as no client reads a lock that
  has expired or that cannot be read and decides to delete it.
\<close>

theorem lock_mutual_exclusion:
  assumes "lock_run evs lock_init = Some s" and "undisturbed evs lock_init"
  shows "finite {i. lock_held s i} \<and> card {i. lock_held s i} \<le> 1"
  by (rule dl.at_most_one [OF lock_reach_run [OF lock_reach.start assms(2,1)]])

definition contended_run :: "lock_event list" where
  "contended_run = [Acquire 0 LOCK_DEFAULTS 7, Put 0, Acquire 1 (LOCK_DEFAULTS\<lparr>ao_timeout := None\<rparr>) 8, Put 1,
     Ask 2, AskRead 2, Tick 20, Read 1, Release 0, ReleaseRead 0, ReleaseDelete 0, Tick 150, Wake 1 10, Put 1,
     ReleaseNamed 0 7, ReleaseRead 0]"

theorem lock_mutual_exclusion_witness:
  "undisturbed contended_run lock_init \<and> (\<exists>s. lock_run contended_run lock_init = Some s \<and>
     finite {i. lock_held s i} \<and> card {i. lock_held s i} \<le> 1)"
proof -
  have "undisturbed contended_run lock_init" and run: "\<exists>s. lock_run contended_run lock_init = Some s"
    by (simp_all add: contended_run_def lock_init_def lock_defs LOCK_DEFAULTS_def)
  with lock_mutual_exclusion show ?thesis
    by blast
qed

text \<open>
  Locks. A holder hands the lock over: when its \<open>release\<close> is through, a client that waits in
  \<open>acquire\<close> gets the lock with its next write, and the first one no longer holds it.
\<close>

theorem lock_handover:
  assumes "lock_reach s" and "sys_client s i = Holding h" and "sys_client s j = Putting aq"
  shows "\<exists>s'. lock_run [Release i, ReleaseRead i, ReleaseDelete i, Put j] s = Some s' \<and>
     lock_held s' j \<and> \<not> lock_held s' i"
proof -
  have "i \<noteq> j"
    using assms(2,3) by auto
  moreover obtain li where "sys_cell s = Some (Lock li)" and "li_token li = lh_token h"
    using lock_reach_inv [OF assms(1)] assms(2)
    by (auto simp: lock_inv_def cell_handle_def split: option.splits stored_value.splits dest!: spec [of _ i])
  ultimately show ?thesis
    using assms(2,3) by (simp add: lock_defs lock_held_def)
qed

definition two_clients :: "lock_system" where
  "two_clients = the (lock_run [Acquire 0 LOCK_DEFAULTS 7, Put 0, Acquire 1 LOCK_DEFAULTS 8] lock_init)"

theorem lock_handover_witness:
  "\<exists>s'. lock_run [Release 0, ReleaseRead 0, ReleaseDelete 0, Put 1] two_clients = Some s' \<and>
     lock_held s' 1 \<and> \<not> lock_held s' 0"
proof -
  let ?evs = "[Acquire 0 LOCK_DEFAULTS 7, Put 0, Acquire 1 LOCK_DEFAULTS 8]"
  have "lock_reach two_clients"
    unfolding two_clients_def
    by (rule lock_reach_run [OF lock_reach.start, of ?evs]) (simp_all add: lock_init_def lock_defs LOCK_DEFAULTS_def)
  then show ?thesis
    by (rule lock_handover) (simp_all add: two_clients_def lock_init_def lock_defs LOCK_DEFAULTS_def)
qed

text \<open>
  Locks. Taking over is not safe. A lock expires and two clients read it; the first one deletes
  it and acquires; the delete of the second one, decided on the old lock, removes the new one, and
  the second one acquires too. Two clients then hold locks that have not expired.
\<close>

definition takeover_race :: "lock_event list" where
  "takeover_race = (let opts = LOCK_DEFAULTS\<lparr>ao_timeout := None\<rparr> in
     [Acquire 0 opts 7, Put 0, Tick 30001, Acquire 1 opts 8, Put 1, Acquire 2 opts 9, Put 2,
      Read 1, Read 2, Clear 1, Put 1, Clear 2, Put 2])"

theorem takeover_is_not_exclusive:
  "\<exists>s h k. lock_run takeover_race lock_init = Some s \<and>
     sys_client s 1 = Holding h \<and> sys_client s 2 = Holding k \<and>
     sys_now s < lh_expiresAt h \<and> sys_now s < lh_expiresAt k"
  by (simp add: takeover_race_def lock_init_def lock_defs LOCK_DEFAULTS_def)

end
