(* ===== verification/Mutex.thy ===== *)
theory Mutex
  imports Locks
begin

text \<open>
  \<open>src/plugins/concerns/s3-mutex.class.ts\<close> over the conditional writes of
  \<open>src/concerns/plugin-storage.ts\<close>: a mutex kept as one stored object with a version. A client is an
  automaton whose states are the awaits of \<open>tryLock\<close>, \<open>unlock\<close> and \<open>extend\<close>, and each storage
  request is atomic. The version (ETag) of an object is a digest of its body; the model takes the
  body itself. Lock identifiers are fresh arguments, times are milliseconds.

  Takeover by a conditional write is exclusive; the delete of \<open>unlock\<close> is a HEAD followed by an
  unconditional DELETE, and is only safe while the deleted lock is the caller's or has expired.
\<close>

record mutex_lock =
  mx_lockId :: nat
  mx_holderId :: ustring
  mx_acquiredAt :: nat
  mx_expiresAt :: nat

text \<open>A stored object: the data and the \<open>_expiresAt\<close> that \<open>set\<close> adds for the ttl.\<close>

record mutex_object =
  mo_data :: mutex_lock
  mo_expiresAt :: nat

section \<open>The storage requests\<close>

definition storage_set :: "mutex_lock \<Rightarrow> nat \<Rightarrow> nat \<Rightarrow> mutex_object" where
  "storage_set d ttl now = \<lparr>mo_data = d, mo_expiresAt = now + ttl * 1000\<rparr>"

definition setIfNotExists :: "mutex_lock \<Rightarrow> nat \<Rightarrow> nat \<Rightarrow> mutex_object option \<Rightarrow> mutex_object option" where
  "setIfNotExists d ttl now cell = (case cell of None \<Rightarrow> Some (storage_set d ttl now) | Some _ \<Rightarrow> None)"

definition setIfVersion ::
  "mutex_lock \<Rightarrow> mutex_object \<Rightarrow> nat \<Rightarrow> nat \<Rightarrow> mutex_object option \<Rightarrow> mutex_object option" where
  "setIfVersion d version ttl now cell = (if cell = Some version then Some (storage_set d ttl now) else None)"

text \<open>\<open>Stale\<close>: the object is past its ttl; \<open>getWithVersion\<close> deletes the key and answers nothing.\<close>

datatype versioned = Missing | Stale | Found mutex_lock mutex_object

definition getWithVersion :: "nat \<Rightarrow> mutex_object option \<Rightarrow> versioned" where
  "getWithVersion now cell = (case cell of
     None \<Rightarrow> Missing
   | Some ob \<Rightarrow> if mo_expiresAt ob \<noteq> 0 \<and> now > mo_expiresAt ob then Stale else Found (mo_data ob) ob)"

text \<open>The HEAD of \<open>deleteIfVersion\<close>: whether the DELETE follows.\<close>

definition versionMatches :: "mutex_object \<Rightarrow> mutex_object option \<Rightarrow> bool" where
  "versionMatches version cell \<longleftrightarrow> cell = Some version"

definition lock_ttl :: "nat \<Rightarrow> nat" where
  "lock_ttl ttlMs = (ttlMs + 999) div 1000 + 60"

section \<open>The clients\<close>

datatype mutex_client =
    Free
  | Creating mutex_lock nat
  | Inspecting mutex_lock nat
  | Replacing mutex_lock nat mutex_object
  | Owning mutex_lock
  | UnlockReading mutex_lock
  | UnlockChecking mutex_lock mutex_object
  | UnlockDeleting mutex_lock
  | ExtendReading mutex_lock nat
  | ExtendWriting mutex_lock nat mutex_lock mutex_object
  | Purging mutex_client

record mutex_system =
  ms_cell :: "mutex_object option"
  ms_now :: nat
  ms_client :: "nat \<Rightarrow> mutex_client"
  ms_ids :: "nat set"

definition mutex_init :: mutex_system where
  "mutex_init = \<lparr>ms_cell = None, ms_now = 0, ms_client = (\<lambda>i. Free), ms_ids = {}\<rparr>"

definition become :: "nat \<Rightarrow> mutex_client \<Rightarrow> mutex_system \<Rightarrow> mutex_system" where
  "become i c s = s\<lparr>ms_client := (ms_client s)(i := c)\<rparr>"

definition new_lock :: "nat \<Rightarrow> ustring \<Rightarrow> nat \<Rightarrow> nat \<Rightarrow> mutex_lock" where
  "new_lock lockId holderId now ttlMs =
     \<lparr>mx_lockId = lockId, mx_holderId = holderId, mx_acquiredAt = now, mx_expiresAt = now + ttlMs\<rparr>"

text \<open>
  The next await of a client whose storage request is answered. \<open>Free\<close> after \<open>tryLock\<close> means that
  it answered \<open>acquired: false\<close>, after \<open>unlock\<close> that the call is over; \<open>extend\<close> leaves the caller
  with the old or the extended lock.
\<close>

definition inspect :: "mutex_lock \<Rightarrow> nat \<Rightarrow> versioned \<Rightarrow> mutex_client" where
  "inspect lk ttlMs r = (case r of
     Missing \<Rightarrow> Free
   | Stale \<Rightarrow> Purging Free
   | Found existing version \<Rightarrow>
       if mx_expiresAt existing \<le> mx_acquiredAt lk then Replacing lk ttlMs version else Free)"

definition unlock_read :: "mutex_lock \<Rightarrow> versioned \<Rightarrow> mutex_client" where
  "unlock_read lk r = (case r of
     Missing \<Rightarrow> Free
   | Stale \<Rightarrow> Purging Free
   | Found existing version \<Rightarrow> if mx_lockId existing \<noteq> mx_lockId lk then Free else UnlockChecking lk version)"

definition extend_read :: "mutex_lock \<Rightarrow> nat \<Rightarrow> nat \<Rightarrow> versioned \<Rightarrow> mutex_client" where
  "extend_read lk ttlMs now r = (case r of
     Missing \<Rightarrow> Owning lk
   | Stale \<Rightarrow> Purging (Owning lk)
   | Found existing version \<Rightarrow>
       if mx_lockId existing \<noteq> mx_lockId lk then Owning lk
       else if mx_expiresAt existing \<le> now then Owning lk
       else ExtendWriting lk ttlMs (existing\<lparr>mx_expiresAt := now + ttlMs\<rparr>) version)"

datatype mutex_event =
    Elapse nat
  | TryLock nat nat ustring nat
  | Unlock nat
  | Extend nat nat
  | Request nat
  | RequestFails nat

definition mutex_request :: "nat \<Rightarrow> mutex_system \<Rightarrow> mutex_system option" where
  "mutex_request i s = (case ms_client s i of
     Creating lk ttlMs \<Rightarrow> (case setIfNotExists lk (lock_ttl ttlMs) (ms_now s) (ms_cell s) of
         Some ob \<Rightarrow> Some (become i (Owning lk) (s\<lparr>ms_cell := Some ob\<rparr>))
       | None \<Rightarrow> Some (become i (Inspecting lk ttlMs) s))
   | Inspecting lk ttlMs \<Rightarrow> Some (become i (inspect lk ttlMs (getWithVersion (ms_now s) (ms_cell s))) s)
   | Replacing lk ttlMs version \<Rightarrow>
       (case setIfVersion lk version (lock_ttl ttlMs) (ms_now s) (ms_cell s) of
         Some ob \<Rightarrow> Some (become i (Owning lk) (s\<lparr>ms_cell := Some ob\<rparr>))
       | None \<Rightarrow> Some (become i Free s))
   | UnlockReading lk \<Rightarrow> Some (become i (unlock_read lk (getWithVersion (ms_now s) (ms_cell s))) s)
   | UnlockChecking lk version \<Rightarrow>
       Some (become i (if versionMatches version (ms_cell s) then UnlockDeleting lk else Free) s)
   | UnlockDeleting lk \<Rightarrow> Some (become i Free (s\<lparr>ms_cell := None\<rparr>))
   | ExtendReading lk ttlMs \<Rightarrow>
       Some (become i (extend_read lk ttlMs (ms_now s) (getWithVersion (ms_now s) (ms_cell s))) s)
   | ExtendWriting lk ttlMs updated version \<Rightarrow>
       (case setIfVersion updated version (lock_ttl ttlMs) (ms_now s) (ms_cell s) of
         Some ob \<Rightarrow> Some (become i (Owning updated) (s\<lparr>ms_cell := Some ob\<rparr>))
       | None \<Rightarrow> Some (become i (Owning lk) s))
   | Purging c \<Rightarrow> Some (become i c (s\<lparr>ms_cell := None\<rparr>))
   | Free \<Rightarrow> None
   | Owning lk \<Rightarrow> None)"

text \<open>A request that throws makes the call throw; the caller is left with the lock it had.\<close>

fun abandon :: "mutex_client \<Rightarrow> mutex_client option" where
  "abandon (Creating lk ttlMs) = Some Free"
| "abandon (Inspecting lk ttlMs) = Some Free"
| "abandon (Replacing lk ttlMs version) = Some Free"
| "abandon (UnlockReading lk) = Some (Owning lk)"
| "abandon (UnlockChecking lk version) = Some (Owning lk)"
| "abandon (UnlockDeleting lk) = Some Free"
| "abandon (ExtendReading lk ttlMs) = Some (Owning lk)"
| "abandon (ExtendWriting lk ttlMs updated version) = Some (Owning lk)"
| "abandon (Purging c) = Some c"
| "abandon c = None"

definition mutex_event :: "mutex_event \<Rightarrow> mutex_system \<Rightarrow> mutex_system option" where
  "mutex_event ev s = (case ev of
     Elapse d \<Rightarrow> Some (s\<lparr>ms_now := ms_now s + d\<rparr>)
   | TryLock i lockId holderId ttlMs \<Rightarrow>
       if ms_client s i = Free \<and> lockId \<notin> ms_ids s
       then Some (become i (Creating (new_lock lockId holderId (ms_now s) ttlMs) ttlMs)
         (s\<lparr>ms_ids := insert lockId (ms_ids s)\<rparr>))
       else None
   | Unlock i \<Rightarrow> (case ms_client s i of Owning lk \<Rightarrow> Some (become i (UnlockReading lk) s) | _ \<Rightarrow> None)
   | Extend i ttlMs \<Rightarrow> (case ms_client s i of
         Owning lk \<Rightarrow> if ttlMs = 0 then Some s else Some (become i (ExtendReading lk ttlMs) s)
       | _ \<Rightarrow> None)
   | Request i \<Rightarrow> mutex_request i s
   | RequestFails i \<Rightarrow> (case abandon (ms_client s i) of None \<Rightarrow> None | Some c \<Rightarrow> Some (become i c s)))"

fun mutex_run :: "mutex_event list \<Rightarrow> mutex_system \<Rightarrow> mutex_system option" where
  "mutex_run [] s = Some s"
| "mutex_run (ev # evs) s = (case mutex_event ev s of None \<Rightarrow> None | Some s' \<Rightarrow> mutex_run evs s')"

section \<open>Asking about the mutex\<close>

definition mutexIsLocked :: "nat \<Rightarrow> versioned \<Rightarrow> bool" where
  "mutexIsLocked now r = (case r of Found lk version \<Rightarrow> mx_expiresAt lk > now | _ \<Rightarrow> False)"

definition mutexGetLockInfo :: "versioned \<Rightarrow> mutex_lock option" where
  "mutexGetLockInfo r = (case r of Found lk version \<Rightarrow> Some lk | _ \<Rightarrow> None)"

section \<open>Exclusion of unexpired locks\<close>

fun owned :: "mutex_client \<Rightarrow> mutex_lock option" where
  "owned (Owning lk) = Some lk"
| "owned (UnlockReading lk) = Some lk"
| "owned (UnlockChecking lk version) = Some lk"
| "owned (UnlockDeleting lk) = Some lk"
| "owned (ExtendReading lk ttlMs) = Some lk"
| "owned (ExtendWriting lk ttlMs updated version) = Some lk"
| "owned (Purging c) = owned c"
| "owned c = None"

fun lock_id :: "mutex_client \<Rightarrow> nat option" where
  "lock_id (Creating lk ttlMs) = Some (mx_lockId lk)"
| "lock_id (Inspecting lk ttlMs) = Some (mx_lockId lk)"
| "lock_id (Replacing lk ttlMs version) = Some (mx_lockId lk)"
| "lock_id (Purging c) = lock_id c"
| "lock_id c = map_option mx_lockId (owned c)"

definition unexpired_owner :: "mutex_system \<Rightarrow> nat \<Rightarrow> bool" where
  "unexpired_owner s i \<longleftrightarrow> (case owned (ms_client s i) of None \<Rightarrow> False | Some lk \<Rightarrow> mx_expiresAt lk > ms_now s)"

text \<open>
  A delete is untimely when the object it removes is an unexpired lock of somebody else: the
  \<open>DELETE\<close> of an \<open>unlock\<close>, or the one of a read that found the object past its ttl.
\<close>

definition untimely :: "mutex_event \<Rightarrow> mutex_system \<Rightarrow> bool" where
  "untimely ev s \<longleftrightarrow> (case ev of
     Request i \<Rightarrow> (case ms_client s i of
         UnlockDeleting lk \<Rightarrow> (case ms_cell s of
             None \<Rightarrow> False
           | Some ob \<Rightarrow> mx_expiresAt (mo_data ob) > ms_now s \<and> mx_lockId (mo_data ob) \<noteq> mx_lockId lk)
       | Purging c \<Rightarrow> (case ms_cell s of None \<Rightarrow> False | Some ob \<Rightarrow> mx_expiresAt (mo_data ob) > ms_now s)
       | _ \<Rightarrow> False)
   | _ \<Rightarrow> False)"

fun timely :: "mutex_event list \<Rightarrow> mutex_system \<Rightarrow> bool" where
  "timely [] s = True"
| "timely (ev # evs) s \<longleftrightarrow>
     \<not> untimely ev s \<and> (case mutex_event ev s of None \<Rightarrow> True | Some s' \<Rightarrow> timely evs s')"

inductive mutex_reach :: "mutex_system \<Rightarrow> bool" where
  start: "mutex_reach mutex_init"
| step: "mutex_reach s \<Longrightarrow> mutex_event ev s = Some s' \<Longrightarrow> \<not> untimely ev s \<Longrightarrow> mutex_reach s'"

text \<open>
  The invariant, for one client: the object backs the lock it owns unless that lock has expired,
  and a conditional write it is about to make replaces its own or an expired lock.
\<close>

definition backed :: "mutex_object option \<Rightarrow> nat \<Rightarrow> mutex_lock \<Rightarrow> bool" where
  "backed cell now lk \<longleftrightarrow> mx_expiresAt lk \<le> now \<or>
     (\<exists>ob. cell = Some ob \<and> mx_lockId (mo_data ob) = mx_lockId lk \<and> mx_expiresAt lk \<le> mx_expiresAt (mo_data ob))"

fun sound_client :: "nat \<Rightarrow> mutex_client \<Rightarrow> bool" where
  "sound_client now (Creating lk ttlMs) \<longleftrightarrow> mx_acquiredAt lk \<le> now"
| "sound_client now (Inspecting lk ttlMs) \<longleftrightarrow> mx_acquiredAt lk \<le> now"
| "sound_client now (Replacing lk ttlMs version) \<longleftrightarrow> mx_expiresAt (mo_data version) \<le> now"
| "sound_client now (ExtendWriting lk ttlMs updated version) \<longleftrightarrow>
     mx_lockId (mo_data version) = mx_lockId lk \<and> mx_lockId updated = mx_lockId lk"
| "sound_client now (Purging c) \<longleftrightarrow> sound_client now c"
| "sound_client now c \<longleftrightarrow> True"

definition mutex_inv :: "mutex_system \<Rightarrow> bool" where
  "mutex_inv s \<longleftrightarrow>
     (\<forall>i. sound_client (ms_now s) (ms_client s i)) \<and>
     (\<forall>i lk. owned (ms_client s i) = Some lk \<longrightarrow> backed (ms_cell s) (ms_now s) lk) \<and>
     (\<forall>i t. lock_id (ms_client s i) = Some t \<longrightarrow> t \<in> ms_ids s) \<and>
     (\<forall>i j t. lock_id (ms_client s i) = Some t \<longrightarrow> lock_id (ms_client s j) = Some t \<longrightarrow> i = j)"

lemma owned_lock_id: "owned c = Some lk \<Longrightarrow> lock_id c = Some (mx_lockId lk)"
  by (induction c) auto

lemma sound_client_mono: "sound_client now c \<Longrightarrow> now \<le> now' \<Longrightarrow> sound_client now' c"
  by (induction c) auto

lemma backed_mono: "backed cell now lk \<Longrightarrow> now \<le> now' \<Longrightarrow> backed cell now' lk"
  by (auto simp: backed_def)

lemma mutex_inv_exclusive:
  assumes "mutex_inv s" and "unexpired_owner s i" and "unexpired_owner s j"
  shows "i = j"
proof -
  obtain a b where a: "owned (ms_client s i) = Some a" "mx_expiresAt a > ms_now s"
    and b: "owned (ms_client s j) = Some b" "mx_expiresAt b > ms_now s"
    using assms(2,3) by (auto simp: unexpired_owner_def split: option.splits)
  have "backed (ms_cell s) (ms_now s) a" and "backed (ms_cell s) (ms_now s) b"
    using assms(1) a b unfolding mutex_inv_def by blast+
  with a(2) b(2) have "mx_lockId a = mx_lockId b"
    by (auto simp: backed_def)
  with owned_lock_id [OF a(1)] owned_lock_id [OF b(1)] assms(1) show ?thesis
    unfolding mutex_inv_def by metis
qed

text \<open>
  One client takes a step: its own condition and the ones of the others are re-established apart.
\<close>

lemma mutex_inv_step:
  assumes inv: "mutex_inv s" and sound: "sound_client (ms_now s) c"
    and own: "\<And>lk. owned c = Some lk \<Longrightarrow> backed cell (ms_now s) lk"
    and others: "\<And>j lk. j \<noteq> i \<Longrightarrow> owned (ms_client s j) = Some lk \<Longrightarrow> backed cell (ms_now s) lk"
    and ids: "lock_id c = lock_id (ms_client s i) \<or> lock_id c = None"
  shows "mutex_inv (become i c (s\<lparr>ms_cell := cell\<rparr>))"
proof -
  have id: "lock_id (ms_client (become i c (s\<lparr>ms_cell := cell\<rparr>)) j) = Some t \<Longrightarrow>
      lock_id (ms_client s j) = Some t" for j t
    using ids by (auto simp: become_def split: if_splits)
  show ?thesis
    unfolding mutex_inv_def
  proof (intro conjI allI impI)
    show "sound_client (ms_now (become i c (s\<lparr>ms_cell := cell\<rparr>))) (ms_client (become i c (s\<lparr>ms_cell := cell\<rparr>)) j)" for j
      using inv sound by (simp add: become_def mutex_inv_def)
    show "backed (ms_cell (become i c (s\<lparr>ms_cell := cell\<rparr>))) (ms_now (become i c (s\<lparr>ms_cell := cell\<rparr>))) lk"
      if "owned (ms_client (become i c (s\<lparr>ms_cell := cell\<rparr>)) j) = Some lk" for j lk
      using that own others [of j lk] by (simp add: become_def split: if_splits)
    show "t \<in> ms_ids (become i c (s\<lparr>ms_cell := cell\<rparr>))"
      if "lock_id (ms_client (become i c (s\<lparr>ms_cell := cell\<rparr>)) j) = Some t" for j t
      using id [OF that] inv by (simp add: become_def mutex_inv_def)
    show "j = k" if "lock_id (ms_client (become i c (s\<lparr>ms_cell := cell\<rparr>)) j) = Some t"
      and "lock_id (ms_client (become i c (s\<lparr>ms_cell := cell\<rparr>)) k) = Some t" for j k t
      using id [OF that(1)] id [OF that(2)] inv unfolding mutex_inv_def by blast
  qed
qed

lemma mutex_inv_backed: "mutex_inv s \<Longrightarrow> owned (ms_client s j) = Some lk \<Longrightarrow> backed (ms_cell s) (ms_now s) lk"
  by (simp add: mutex_inv_def)

lemma mutex_inv_become:
  assumes inv: "mutex_inv s" and sound: "sound_client (ms_now s) c"
    and own: "owned c = owned (ms_client s i) \<or> owned c = None"
    and ids: "lock_id c = lock_id (ms_client s i) \<or> lock_id c = None"
  shows "mutex_inv (become i c s)"
  using mutex_inv_step [OF inv sound, of "ms_cell s" i] own ids mutex_inv_backed [OF inv] by auto

text \<open>The object may be replaced or removed when it holds an expired lock or the one of the client itself.\<close>

lemma others_backed:
  assumes inv: "mutex_inv s" and "j \<noteq> i" and own: "owned (ms_client s j) = Some lk"
    and old: "\<And>ob. ms_cell s = Some ob \<Longrightarrow>
      mx_expiresAt (mo_data ob) \<le> ms_now s \<or> lock_id (ms_client s i) = Some (mx_lockId (mo_data ob))"
  shows "backed cell (ms_now s) lk"
proof (cases "mx_expiresAt lk \<le> ms_now s")
  case False
  then obtain ob where ob: "ms_cell s = Some ob" "mx_lockId (mo_data ob) = mx_lockId lk"
      "mx_expiresAt lk \<le> mx_expiresAt (mo_data ob)"
    using mutex_inv_backed [OF inv own] by (auto simp: backed_def)
  with old [OF ob(1)] False have "lock_id (ms_client s i) = Some (mx_lockId lk)"
    by auto
  with owned_lock_id [OF own] inv \<open>j \<noteq> i\<close> show ?thesis
    unfolding mutex_inv_def by metis
qed (simp add: backed_def)

lemma mutex_inv_elapse: "mutex_inv s \<Longrightarrow> mutex_inv (s\<lparr>ms_now := ms_now s + d\<rparr>)"
  using sound_client_mono backed_mono unfolding mutex_inv_def by (auto simp: trans_le_add1) (metis le_add1)+

lemma mutex_inv_request:
  assumes inv: "mutex_inv s" and req: "mutex_request i s = Some s'" and timely: "\<not> untimely (Request i) s"
  shows "mutex_inv s'"
proof (cases "ms_client s i")
  case (Creating lk ttlMs)
  have sound: "mx_acquiredAt lk \<le> ms_now s"
    using inv Creating unfolding mutex_inv_def by (metis sound_client.simps(1))
  show ?thesis
  proof (cases "ms_cell s")
    case None
    with req Creating show ?thesis
      using mutex_inv_step [OF inv, of "Owning lk" _ i] others_backed [OF inv, of _ i]
      by (auto simp: mutex_request_def setIfNotExists_def storage_set_def backed_def)
  next
    case (Some ob)
    with req Creating sound show ?thesis
      by (auto simp: mutex_request_def setIfNotExists_def intro!: mutex_inv_become [OF inv])
  qed
next
  case (Inspecting lk ttlMs)
  have "mx_acquiredAt lk \<le> ms_now s"
    using inv Inspecting unfolding mutex_inv_def by (metis sound_client.simps(2))
  then show ?thesis
    using req Inspecting
    by (auto simp: mutex_request_def inspect_def getWithVersion_def split: option.splits if_splits intro!: mutex_inv_become [OF inv])
next
  case (Replacing lk ttlMs version)
  have sound: "mx_expiresAt (mo_data version) \<le> ms_now s"
    using inv Replacing unfolding mutex_inv_def by (metis sound_client.simps(3))
  with req Replacing show ?thesis
    using mutex_inv_step [OF inv, of "Owning lk" _ i] others_backed [OF inv, of _ i]
      mutex_inv_become [OF inv, of Free i]
    by (auto simp: mutex_request_def setIfVersion_def storage_set_def backed_def split: if_splits)
next
  case (UnlockReading lk)
  with req show ?thesis
    by (auto simp: mutex_request_def unlock_read_def getWithVersion_def split: option.splits if_splits intro!: mutex_inv_become [OF inv])
next
  case (UnlockChecking lk version)
  with req show ?thesis
    by (auto simp: mutex_request_def split: if_splits intro!: mutex_inv_become [OF inv])
next
  case (UnlockDeleting lk)
  with req timely show ?thesis
    using mutex_inv_step [OF inv, of Free None i] others_backed [OF inv, of _ i]
    by (fastforce simp: mutex_request_def untimely_def split: option.splits)
next
  case (ExtendReading lk ttlMs)
  with req show ?thesis
    by (auto simp: mutex_request_def extend_read_def getWithVersion_def split: option.splits if_splits intro!: mutex_inv_become [OF inv])
next
  case (ExtendWriting lk ttlMs updated version)
  have "mx_lockId (mo_data version) = mx_lockId lk" and "mx_lockId updated = mx_lockId lk"
    using inv ExtendWriting unfolding mutex_inv_def by (metis sound_client.simps(4))+
  with req ExtendWriting show ?thesis
    using mutex_inv_step [OF inv, of "Owning updated" _ i] others_backed [OF inv, of _ i]
      mutex_inv_become [OF inv, of "Owning lk" i]
    by (auto simp: mutex_request_def setIfVersion_def storage_set_def backed_def split: if_splits)
next
  case (Purging c)
  have "sound_client (ms_now s) c"
    using inv Purging unfolding mutex_inv_def by (metis sound_client.simps(5))
  moreover have "s' = become i c (s\<lparr>ms_cell := None\<rparr>)"
    using req Purging by (simp add: mutex_request_def)
  moreover have "backed None (ms_now s) lk" if "owned (ms_client s j) = Some lk" for j lk
    using mutex_inv_backed [OF inv that] timely Purging
    by (auto simp: backed_def untimely_def)
  moreover from this [of i] Purging have "owned c = Some lk \<Longrightarrow> backed None (ms_now s) lk" for lk
    by simp
  ultimately show ?thesis
    using Purging by (auto intro!: mutex_inv_step [OF inv])
qed (use req in \<open>simp_all add: mutex_request_def\<close>)

lemma mutex_inv_event:
  assumes inv: "mutex_inv s" and ev: "mutex_event ev s = Some s'" and timely: "\<not> untimely ev s"
  shows "mutex_inv s'"
proof (cases ev)
  case (Elapse d)
  with ev mutex_inv_elapse [OF inv] show ?thesis
    by (auto simp: mutex_event_def)
next
  case (TryLock i lockId holderId ttlMs)
  with ev inv show ?thesis
    by (auto simp: mutex_event_def mutex_inv_def become_def new_lock_def split: if_splits)
next
  case (Unlock i)
  with ev show ?thesis
    by (auto simp: mutex_event_def split: mutex_client.splits intro!: mutex_inv_become [OF inv])
next
  case (Extend i ttlMs)
  with ev inv show ?thesis
    by (auto simp: mutex_event_def split: mutex_client.splits if_splits intro!: mutex_inv_become [OF inv])
next
  case (Request i)
  with ev timely inv show ?thesis
    by (simp add: mutex_event_def mutex_inv_request)
next
  case (RequestFails i)
  then obtain c where c: "abandon (ms_client s i) = Some c" and s': "s' = become i c s"
    using ev by (auto simp: mutex_event_def split: option.splits)
  have "sound_client (ms_now s) (ms_client s i)"
    using inv by (simp add: mutex_inv_def)
  with c show ?thesis
    unfolding s' by (cases "ms_client s i") (auto intro!: mutex_inv_become [OF inv])
qed

lemma mutex_reach_inv: "mutex_reach s \<Longrightarrow> mutex_inv s"
proof (induction rule: mutex_reach.induct)
  case start
  then show ?case
    by (simp add: mutex_init_def mutex_inv_def)
next
  case step
  then show ?case
    using mutex_inv_event by blast
qed

lemma mutex_reach_run:
  "mutex_reach s \<Longrightarrow> timely evs s \<Longrightarrow> mutex_run evs s = Some s' \<Longrightarrow> mutex_reach s'"
  by (induction evs arbitrary: s) (auto split: option.splits intro: mutex_reach.step)

interpretation mx: lock_service mutex_reach unexpired_owner
  by unfold_locales (rule mutex_inv_exclusive [OF mutex_reach_inv])

lemmas mutex_defs = mutex_event_def mutex_request_def become_def setIfNotExists_def setIfVersion_def
  storage_set_def getWithVersion_def inspect_def unlock_read_def extend_read_def versionMatches_def
  untimely_def new_lock_def lock_ttl_def unexpired_owner_def

text \<open>
  C4 (mutex). In every run in which each delete that is carried out removes an expired object or
  the caller's own, at most one client owns a mutex that has not expired; takeovers of expired
  locks, extensions and failing requests included.
\<close>

theorem mutex_exclusion:
  assumes "mutex_run evs mutex_init = Some s" and "timely evs mutex_init"
  shows "finite {i. unexpired_owner s i} \<and> card {i. unexpired_owner s i} \<le> 1"
  by (rule mx.at_most_one [OF mutex_reach_run [OF mutex_reach.start assms(2,1)]])

definition mutex_takeover_run :: "mutex_event list" where
  "mutex_takeover_run = [TryLock 0 10 (ju ''a'') 50, Request 0, Elapse 100,
     TryLock 1 11 (ju ''b'') 50, TryLock 2 12 (ju ''c'') 50, Request 1, Request 2, Request 1, Request 2,
     Request 1, Request 2, Unlock 0, Request 0]"

theorem mutex_exclusion_witness:
  "timely mutex_takeover_run mutex_init \<and> (\<exists>s. mutex_run mutex_takeover_run mutex_init = Some s \<and>
     unexpired_owner s 1 \<and> finite {i. unexpired_owner s i} \<and> card {i. unexpired_owner s i} \<le> 1)"
proof -
  have timely: "timely mutex_takeover_run mutex_init"
    and run: "\<exists>s. mutex_run mutex_takeover_run mutex_init = Some s \<and> unexpired_owner s 1"
    by (simp_all add: mutex_takeover_run_def mutex_init_def mutex_defs)
  then obtain s where "mutex_run mutex_takeover_run mutex_init = Some s" "unexpired_owner s 1"
    by blast
  with timely mutex_exclusion [OF this(1) timely] show ?thesis
    by blast
qed

text \<open>
  Mutex. \<open>deleteIfVersion\<close> is not conditional: between its HEAD and its DELETE the lock may
  expire and be taken over, and the DELETE then removes the new owner's lock, so that a third
  client acquires the mutex beside it.
\<close>

definition unlock_race :: "mutex_event list" where
  "unlock_race = [TryLock 0 10 (ju ''a'') 50, Request 0, Unlock 0, Request 0, Request 0, Elapse 100,
     TryLock 1 11 (ju ''b'') 50, Request 1, Request 1, Request 1, Request 0,
     TryLock 2 12 (ju ''c'') 50, Request 2]"

theorem unlock_is_not_conditional:
  "\<exists>s. mutex_run unlock_race mutex_init = Some s \<and> unexpired_owner s 1 \<and> unexpired_owner s 2"
  by (simp add: unlock_race_def mutex_init_def mutex_defs)

end
