(* ===== verification/Sequence.thy ===== *)
theory Sequence
  imports Locks
begin

text \<open>
  \<open>src/concerns/distributed-sequence.ts\<close>: a counter kept as a stored value and read and written
  under the lock of \<open>Locks\<close>. The state is the lock's system, the value key and, for every client,
  where its call of \<open>next\<close> or \<open>reset\<close> is; \<open>sq_base\<close> and \<open>sq_issued\<close> record the value the counter
  started from and the numbers handed out since. The \<open>metadata\<close> option, which is spread into the
  stored value, is not modelled.

  While the lock is not taken over and nobody calls \<open>delete\<close>, the numbers handed out are
  consecutive (\<open>sequence_consecutive\<close>); \<open>delete\<close> removes the lock of a running call
  (\<open>sequence_delete_duplicates\<close>).
\<close>

record seq_data =
  sd_value :: int
  sd_createdAt :: nat
  sd_updatedAt :: "nat option"
  sd_resetAt :: "nat option"

record seq_options =
  so_initialValue :: int
  so_increment :: int
  so_lockTimeout :: nat
  so_lockTTL :: nat

definition SEQUENCE_DEFAULTS :: seq_options where
  "SEQUENCE_DEFAULTS = \<lparr>so_initialValue = 1, so_increment = 1, so_lockTimeout = 5000, so_lockTTL = 10\<rparr>"

datatype seq_task = Advance seq_options | ResetTo int

datatype seq_call =
    NoCall
  | Waiting seq_task
  | GotData seq_task "seq_data option"
  | Answer int
  | DeletingLock

record seq_system =
  sq_lock :: lock_system
  sq_value :: "seq_data option"
  sq_call :: "nat \<Rightarrow> seq_call"
  sq_base :: int
  sq_issued :: "int list"

definition seq_init :: "int \<Rightarrow> seq_system" where
  "seq_init b = \<lparr>sq_lock = lock_init, sq_value = None, sq_call = (\<lambda>i. NoCall), sq_base = b, sq_issued = []\<rparr>"

definition seq_lock_options :: "seq_options \<Rightarrow> acquire_options" where
  "seq_lock_options opts = LOCK_DEFAULTS\<lparr>ao_ttl := so_lockTTL opts, ao_timeout := Some (so_lockTimeout opts)\<rparr>"

text \<open>The callbacks of \<open>next\<close> and \<open>reset\<close>: what is stored and what is returned.\<close>

definition next_value :: "seq_options \<Rightarrow> nat \<Rightarrow> seq_data option \<Rightarrow> seq_data \<times> int" where
  "next_value opts now d = (case d of
     None \<Rightarrow> (\<lparr>sd_value = so_initialValue opts + so_increment opts, sd_createdAt = now,
         sd_updatedAt = None, sd_resetAt = None\<rparr>, so_initialValue opts)
   | Some v \<Rightarrow> (v\<lparr>sd_value := sd_value v + so_increment opts, sd_updatedAt := Some now\<rparr>, sd_value v))"

definition reset_value :: "int \<Rightarrow> nat \<Rightarrow> seq_data option \<Rightarrow> seq_data" where
  "reset_value value now d =
     \<lparr>sd_value = value,
      sd_createdAt = (case d of None \<Rightarrow> now | Some v \<Rightarrow> if sd_createdAt v = 0 then now else sd_createdAt v),
      sd_updatedAt = Some now, sd_resetAt = Some now\<rparr>"

definition seq_get :: "seq_data option \<Rightarrow> int option" where
  "seq_get d = map_option sd_value d"

definition seq_exists :: "seq_data option \<Rightarrow> bool" where
  "seq_exists d \<longleftrightarrow> seq_get d \<noteq> None"

definition seq_increment_result :: "seq_options \<Rightarrow> int \<Rightarrow> int" where
  "seq_increment_result opts preValue = preValue + so_increment opts"

datatype seq_event =
    Call nat seq_task seq_options nat
  | LockStep lock_event
  | GetValue nat
  | SetValue nat
  | CallFails nat
  | Return nat
  | DeleteValue nat
  | DeleteLock nat

definition seq_at :: "nat \<Rightarrow> seq_call \<Rightarrow> seq_system \<Rightarrow> seq_system" where
  "seq_at i c s = s\<lparr>sq_call := (sq_call s)(i := c)\<rparr>"

definition seq_lock :: "lock_event \<Rightarrow> seq_system \<Rightarrow> seq_system option" where
  "seq_lock ev s = map_option (\<lambda>l. s\<lparr>sq_lock := l\<rparr>) (lock_event ev (sq_lock s))"

fun holding :: "client \<Rightarrow> bool" where
  "holding (Holding h) = True"
| "holding c = False"

fun call_boundary :: "lock_event \<Rightarrow> bool" where
  "call_boundary (Acquire i opts token) = True"
| "call_boundary (Release i) = True"
| "call_boundary ev = False"

definition write_value :: "nat \<Rightarrow> seq_task \<Rightarrow> seq_data option \<Rightarrow> seq_system \<Rightarrow> seq_system" where
  "write_value i task d s = (case task of
     Advance opts \<Rightarrow>
       (case next_value opts (sys_now (sq_lock s)) d of
          (v, r) \<Rightarrow> seq_at i (Answer r) (s\<lparr>sq_value := Some v, sq_issued := sq_issued s @ [r]\<rparr>))
   | ResetTo value \<Rightarrow>
       seq_at i (Answer value) (s\<lparr>sq_value := Some (reset_value value (sys_now (sq_lock s)) d),
         sq_base := value, sq_issued := []\<rparr>))"

text \<open>
  A call starts when the client has no lock operation under way; the callback runs between the end
  of \<open>acquire\<close> and the start of \<open>release\<close>, which follows also when the callback throws.
\<close>

definition seq_event :: "seq_event \<Rightarrow> seq_system \<Rightarrow> seq_system option" where
  "seq_event ev s = (case ev of
     Call i task opts token \<Rightarrow>
       if sq_call s i \<in> {DeletingLock} then None
       else map_option (seq_at i (Waiting task)) (seq_lock (Acquire i (seq_lock_options opts) token) s)
   | LockStep lev \<Rightarrow> if call_boundary lev then None else seq_lock lev s
   | GetValue i \<Rightarrow> (case sq_call s i of
         Waiting task \<Rightarrow>
           if holding (sys_client (sq_lock s) i) then Some (seq_at i (GotData task (sq_value s)) s) else None
       | _ \<Rightarrow> None)
   | SetValue i \<Rightarrow> (case sq_call s i of GotData task d \<Rightarrow> Some (write_value i task d s) | _ \<Rightarrow> None)
   | CallFails i \<Rightarrow>
       (case sq_call s i of
         Waiting task \<Rightarrow> map_option (seq_at i NoCall) (seq_lock (Release i) s)
       | GotData task d \<Rightarrow> map_option (seq_at i NoCall) (seq_lock (Release i) s)
       | _ \<Rightarrow> None)
   | Return i \<Rightarrow> (case sq_call s i of
         Answer r \<Rightarrow> map_option (seq_at i NoCall) (seq_lock (Release i) s) | _ \<Rightarrow> None)
   | DeleteValue i \<Rightarrow>
       if sys_client (sq_lock s) i = Idle then Some (seq_at i DeletingLock (s\<lparr>sq_value := None\<rparr>)) else None
   | DeleteLock i \<Rightarrow> (case sq_call s i of
         DeletingLock \<Rightarrow> Some (seq_at i NoCall (s\<lparr>sq_lock := (sq_lock s)\<lparr>sys_cell := None\<rparr>\<rparr>))
       | _ \<Rightarrow> None))"

fun seq_run :: "seq_event list \<Rightarrow> seq_system \<Rightarrow> seq_system option" where
  "seq_run [] s = Some s"
| "seq_run (ev # evs) s = (case seq_event ev s of None \<Rightarrow> None | Some s' \<Rightarrow> seq_run evs s')"

section \<open>Consecutive numbers\<close>

text \<open>
  The runs of the claim: the calls of \<open>next\<close> use one \<open>initialValue\<close> and \<open>increment\<close>, nobody deletes,
  and no \<open>acquire\<close> takes the lock over.
\<close>

definition quiet :: "int \<Rightarrow> int \<Rightarrow> seq_event \<Rightarrow> seq_system \<Rightarrow> bool" where
  "quiet b inc ev s \<longleftrightarrow> (case ev of
     Call i (Advance opts) lopts token \<Rightarrow> so_initialValue opts = b \<and> so_increment opts = inc
   | LockStep lev \<Rightarrow> \<not> takeover lev (sq_lock s)
   | DeleteValue i \<Rightarrow> False
   | DeleteLock i \<Rightarrow> False
   | _ \<Rightarrow> True)"

fun quiet_run :: "int \<Rightarrow> int \<Rightarrow> seq_event list \<Rightarrow> seq_system \<Rightarrow> bool" where
  "quiet_run b inc [] s = True"
| "quiet_run b inc (ev # evs) s \<longleftrightarrow>
     quiet b inc ev s \<and> (case seq_event ev s of None \<Rightarrow> True | Some s' \<Rightarrow> quiet_run b inc evs s')"

definition progression :: "int \<Rightarrow> int \<Rightarrow> nat \<Rightarrow> int list" where
  "progression b inc n = map (\<lambda>k. b + inc * int k) [0..<n]"

fun call_ok :: "int \<Rightarrow> int \<Rightarrow> seq_data option \<Rightarrow> client \<Rightarrow> seq_call \<Rightarrow> bool" where
  "call_ok b inc v c (Waiting (Advance opts)) \<longleftrightarrow> so_initialValue opts = b \<and> so_increment opts = inc"
| "call_ok b inc v c (GotData task d) \<longleftrightarrow> holding c \<and> d = v \<and>
     (case task of Advance opts \<Rightarrow> so_initialValue opts = b \<and> so_increment opts = inc | ResetTo x \<Rightarrow> True)"
| "call_ok b inc v c DeletingLock \<longleftrightarrow> False"
| "call_ok b inc v c x \<longleftrightarrow> True"

definition seq_inv :: "int \<Rightarrow> int \<Rightarrow> seq_system \<Rightarrow> bool" where
  "seq_inv b inc s \<longleftrightarrow> lock_reach (sq_lock s) \<and>
     sq_issued s = progression (sq_base s) inc (length (sq_issued s)) \<and>
     (case sq_value s of
        None \<Rightarrow> sq_base s = b \<and> sq_issued s = []
      | Some v \<Rightarrow> sd_value v = sq_base s + inc * int (length (sq_issued s))) \<and>
     (\<forall>i. call_ok b inc (sq_value s) (sys_client (sq_lock s) i) (sq_call s i))"

lemma seq_lock_Some:
  "seq_lock ev s = Some s' \<longleftrightarrow> (\<exists>l. lock_event ev (sq_lock s) = Some l \<and> s' = s\<lparr>sq_lock := l\<rparr>)"
  by (auto simp: seq_lock_def)

lemma holding_lock_held: "holding (sys_client l i) \<Longrightarrow> lock_held l i"
  by (cases "sys_client l i") (simp_all add: lock_held_def)

lemma holding_goto: "j \<noteq> i \<Longrightarrow> sys_client (goto i c l) j = sys_client l j"
  by (simp add: goto_def)

lemma lock_event_others:
  assumes "lock_event ev l = Some l'" and "\<not> call_boundary ev" and "holding (sys_client l i)"
  shows "holding (sys_client l' i)"
  using assms
  by (cases ev) (auto simp: lock_event_def goto_def try_put_def put_lock_def read_lock_def release_read_def ask_read_def Let_def
      split: client.splits option.splits if_splits)

lemma release_others: "lock_event (Release i) l = Some l' \<Longrightarrow> j \<noteq> i \<Longrightarrow> sys_client l' j = sys_client l j"
  by (auto simp: lock_event_def goto_def split: client.splits)

lemma acquire_others: "lock_event (Acquire i opts t) l = Some l' \<Longrightarrow> j \<noteq> i \<Longrightarrow> sys_client l' j = sys_client l j"
  by (auto simp: lock_event_def goto_def try_put_def split: if_splits)

lemma progression_snoc: "progression b inc (Suc n) = progression b inc n @ [b + inc * int n]"
  by (simp add: progression_def)

lemma call_ok_holding: "call_ok b inc v c x \<Longrightarrow> (holding c \<Longrightarrow> holding c') \<Longrightarrow> call_ok b inc v c' x"
  by (cases "(b, inc, v, c, x)" rule: call_ok.cases) auto

lemma call_ok_not_holding: "call_ok b inc v c x \<Longrightarrow> \<not> holding c \<Longrightarrow> call_ok b inc v' c x"
  by (cases "(b, inc, v, c, x)" rule: call_ok.cases) auto

text \<open>The lock takes a step and one client's call moves on; the value is not touched.\<close>

lemma seq_inv_lock:
  assumes inv: "seq_inv b inc s" and ev: "lock_event ev (sq_lock s) = Some l" and "\<not> takeover ev (sq_lock s)"
    and others: "\<And>j. j \<noteq> i \<Longrightarrow> holding (sys_client (sq_lock s) j) \<Longrightarrow> holding (sys_client l j)"
    and mine: "call_ok b inc (sq_value s) (sys_client l i) c"
  shows "seq_inv b inc (seq_at i c (s\<lparr>sq_lock := l\<rparr>))"
proof -
  have "lock_reach l"
    using inv ev assms(3) by (auto simp: seq_inv_def intro: lock_reach.step)
  moreover have "call_ok b inc (sq_value s) (sys_client l j) (if j = i then c else sq_call s j)" for j
    using inv mine others by (auto simp: seq_inv_def intro: call_ok_holding)
  ultimately show ?thesis
    using inv by (auto simp: seq_inv_def seq_at_def split: option.splits)
qed

lemma seq_inv_call:
  assumes "seq_inv b inc s" and "call_ok b inc (sq_value s) (sys_client (sq_lock s) i) c"
  shows "seq_inv b inc (seq_at i c s)"
  using assms by (auto simp: seq_inv_def seq_at_def split: option.splits)

lemma seq_inv_event:
  assumes inv: "seq_inv b inc s" and ev: "seq_event ev s = Some s'" and quiet: "quiet b inc ev s"
  shows "seq_inv b inc s'"
proof -
  have calls: "call_ok b inc (sq_value s) (sys_client (sq_lock s) i) (sq_call s i)" for i
    using inv by (simp add: seq_inv_def)
  have release: "seq_inv b inc s'" if rel: "map_option (seq_at i NoCall) (seq_lock (Release i) s) = Some s'" for i
  proof -
    obtain l where l: "lock_event (Release i) (sq_lock s) = Some l" and s': "s' = seq_at i NoCall (s\<lparr>sq_lock := l\<rparr>)"
      using rel by (auto simp: seq_lock_Some)
    show ?thesis
      unfolding s' using release_others [OF l] by (intro seq_inv_lock [OF inv l]) (auto simp: takeover_def)
  qed
  show ?thesis
  proof (cases ev)
    case (Call i task opts token)
    then obtain l where l: "lock_event (Acquire i (seq_lock_options opts) token) (sq_lock s) = Some l"
      and s': "s' = seq_at i (Waiting task) (s\<lparr>sq_lock := l\<rparr>)"
      using ev by (auto simp: seq_event_def seq_lock_Some split: if_splits)
    show ?thesis
      unfolding s' using Call quiet acquire_others [OF l]
      by (intro seq_inv_lock [OF inv l]) (auto simp: takeover_def quiet_def split: seq_task.splits)
  next
    case (LockStep lev)
    then obtain l where l: "lock_event lev (sq_lock s) = Some l" and s': "s' = s\<lparr>sq_lock := l\<rparr>"
      and inner: "\<not> call_boundary lev"
      using ev by (auto simp: seq_event_def seq_lock_Some split: if_splits)
    have s'': "s' = seq_at 0 (sq_call s 0) (s\<lparr>sq_lock := l\<rparr>)"
      by (simp add: s' seq_at_def)
    have "call_ok b inc (sq_value s) (sys_client l 0) (sq_call s 0)"
      using calls lock_event_others [OF l inner] by (blast intro: call_ok_holding)
    with quiet LockStep show ?thesis
      unfolding s'' by (intro seq_inv_lock [OF inv l] lock_event_others [OF l inner]) (auto simp: quiet_def)
  next
    case (GetValue i)
    then obtain task where task: "sq_call s i = Waiting task" "holding (sys_client (sq_lock s) i)"
      and s': "s' = seq_at i (GotData task (sq_value s)) s"
      using ev by (auto simp: seq_event_def split: seq_call.splits if_splits)
    show ?thesis
      unfolding s' using task calls [of i] by (intro seq_inv_call [OF inv]) (auto split: seq_task.splits)
  next
    case (SetValue i)
    then obtain task d where task: "sq_call s i = GotData task d" and s': "s' = write_value i task d s"
      using ev by (auto simp: seq_event_def split: seq_call.splits)
    have mine: "holding (sys_client (sq_lock s) i)" "d = sq_value s"
      using calls [of i] task by auto
    have "\<not> holding (sys_client (sq_lock s) j)" if "j \<noteq> i" for j
      using that mine(1) inv dl.exclusive [of "sq_lock s" i j] by (auto simp: seq_inv_def dest: holding_lock_held)
    then have others: "call_ok b inc v (sys_client (sq_lock s) j) (sq_call s j)" if "j \<noteq> i" for j v
      using that calls call_ok_not_holding by blast
    show ?thesis
    proof (cases task)
      case (Advance opts)
      then have "so_initialValue opts = b" "so_increment opts = inc"
        using calls [of i] task by auto
      with inv others Advance mine(2) show ?thesis
        by (cases "sq_value s")
          (auto simp: s' write_value_def seq_inv_def seq_at_def next_value_def progression_snoc algebra_simps)
    next
      case (ResetTo x)
      with inv others show ?thesis
        by (auto simp: s' write_value_def seq_inv_def seq_at_def reset_value_def progression_def)
    qed
  next
    case (CallFails i)
    with ev release show ?thesis
      by (auto simp: seq_event_def split: seq_call.splits)
  next
    case (Return i)
    with ev release show ?thesis
      by (auto simp: seq_event_def split: seq_call.splits)
  qed (use quiet in \<open>simp_all add: quiet_def\<close>)
qed

lemma seq_inv_run: "seq_inv b inc s \<Longrightarrow> quiet_run b inc evs s \<Longrightarrow> seq_run evs s = Some s' \<Longrightarrow> seq_inv b inc s'"
  by (induction evs arbitrary: s) (auto split: option.splits intro: seq_inv_event)

lemma seq_inv_init: "seq_inv b inc (seq_init b)"
  by (simp add: seq_inv_def seq_init_def progression_def lock_reach.start)

text \<open>
  C16 (sequences). While no \<open>acquire\<close> takes the lock over and nobody deletes the sequence, the
  numbers that any number of clients receive from \<open>next\<close> are consecutive: from the initial value or
  the last reset, in steps of the increment, with no gap and no number twice.
\<close>

theorem sequence_consecutive:
  assumes "seq_run evs (seq_init b) = Some s" and "quiet_run b inc evs (seq_init b)"
  shows "sq_issued s = map (\<lambda>k. sq_base s + inc * int k) [0..<length (sq_issued s)]"
  using seq_inv_run [OF seq_inv_init assms(2,1)] by (simp add: seq_inv_def progression_def)

definition two_callers :: "seq_event list" where
  "two_callers = [Call 0 (Advance SEQUENCE_DEFAULTS) SEQUENCE_DEFAULTS 5, LockStep (Put 0),
     Call 1 (Advance SEQUENCE_DEFAULTS) SEQUENCE_DEFAULTS 6, LockStep (Put 1), GetValue 0, LockStep (Read 1),
     SetValue 0, Return 0, LockStep (ReleaseRead 0), LockStep (ReleaseDelete 0), LockStep (Tick 500),
     LockStep (Wake 1 20), LockStep (Put 1), GetValue 1, SetValue 1, Return 1]"

lemmas seq_defs = seq_event_def seq_lock_def seq_at_def write_value_def next_value_def seq_lock_options_def
  quiet_def SEQUENCE_DEFAULTS_def

theorem sequence_consecutive_witness:
  "quiet_run 1 1 two_callers (seq_init 1) \<and> (\<exists>s. seq_run two_callers (seq_init 1) = Some s \<and>
     sq_issued s = [1, 2] \<and> sq_issued s = map (\<lambda>k. sq_base s + 1 * int k) [0..<length (sq_issued s)])"
proof -
  have quiet: "quiet_run 1 1 two_callers (seq_init 1)"
    and "\<exists>s. seq_run two_callers (seq_init 1) = Some s \<and> sq_issued s = [1, 2]"
    by (simp_all add: two_callers_def seq_init_def lock_init_def seq_defs lock_defs LOCK_DEFAULTS_def)
  then obtain s where s: "seq_run two_callers (seq_init 1) = Some s" "sq_issued s = [1, 2]"
    by blast
  with quiet sequence_consecutive [OF s(1) quiet] show ?thesis
    by blast
qed

text \<open>
  Sequences. \<open>delete\<close> does not take the lock and removes the lock object of whoever holds it.
  A call that read the value before the delete writes after it, and two calls that both started
  after the delete receive the same number 2.
\<close>

definition next_call :: "nat \<Rightarrow> nat \<Rightarrow> seq_event list" where
  "next_call i token = [Call i (Advance SEQUENCE_DEFAULTS) SEQUENCE_DEFAULTS token, LockStep (Put i), GetValue i,
     SetValue i, Return i, LockStep (ReleaseRead i), LockStep (ReleaseDelete i)]"

definition delete_race :: "seq_event list" where
  "delete_race = [Call 0 (Advance SEQUENCE_DEFAULTS) SEQUENCE_DEFAULTS 5, LockStep (Put 0), GetValue 0,
     DeleteValue 2, DeleteLock 2] @ next_call 1 6 @ next_call 1 7 @ [SetValue 0] @ next_call 1 8"

theorem sequence_delete_duplicates:
  "\<exists>s. seq_run delete_race (seq_init 1) = Some s \<and> sq_issued s = [1, 2, 1, 2]"
  by (simp add: delete_race_def next_call_def seq_init_def lock_init_def seq_defs lock_defs LOCK_DEFAULTS_def)

end
