(* ===== verification/Queues.thy ===== *)
theory Queues
  imports JsPrelude Complex_Main
begin

text \<open>
  The bounded and growing buffers: \<open>src/tasks/concerns/fifo-task-queue.ts\<close> (a circular array whose
  length is a power of two, indexed by masking two counters, doubled when full) and
  \<open>src/concerns/ring-buffer.ts\<close> (the last samples of a fixed capacity, and percentiles over a cached
  sorted copy). Empty slots are \<open>None\<close>. Samples are integers, and the index of a percentile is
  computed with exact fractions.

  The locale \<open>queue_refinement\<close> states once when a queue implements two operations on lists; what
  a client observes of it is then what it would observe of the list. The circular queue here and the
  heap of \<open>PriorityQueue\<close> are its interpretations.
\<close>

unbundle bit_operations_syntax

section \<open>The contract of a queue\<close>

datatype 'a queue_op = Enqueue 'a | Dequeue

text \<open>What a sequence of operations answers, for given implementations of the two.\<close>

fun queue_answers :: "('a \<Rightarrow> 'q \<Rightarrow> 'q) \<Rightarrow> ('q \<Rightarrow> 'a option \<times> 'q) \<Rightarrow> 'a queue_op list \<Rightarrow> 'q \<Rightarrow> 'a option list" where
  "queue_answers enq deq [] q = []"
| "queue_answers enq deq (Enqueue x # ops) q = queue_answers enq deq ops (enq x q)"
| "queue_answers enq deq (Dequeue # ops) q = (case deq q of (r, q') \<Rightarrow> r # queue_answers enq deq ops q')"

text \<open>An implementation of a queue whose contents are a list, against two operations on lists.\<close>

locale queue_refinement =
  fixes inv :: "'q \<Rightarrow> bool" and contents :: "'q \<Rightarrow> 'a list"
    and enq :: "'a \<Rightarrow> 'q \<Rightarrow> 'q" and deq :: "'q \<Rightarrow> 'a option \<times> 'q"
    and list_enq :: "'a \<Rightarrow> 'a list \<Rightarrow> 'a list" and list_deq :: "'a list \<Rightarrow> 'a option \<times> 'a list"
  assumes enq_inv: "inv q \<Longrightarrow> inv (enq x q)"
    and enq_contents: "inv q \<Longrightarrow> contents (enq x q) = list_enq x (contents q)"
    and deq_inv: "inv q \<Longrightarrow> inv (snd (deq q))"
    and deq_contents: "inv q \<Longrightarrow> (fst (deq q), contents (snd (deq q))) = list_deq (contents q)"
begin

lemma answers_list: "inv q \<Longrightarrow> queue_answers enq deq ops q = queue_answers list_enq list_deq ops (contents q)"
proof (induction ops arbitrary: q)
  case (Cons op ops)
  show ?case
  proof (cases op)
    case (Enqueue x)
    with Cons show ?thesis
      by (simp add: enq_inv enq_contents)
  next
    case Dequeue
    have "list_deq (contents q) = (fst (deq q), contents (snd (deq q)))"
      using deq_contents [OF Cons.prems] by simp
    with Dequeue Cons.IH [OF deq_inv [OF Cons.prems]] show ?thesis
      by (simp add: case_prod_unfold)
  qed
qed simp

end

text \<open>The first-in first-out queue is the one that takes from the front of the list.\<close>

definition append_one :: "'a \<Rightarrow> 'a list \<Rightarrow> 'a list" where
  "append_one x xs = xs @ [x]"

fun take_first :: "'a list \<Rightarrow> 'a option \<times> 'a list" where
  "take_first [] = (None, [])"
| "take_first (x # xs) = (Some x, xs)"

section \<open>The task queue\<close>

record 'a fifo =
  fq_buffer :: "'a option list"
  fq_mask :: nat
  fq_head :: nat
  fq_tail :: nat

text \<open>
  \<open>while (size < target) size <<= 1\<close>. The shift is on 32 bits; the model is the code for
  capacities up to 2\<open>^\<close>30.
\<close>

function double_until :: "nat \<Rightarrow> nat \<Rightarrow> nat" where
  "double_until target sz = (if 0 < sz \<and> sz < target then double_until target (sz * 2) else sz)"
  by pat_completeness auto
termination by (relation "measure (\<lambda>(target, sz). target - sz)") auto

declare double_until.simps [simp del]

definition normalizeCapacity :: "nat \<Rightarrow> nat" where
  "normalizeCapacity v = (let normalized = (if v > 0 then v else 8) in double_until (max 8 normalized) 8)"

definition fifo_new :: "nat \<Rightarrow> 'a fifo" where
  "fifo_new capacity = (let size = normalizeCapacity capacity in
     \<lparr>fq_buffer = replicate size None, fq_mask = size - 1, fq_head = 0, fq_tail = 0\<rparr>)"

definition fifo_length :: "'a fifo \<Rightarrow> nat" where
  "fifo_length q = fq_tail q - fq_head q"

definition fifo_slot :: "'a fifo \<Rightarrow> nat \<Rightarrow> 'a option" where
  "fifo_slot q i = fq_buffer q ! (i AND fq_mask q)"

definition fifo_grow :: "'a fifo \<Rightarrow> 'a fifo" where
  "fifo_grow q = (let newSize = length (fq_buffer q) * 2; len = fifo_length q in
     q\<lparr>fq_buffer := map (\<lambda>i. fifo_slot q (fq_head q + i)) [0..<len] @ replicate (newSize - len) None,
       fq_mask := newSize - 1, fq_head := 0, fq_tail := len\<rparr>)"

definition fifo_enqueue :: "'a \<Rightarrow> 'a fifo \<Rightarrow> 'a fifo" where
  "fifo_enqueue x q0 = (let q = (if fifo_length q0 \<ge> length (fq_buffer q0) then fifo_grow q0 else q0) in
     q\<lparr>fq_buffer := (fq_buffer q)[fq_tail q AND fq_mask q := Some x], fq_tail := fq_tail q + 1\<rparr>)"

definition fifo_dequeue :: "'a fifo \<Rightarrow> 'a option \<times> 'a fifo" where
  "fifo_dequeue q =
     (if fq_head q = fq_tail q then (None, q)
      else let index = fq_head q AND fq_mask q; value = fq_buffer q ! index;
               q' = q\<lparr>fq_buffer := (fq_buffer q)[index := None], fq_head := fq_head q + 1\<rparr>
           in (value, if fq_head q' = fq_tail q' then q'\<lparr>fq_head := 0, fq_tail := 0\<rparr> else q'))"

definition fifo_toArray :: "'a fifo \<Rightarrow> 'a option list" where
  "fifo_toArray q = map (\<lambda>i. fifo_slot q (fq_head q + i)) [0..<fifo_length q]"

definition fifo_clear :: "'a fifo \<Rightarrow> 'a fifo" where
  "fifo_clear q = q\<lparr>fq_buffer := fold (\<lambda>i b. b[i AND fq_mask q := None]) [fq_head q..<fq_tail q] (fq_buffer q),
     fq_head := 0, fq_tail := 0\<rparr>"

text \<open>The items \<open>flush\<close> hands to the callback, in order, and the queue it leaves.\<close>

definition fifo_flush :: "'a fifo \<Rightarrow> 'a list \<times> 'a fifo" where
  "fifo_flush q = (List.map_filter (fifo_slot q) [fq_head q..<fq_tail q], fifo_clear q)"

definition fifo_inv :: "'a fifo \<Rightarrow> bool" where
  "fifo_inv q \<longleftrightarrow> (\<exists>k. length (fq_buffer q) = 2 ^ k \<and> fq_mask q = 2 ^ k - 1) \<and>
     fq_head q \<le> fq_tail q \<and> fifo_length q \<le> length (fq_buffer q) \<and>
     (\<forall>i\<in>{fq_head q..<fq_tail q}. fifo_slot q i \<noteq> None)"

definition fifo_contents :: "'a fifo \<Rightarrow> 'a list" where
  "fifo_contents q = map (\<lambda>i. the (fifo_slot q i)) [fq_head q..<fq_tail q]"

lemma and_mask_nat: "(n::nat) AND (2 ^ k - Suc 0) = n mod 2 ^ k"
  by (metis One_nat_def mask_eq_exp_minus_1 take_bit_eq_mask take_bit_eq_mod)

lemma mod_window_inj:
  fixes h n i j :: nat
  assumes "h \<le> i" "i < h + n" "h \<le> j" "j < h + n" "i mod n = j mod n"
  shows "i = j"
proof (rule ccontr)
  assume "i \<noteq> j"
  then consider "i < j" | "j < i"
    by linarith
  then show False
  proof cases
    case 1
    then have "n dvd j - i"
      using assms(5) by (metis mod_eq_dvd_iff_nat less_imp_le)
    with 1 assms show False
      by (auto dest: dvd_imp_le)
  next
    case 2
    then have "n dvd i - j"
      using assms(5) by (metis mod_eq_dvd_iff_nat less_imp_le)
    with 2 assms show False
      by (auto dest: dvd_imp_le)
  qed
qed

lemma double_until_power: "\<exists>k. double_until target (2 ^ j) = 2 ^ k"
proof (induction "target - 2 ^ j" arbitrary: j rule: less_induct)
  case less
  show ?case
  proof (cases "(2::nat) ^ j < target")
    case True
    then have "\<exists>k. double_until target (2 ^ Suc j) = 2 ^ k"
      using diff_less_mono2 [of "2 ^ j" "2 ^ Suc j" target] by (intro less.hyps) auto
    with True show ?thesis
      by (subst double_until.simps) (simp add: mult.commute)
  next
    case False
    then show ?thesis
      by (subst double_until.simps) auto
  qed
qed

lemma normalizeCapacity_power: "\<exists>k. normalizeCapacity v = 2 ^ k"
  unfolding normalizeCapacity_def Let_def using double_until_power [of _ 3] by simp

lemma fifo_new_inv: "fifo_inv (fifo_new c)" and fifo_new_contents: "fifo_contents (fifo_new c) = []"
  using normalizeCapacity_power [of c]
  by (auto simp: fifo_inv_def fifo_new_def fifo_length_def fifo_contents_def Let_def)

lemma fifo_slot_mod: "fifo_inv q \<Longrightarrow> fifo_slot q i = fq_buffer q ! (i mod length (fq_buffer q))"
  by (auto simp: fifo_inv_def fifo_slot_def and_mask_nat)

lemma fifo_index: "fifo_inv q \<Longrightarrow> i AND fq_mask q = i mod length (fq_buffer q)"
  by (auto simp: fifo_inv_def and_mask_nat)

lemma fifo_inv_pos: "fifo_inv q \<Longrightarrow> 0 < length (fq_buffer q)"
  by (auto simp: fifo_inv_def)

lemma fifo_grow_facts:
  assumes "fifo_inv q"
  shows "fifo_inv (fifo_grow q)" and "fifo_contents (fifo_grow q) = fifo_contents q"
    and "fifo_length (fifo_grow q) < length (fq_buffer (fifo_grow q))"
proof -
  obtain k where k: "length (fq_buffer q) = 2 ^ k"
    using assms by (auto simp: fifo_inv_def)
  have len: "fifo_length q \<le> length (fq_buffer q)" "0 < length (fq_buffer q)"
    using assms by (auto simp: fifo_inv_def)
  then have small: "fifo_length q < length (fq_buffer q) * 2"
    by linarith
  let ?q = "fifo_grow q"
  have buf: "length (fq_buffer ?q) = 2 ^ Suc k" "fq_mask ?q = 2 ^ Suc k - 1" "fq_head ?q = 0"
    "fq_tail ?q = fifo_length q"
    using k len by (simp_all add: fifo_grow_def Let_def mult.commute)
  have slot: "fifo_slot ?q i = fifo_slot q (fq_head q + i)" if "i < fifo_length q" for i
  proof -
    have "i AND fq_mask ?q = i mod length (fq_buffer ?q)"
      unfolding buf One_nat_def by (rule and_mask_nat)
    then have "i AND fq_mask ?q = i"
      using that small k by (simp add: buf mult.commute)
    then have "fifo_slot ?q i = fq_buffer ?q ! i"
      by (simp add: fifo_slot_def)
    then show ?thesis
      using that by (simp add: fifo_grow_def Let_def nth_append)
  qed
  have window: "{fq_head q..<fq_tail q} = (\<lambda>i. fq_head q + i) ` {0..<fifo_length q}"
    using assms by (auto simp: fifo_inv_def fifo_length_def image_iff)
  show "fifo_inv ?q"
    unfolding fifo_inv_def buf
  proof (intro conjI exI)
    show "fifo_length ?q \<le> 2 ^ Suc k"
      using small k by (simp add: fifo_length_def buf)
    show "\<forall>i\<in>{0..<fifo_length q}. fifo_slot ?q i \<noteq> None"
      using assms slot unfolding fifo_inv_def window by simp
  qed (rule refl | simp)+
  have "[fq_head q..<fq_tail q] = map (\<lambda>i. fq_head q + i) [0..<fifo_length q]"
    using map_add_upt [of "fq_head q" "fifo_length q"] assms
    by (simp add: fifo_inv_def fifo_length_def add.commute)
  then show "fifo_contents ?q = fifo_contents q"
    by (simp add: fifo_contents_def buf slot)
  show "fifo_length ?q < length (fq_buffer ?q)"
    using small k by (simp add: fifo_length_def buf)
qed

lemma fifo_enqueue_facts:
  assumes "fifo_inv q"
  shows "fifo_inv (fifo_enqueue x q)" and "fifo_contents (fifo_enqueue x q) = fifo_contents q @ [x]"
proof -
  define p where "p = (if fifo_length q \<ge> length (fq_buffer q) then fifo_grow q else q)"
  have p: "fifo_inv p" "fifo_contents p = fifo_contents q" and room: "fifo_length p < length (fq_buffer p)"
    using assms fifo_grow_facts [OF assms] by (simp_all add: p_def)
  let ?n = "length (fq_buffer p)" and ?q = "fifo_enqueue x q"
  have q: "?q = p\<lparr>fq_buffer := (fq_buffer p)[fq_tail p mod ?n := Some x], fq_tail := fq_tail p + 1\<rparr>"
    using fifo_index [OF p(1)] by (simp add: fifo_enqueue_def p_def Let_def)
  obtain k where k: "?n = 2 ^ k" "fq_mask p = 2 ^ k - 1"
    using p(1) by (auto simp: fifo_inv_def)
  have heads: "fq_head p \<le> fq_tail p" "fq_tail p < fq_head p + ?n"
    using p(1) room by (auto simp: fifo_inv_def fifo_length_def)
  have slot: "fifo_slot ?q i = (if i = fq_tail p then Some x else fifo_slot p i)"
    if "fq_head p \<le> i" "i \<le> fq_tail p" for i
  proof -
    have "fifo_slot ?q i = (fq_buffer p)[fq_tail p mod ?n := Some x] ! (i mod ?n)"
      by (simp add: fifo_slot_def q k and_mask_nat)
    moreover have "i mod ?n = fq_tail p mod ?n \<longleftrightarrow> i = fq_tail p"
      using mod_window_inj [of "fq_head p" i ?n "fq_tail p"] heads that by auto
    moreover have "fq_tail p mod ?n < ?n"
      using fifo_inv_pos [OF p(1)] by simp
    ultimately show ?thesis
      using fifo_slot_mod [OF p(1), of i] by (auto simp: nth_list_update)
  qed
  show "fifo_inv ?q"
    unfolding fifo_inv_def
  proof (intro conjI)
    show "\<exists>k. length (fq_buffer ?q) = 2 ^ k \<and> fq_mask ?q = 2 ^ k - 1"
      using k by (auto simp: q)
    show "fifo_length ?q \<le> length (fq_buffer ?q)"
      using room heads by (simp add: q fifo_length_def)
    show "\<forall>i\<in>{fq_head ?q..<fq_tail ?q}. fifo_slot ?q i \<noteq> None"
      using p(1) slot by (auto simp: fifo_inv_def q)
    show "fq_head ?q \<le> fq_tail ?q"
      using heads by (simp add: q)
  qed
  have "fq_head ?q = fq_head p" "fq_tail ?q = Suc (fq_tail p)"
    by (simp_all add: q)
  then have "fifo_contents ?q = map (\<lambda>i. the (fifo_slot ?q i)) [fq_head p..<fq_tail p] @ [the (fifo_slot ?q (fq_tail p))]"
    using heads by (simp add: fifo_contents_def)
  also have "\<dots> = fifo_contents p @ [x]"
    using slot heads by (simp add: fifo_contents_def)
  finally show "fifo_contents ?q = fifo_contents q @ [x]"
    by (simp add: p)
qed

lemma fifo_dequeue_facts:
  assumes inv: "fifo_inv q"
  shows "fifo_inv (snd (fifo_dequeue q))"
    and "(fst (fifo_dequeue q), fifo_contents (snd (fifo_dequeue q))) = take_first (fifo_contents q)"
proof -
  have both: "fifo_inv (snd (fifo_dequeue q)) \<and>
    (fst (fifo_dequeue q), fifo_contents (snd (fifo_dequeue q))) = take_first (fifo_contents q)"
  proof (cases "fq_head q = fq_tail q")
    case True
    with inv show ?thesis
      by (simp add: fifo_dequeue_def fifo_contents_def)
  next
    case False
    let ?n = "length (fq_buffer q)"
    have heads: "fq_head q < fq_tail q" "fq_tail q \<le> fq_head q + ?n"
      using inv False by (auto simp: fifo_inv_def fifo_length_def)
    obtain k where k: "?n = 2 ^ k" "fq_mask q = 2 ^ k - 1"
      using inv by (auto simp: fifo_inv_def)
    define p where "p = q\<lparr>fq_buffer := (fq_buffer q)[fq_head q mod ?n := None], fq_head := fq_head q + 1\<rparr>"
    have slot: "fifo_slot p i = fifo_slot q i" if "fq_head q < i" "i < fq_tail q" for i
    proof -
      have "fifo_slot p i = (fq_buffer q)[fq_head q mod ?n := None] ! (i mod ?n)"
        by (simp add: fifo_slot_def p_def k and_mask_nat)
      moreover have "i mod ?n \<noteq> fq_head q mod ?n"
      proof
        assume same: "i mod ?n = fq_head q mod ?n"
        have "i = fq_head q"
          by (rule mod_window_inj [OF _ _ _ _ same, of "fq_head q"]) (use heads that in linarith)+
        with that show False
          by simp
      qed
      ultimately show ?thesis
        using fifo_slot_mod [OF inv] by simp
    qed
    have first: "fq_buffer q ! (fq_head q mod ?n) = fifo_slot q (fq_head q)"
      using fifo_slot_mod [OF inv] by simp
    obtain x where x: "fifo_slot q (fq_head q) = Some x"
      using inv heads by (fastforce simp: fifo_inv_def)
    have deq: "fifo_dequeue q = (Some x, if fq_head p = fq_tail p then p\<lparr>fq_head := 0, fq_tail := 0\<rparr> else p)"
      using False fifo_index [OF inv] first x by (simp add: fifo_dequeue_def Let_def p_def)
    have contents: "fifo_contents q = x # fifo_contents p"
      using heads x slot by (simp add: fifo_contents_def upt_conv_Cons p_def [symmetric]) (simp add: p_def)
    have "fifo_inv p"
      using inv slot heads k by (auto simp: fifo_inv_def fifo_length_def p_def [symmetric]) (auto simp: p_def)
    then show ?thesis
      using contents by (auto simp: deq fifo_inv_def fifo_length_def fifo_contents_def)
  qed
  then show "fifo_inv (snd (fifo_dequeue q))"
    and "(fst (fifo_dequeue q), fifo_contents (snd (fifo_dequeue q))) = take_first (fifo_contents q)"
    by blast+
qed

interpretation fifo: queue_refinement fifo_inv fifo_contents fifo_enqueue fifo_dequeue append_one take_first
  by unfold_locales (simp_all add: fifo_enqueue_facts fifo_dequeue_facts append_one_def)

text \<open>
  C24 (task queue). Whatever is enqueued and dequeued in whatever order, through every growth of the
  circular buffer and from every capacity, the queue answers what a list would.
\<close>

theorem fifo_refines_list:
  "queue_answers fifo_enqueue fifo_dequeue ops (fifo_new capacity) = queue_answers append_one take_first ops []"
  using fifo.answers_list [OF fifo_new_inv] by (simp add: fifo_new_contents)

lemma fifo_clear_empty:
  assumes "fifo_inv q"
  shows "fifo_inv (fifo_clear q)" and "fifo_contents (fifo_clear q) = []"
proof -
  have len: "length (fold (\<lambda>i b. b[i AND m := None]) is b) = length b" for "is" m and b :: "'a option list"
    by (induction "is" arbitrary: b) auto
  obtain k where "length (fq_buffer q) = 2 ^ k" "fq_mask q = 2 ^ k - 1"
    using assms by (auto simp: fifo_inv_def)
  then show "fifo_inv (fifo_clear q)"
    unfolding fifo_inv_def by (intro conjI exI [of _ k]) (simp_all add: fifo_clear_def fifo_length_def len)
qed (simp add: fifo_clear_def fifo_contents_def)

lemma fifo_flush_contents:
  assumes "fifo_inv q"
  shows "fst (fifo_flush q) = fifo_contents q"
proof -
  have "(\<forall>i\<in>set is. f i \<noteq> None) \<Longrightarrow> List.map_filter f is = map (\<lambda>i. the (f i)) is"
    for f :: "nat \<Rightarrow> 'a option" and "is"
    by (induction "is") (auto simp: List.map_filter_simps)
  from this [of "[fq_head q..<fq_tail q]" "fifo_slot q"] assms show ?thesis
    by (simp add: fifo_flush_def fifo_contents_def fifo_inv_def)
qed

section \<open>The ring buffer\<close>

record 'a ring =
  rb_buffer :: "'a option list"
  rb_head :: nat
  rb_count :: nat
  rb_capacity :: nat

definition ring_new :: "nat \<Rightarrow> 'a ring option" where
  "ring_new capacity = (if capacity < 1 then None
     else Some \<lparr>rb_buffer = replicate capacity None, rb_head = 0, rb_count = 0, rb_capacity = capacity\<rparr>)"

definition ring_push :: "'a \<Rightarrow> 'a ring \<Rightarrow> 'a ring" where
  "ring_push x r = r\<lparr>rb_buffer := (rb_buffer r)[rb_head r := Some x],
     rb_head := (rb_head r + 1) mod rb_capacity r,
     rb_count := (if rb_count r < rb_capacity r then rb_count r + 1 else rb_count r)\<rparr>"

definition ring_toArray :: "'a ring \<Rightarrow> 'a option list" where
  "ring_toArray r =
     (if rb_count r = 0 then []
      else if rb_count r < rb_capacity r then map (\<lambda>i. rb_buffer r ! i) [0..<rb_count r]
      else map (\<lambda>i. rb_buffer r ! ((rb_head r + i) mod rb_capacity r)) [0..<rb_capacity r])"

definition ring_isFull :: "'a ring \<Rightarrow> bool" where
  "ring_isFull r \<longleftrightarrow> rb_count r = rb_capacity r"

definition ring_clear :: "'a ring \<Rightarrow> 'a ring" where
  "ring_clear r = r\<lparr>rb_buffer := replicate (rb_capacity r) None, rb_head := 0, rb_count := 0\<rparr>"

text \<open>The buffer after the pushes \<open>xs\<close> since it was created or cleared.\<close>

definition ring_after :: "'a list \<Rightarrow> 'a ring \<Rightarrow> bool" where
  "ring_after xs r \<longleftrightarrow> 0 < rb_capacity r \<and> length (rb_buffer r) = rb_capacity r \<and>
     rb_count r = min (length xs) (rb_capacity r) \<and> rb_head r = length xs mod rb_capacity r \<and>
     (\<forall>j. length xs - rb_capacity r \<le> j \<longrightarrow> j < length xs \<longrightarrow> rb_buffer r ! (j mod rb_capacity r) = Some (xs ! j))"

lemma ring_after_new: "ring_new c = Some r \<Longrightarrow> ring_after [] r \<and> rb_capacity r = c"
  by (auto simp: ring_new_def ring_after_def split: if_splits)

lemma ring_after_clear: "ring_after xs r \<Longrightarrow> ring_after [] (ring_clear r)"
  by (simp add: ring_after_def ring_clear_def)

lemma ring_after_push:
  assumes "ring_after xs r"
  shows "ring_after (xs @ [x]) (ring_push x r)"
proof -
  let ?c = "rb_capacity r" and ?n = "length xs"
  have r: "0 < ?c" "length (rb_buffer r) = ?c" "rb_head r = ?n mod ?c"
    using assms by (simp_all add: ring_after_def)
  have "(rb_buffer r)[?n mod ?c := Some x] ! (j mod ?c) = Some ((xs @ [x]) ! j)"
    if j: "Suc ?n - ?c \<le> j" "j < Suc ?n" for j
  proof (cases "j = ?n")
    case False
    have "j mod ?c \<noteq> ?n mod ?c"
    proof
      assume same: "j mod ?c = ?n mod ?c"
      have "j = ?n"
        by (rule mod_window_inj [OF _ _ _ _ same, of "Suc ?n - ?c"]) (use j r(1) in linarith)+
      with False show False
        by simp
    qed
    with assms j False show ?thesis
      by (auto simp: ring_after_def nth_append)
  qed (use r in simp)
  with assms r show ?thesis
    by (auto simp: ring_after_def ring_push_def mod_Suc_eq)
qed

lemma ring_toArray_after:
  assumes "ring_after xs r"
  shows "ring_toArray r = map Some (drop (length xs - rb_capacity r) xs)"
proof -
  let ?c = "rb_capacity r" and ?n = "length xs"
  have r: "0 < ?c" "rb_count r = min ?n ?c" "rb_head r = ?n mod ?c"
    and slot: "\<And>j. ?n - ?c \<le> j \<Longrightarrow> j < ?n \<Longrightarrow> rb_buffer r ! (j mod ?c) = Some (xs ! j)"
    using assms by (simp_all add: ring_after_def)
  show ?thesis
  proof (cases "?n < ?c")
    case True
    with r slot show ?thesis
      by (auto simp: ring_toArray_def intro!: nth_equalityI)
  next
    case False
    have "rb_buffer r ! ((?n mod ?c + i) mod ?c) = Some (xs ! (?n - ?c + i))" if "i < ?c" for i
    proof -
      have "(?n mod ?c + i) mod ?c = (?n - ?c + i) mod ?c"
        using False mod_add_left_eq [of "?n - ?c" ?c i] by (simp add: le_mod_geq)
      with slot [of "?n - ?c + i"] False that show ?thesis
        by simp
    qed
    with False r show ?thesis
      by (auto simp: ring_toArray_def intro!: nth_equalityI)
  qed
qed

text \<open>
  Ring buffer. After any pushes, the ring buffer holds exactly the last \<open>capacity\<close> of them,
  oldest first.
\<close>

theorem ring_keeps_last:
  assumes "ring_new capacity = Some r"
  shows "ring_toArray (fold ring_push xs r) = map Some (drop (length xs - capacity) xs)"
proof -
  have "ring_after (ys @ xs) (fold ring_push xs r') \<and> rb_capacity (fold ring_push xs r') = rb_capacity r'"
    if "ring_after ys r'" for ys and r' :: "'a ring"
    using that
  proof (induction xs arbitrary: ys r')
    case (Cons x xs)
    have "rb_capacity (ring_push x r') = rb_capacity r'"
      by (simp add: ring_push_def)
    with Cons.IH [OF ring_after_push [OF Cons.prems, of x]] show ?case
      by simp
  qed simp
  from this [of "[]" r] ring_after_new [OF assms] ring_toArray_after show ?thesis
    by fastforce
qed

theorem ring_keeps_last_witness:
  "\<exists>r. ring_new 3 = Some r \<and> ring_toArray (fold ring_push [1, 2, 3, 4, 5::int] r) = [Some 3, Some 4, Some 5]"
proof -
  obtain r :: "int ring" where r: "ring_new 3 = Some r"
    by (simp add: ring_new_def)
  from ring_keeps_last [OF r, of "[1, 2, 3, 4, 5]"] r show ?thesis
    by simp
qed

section \<open>The latency buffer\<close>

record latency =
  lb_ring :: "int ring"
  lb_sorted :: "int list option"
  lb_sortedVersion :: nat
  lb_version :: nat

definition latency_new :: "nat \<Rightarrow> latency option" where
  "latency_new capacity = map_option
     (\<lambda>r. \<lparr>lb_ring = r, lb_sorted = None, lb_sortedVersion = 0, lb_version = 0\<rparr>) (ring_new capacity)"

definition latency_push :: "int \<Rightarrow> latency \<Rightarrow> latency" where
  "latency_push x b = b\<lparr>lb_ring := ring_push x (lb_ring b), lb_version := lb_version b + 1, lb_sorted := None\<rparr>"

definition latency_samples :: "latency \<Rightarrow> int list" where
  "latency_samples b = map the (ring_toArray (lb_ring b))"

definition getSorted :: "latency \<Rightarrow> int list \<times> latency" where
  "getSorted b =
     (case lb_sorted b of
        Some c \<Rightarrow> if lb_sortedVersion b = lb_version b then (c, b)
          else let c' = sort (latency_samples b) in (c', b\<lparr>lb_sorted := Some c', lb_sortedVersion := lb_version b\<rparr>)
      | None \<Rightarrow> let c' = sort (latency_samples b) in (c', b\<lparr>lb_sorted := Some c', lb_sortedVersion := lb_version b\<rparr>))"

text \<open>\<open>Math.ceil((p / 100) * n) - 1\<close>, and \<open>None\<close> for a \<open>p\<close> out of range.\<close>

definition percentile_index :: "nat \<Rightarrow> nat \<Rightarrow> int" where
  "percentile_index p n = int ((p * n + 99) div 100) - 1"

definition percentile :: "nat \<Rightarrow> latency \<Rightarrow> (int \<times> latency) option" where
  "percentile p b =
     (if p > 100 then None
      else case getSorted b of (arr, b') \<Rightarrow>
        Some (if length arr = 0 then 0
              else if p = 0 then arr ! 0
              else if p = 100 then arr ! (length arr - 1)
              else arr ! nat (max 0 (percentile_index p (length arr))), b'))"

definition latency_max :: "latency \<Rightarrow> int \<times> latency" where
  "latency_max b = (case getSorted b of (arr, b') \<Rightarrow>
     (if length arr > 0 then arr ! (length arr - 1) else 0, b'))"

definition latency_min :: "latency \<Rightarrow> int \<times> latency" where
  "latency_min b = (case getSorted b of (arr, b') \<Rightarrow> (if length arr > 0 then arr ! 0 else 0, b'))"

definition latency_avg :: "latency \<Rightarrow> rat" where
  "latency_avg b = (let arr = latency_samples b in
     if length arr = 0 then 0 else of_int (fold (\<lambda>v s. s + v) arr 0) / of_nat (length arr))"

definition latency_clear :: "latency \<Rightarrow> latency" where
  "latency_clear b = b\<lparr>lb_ring := ring_clear (lb_ring b), lb_sorted := None, lb_version := lb_version b + 1\<rparr>"

datatype latency_op = Push int | Ask nat | Clear

definition latency_step :: "latency_op \<Rightarrow> latency \<Rightarrow> latency" where
  "latency_step op b = (case op of
     Push x \<Rightarrow> latency_push x b
   | Ask p \<Rightarrow> (case percentile p b of None \<Rightarrow> b | Some (v, b') \<Rightarrow> b')
   | Clear \<Rightarrow> latency_clear b)"

text \<open>The pushes since the last clear.\<close>

definition latency_history :: "latency_op list \<Rightarrow> int list" where
  "latency_history ops = fold (\<lambda>op xs. case op of Push x \<Rightarrow> xs @ [x] | Ask p \<Rightarrow> xs | Clear \<Rightarrow> []) ops []"

definition latency_after :: "nat \<Rightarrow> int list \<Rightarrow> latency \<Rightarrow> bool" where
  "latency_after capacity xs b \<longleftrightarrow> ring_after xs (lb_ring b) \<and> rb_capacity (lb_ring b) = capacity \<and>
     (\<forall>c. lb_sorted b = Some c \<longrightarrow> lb_sortedVersion b = lb_version b \<and> c = sort (latency_samples b))"

lemma getSorted_after:
  assumes "latency_after capacity xs b"
  shows "fst (getSorted b) = sort (drop (length xs - capacity) xs)" and "latency_after capacity xs (snd (getSorted b))"
proof -
  have "latency_samples b = drop (length xs - capacity) xs"
    using assms ring_toArray_after [of xs "lb_ring b"] by (simp add: latency_samples_def latency_after_def o_def)
  with assms show "fst (getSorted b) = sort (drop (length xs - capacity) xs)"
    and "latency_after capacity xs (snd (getSorted b))"
    by (auto simp: getSorted_def latency_after_def latency_samples_def Let_def split: option.split)
qed

lemma latency_after_step:
  assumes "latency_after capacity xs b"
  shows "latency_after capacity (case op of Push x \<Rightarrow> xs @ [x] | Ask p \<Rightarrow> xs | Clear \<Rightarrow> []) (latency_step op b)"
proof (cases op)
  case (Push x)
  with assms ring_after_push [of xs "lb_ring b" x] show ?thesis
    by (auto simp: latency_step_def latency_push_def latency_after_def ring_push_def)
next
  case (Ask p)
  with assms getSorted_after (2) [OF assms] show ?thesis
    by (auto simp: latency_step_def percentile_def case_prod_unfold split: if_splits)
next
  case Clear
  with assms ring_after_clear [of xs "lb_ring b"] show ?thesis
    by (auto simp: latency_step_def latency_clear_def latency_after_def ring_clear_def)
qed

lemma latency_after_run:
  assumes "latency_new capacity = Some b"
  shows "latency_after capacity (latency_history ops) (fold latency_step ops b)"
proof -
  have "latency_after capacity (fold (\<lambda>op xs. case op of Push x \<Rightarrow> xs @ [x] | Ask p \<Rightarrow> xs | Clear \<Rightarrow> []) ops xs)
      (fold latency_step ops b')" if "latency_after capacity xs b'" for xs b'
    using that
  proof (induction ops arbitrary: xs b')
    case (Cons op ops)
    from Cons.IH [OF latency_after_step [OF Cons.prems]] show ?case
      by simp
  qed simp
  moreover have "latency_after capacity [] b"
    using assms by (auto simp: latency_new_def latency_after_def dest: ring_after_new)
  ultimately show ?thesis
    by (simp add: latency_history_def)
qed

lemma ceiling_hundredth:
  fixes m q r :: nat
  assumes "0 < m" and "q * 100 + r = m + 99" and "r < 100"
  shows "m \<le> 100 * (q - 1 + 1)" and "100 * (q - 1) < m"
  using assms by (cases q; simp)+

lemma percentile_index_rank:
  assumes "0 < p" and "0 < n"
  obtains k where "nat (max 0 (percentile_index p n)) = k" and "k = (p * n + 99) div 100 - 1"
    and "p * n \<le> 100 * (k + 1)" and "100 * k < p * n"
proof
  have "0 < p * n" and "(p * n + 99) div 100 * 100 + (p * n + 99) mod 100 = p * n + 99"
    and "(p * n + 99) mod 100 < 100"
    using assms by simp_all
  then show "p * n \<le> 100 * ((p * n + 99) div 100 - 1 + 1)" and "100 * ((p * n + 99) div 100 - 1) < p * n"
    by (rule ceiling_hundredth)+
  show "nat (max 0 (percentile_index p n)) = (p * n + 99) div 100 - 1"
    by (simp add: percentile_index_def)
qed simp

lemma length_filter_sort: "length (filter P (sort xs)) = length (filter P xs)"
  by (metis filter_sort length_sort)

lemma sorted_at_most:
  assumes "sorted s" and "k < length s"
  shows "Suc k \<le> length (filter (\<lambda>x. x \<le> s ! k) s)" and "length (filter (\<lambda>x. x < s ! k) s) \<le> k"
proof -
  have "{0..k} \<subseteq> {i. i < length s \<and> s ! i \<le> s ! k}"
    using assms by (auto simp: sorted_iff_nth_mono)
  then have "card {0..k} \<le> card {i. i < length s \<and> s ! i \<le> s ! k}"
    by (intro card_mono) auto
  then show "Suc k \<le> length (filter (\<lambda>x. x \<le> s ! k) s)"
    by (simp add: length_filter_conv_card)
  have "{i. i < length s \<and> s ! i < s ! k} \<subseteq> {0..<k}"
    using assms by (auto simp: sorted_iff_nth_mono not_le [symmetric])
  then have "card {i. i < length s \<and> s ! i < s ! k} \<le> card {0..<k}"
    by (intro card_mono) auto
  then show "length (filter (\<lambda>x. x < s ! k) s) \<le> k"
    by (simp add: length_filter_conv_card)
qed

text \<open>
  Latency buffer. After any pushes, queries and clears, \<open>percentile p\<close> answers the nearest rank
  of the last \<open>capacity\<close> samples, whatever the cache holds: at least \<open>p\<close> percent of the samples are
  not above it, and less than \<open>p\<close> percent are below it.
\<close>

theorem percentile_nearest_rank:
  assumes "latency_new capacity = Some b" and "latency_history ops \<noteq> []" and "0 < p" and "p \<le> 100"
  defines "samples \<equiv> drop (length (latency_history ops) - capacity) (latency_history ops)"
  shows "\<exists>v b'. percentile p (fold latency_step ops b) = Some (v, b') \<and> v \<in> set samples \<and>
    100 * length (filter (\<lambda>x. x \<le> v) samples) \<ge> p * length samples \<and>
    100 * length (filter (\<lambda>x. x < v) samples) < p * length samples"
proof -
  let ?b = "fold latency_step ops b" and ?s = "sort samples" and ?n = "length samples"
  have "0 < capacity"
    using assms(1) by (auto simp: latency_new_def ring_new_def split: if_splits)
  then have n: "0 < ?n"
    using assms(2) by (simp add: samples_def)
  have sorted: "fst (getSorted ?b) = ?s"
    using getSorted_after(1) [OF latency_after_run [OF assms(1)]] by (simp add: samples_def)
  obtain k where idx: "nat (max 0 (percentile_index p ?n)) = k" and def: "k = (p * ?n + 99) div 100 - 1"
    and k: "100 * (k + 1) \<ge> p * ?n" "100 * k < p * ?n"
    using percentile_index_rank [OF assms(3) n] by blast
  have "k < ?n"
    using k(2) mult_le_mono1 [OF assms(4), of ?n] by linarith
  have "?s \<noteq> []"
    using n by (metis length_sort length_0_conv less_irrefl)
  moreover have "p = 100 \<Longrightarrow> k = ?n - 1"
    using n unfolding def by simp
  ultimately have v: "fst (the (percentile p ?b)) = ?s ! k" "percentile p ?b \<noteq> None"
    using idx n sorted assms(3,4) by (auto simp: percentile_def case_prod_unfold)
  have "?s ! k \<in> set samples"
    using \<open>k < ?n\<close> by (metis length_sort nth_mem set_sort)
  moreover have "100 * length (filter (\<lambda>x. x \<le> ?s ! k) samples) \<ge> p * ?n"
    and "100 * length (filter (\<lambda>x. x < ?s ! k) samples) < p * ?n"
    using sorted_at_most [of ?s k] \<open>k < ?n\<close> k by (simp_all add: length_filter_sort)
  ultimately show ?thesis
    using v by (cases "the (percentile p ?b)") auto
qed

definition latency_example :: "latency_op list" where
  "latency_example = [Push 9, Push 40, Push 10, Ask 50, Push 30, Push 20]"

theorem percentile_nearest_rank_witness:
  "\<exists>b v b'. latency_new 4 = Some b \<and> percentile 95 (fold latency_step latency_example b) = Some (v, b') \<and>
    v \<in> {40, 10, 30, 20} \<and> 100 * length (filter (\<lambda>x. x \<le> v) [40, 10, 30, 20]) \<ge> 95 * 4"
proof -
  obtain b where b: "latency_new 4 = Some b"
    by (simp add: latency_new_def ring_new_def)
  have h: "latency_history latency_example = [9, 40, 10, 30, 20]"
    by (simp add: latency_history_def latency_example_def)
  have "\<exists>v b'. percentile 95 (fold latency_step latency_example b) = Some (v, b') \<and> v \<in> set [40, 10, 30, 20] \<and>
      100 * length (filter (\<lambda>x. x \<le> v) [40, 10, 30, 20]) \<ge> 95 * length [40, 10, 30, 20::int]"
    using percentile_nearest_rank [OF b, of latency_example 95] unfolding h by auto
  with b show ?thesis
    by auto
qed

end
