(* ===== verification/PriorityQueue.thy ===== *)
theory PriorityQueue
  imports Queues "HOL-Library.Multiset" "HOL-Library.Product_Lexorder"
begin

text \<open>
  \<open>src/tasks/concerns/priority-task-queue.ts\<close>: a binary heap in an array, ordered by priority and
  then by the order of arrival; with aging on, a node gains priority while it waits. Priorities and
  boosts are rationals, the clock (milliseconds) is the argument \<open>now\<close> of an operation.

  Shown: without aging the queue refines a list from which the first task of the highest priority
  is taken, with aging no task is lost or repeated, and the order a dequeue serves can be out of date.
\<close>

section \<open>Heaps in arrays\<close>

definition swap :: "nat \<Rightarrow> nat \<Rightarrow> 'n list \<Rightarrow> 'n list" where
  "swap i j h = h[i := h ! j, j := h ! i]"

lemma length_swap [simp]: "length (swap i j h) = length h"
  by (simp add: swap_def)

lemma nth_swap: "i < length h \<Longrightarrow> j < length h \<Longrightarrow> k < length h \<Longrightarrow>
    swap i j h ! k = (if k = i then h ! j else if k = j then h ! i else h ! k)"
  by (simp add: swap_def nth_list_update)

lemma mset_swap': "i < length h \<Longrightarrow> j < length h \<Longrightarrow> mset (swap i j h) = mset h"
  by (cases "i = j") (simp_all add: swap_def mset_swap)

text \<open>\<open>hp a b\<close> stands for \<open>_isHigherPriority\<close> of the nodes \<open>a\<close> and \<open>b\<close>.\<close>

function bubbleUp :: "('n \<Rightarrow> 'n \<Rightarrow> bool) \<Rightarrow> nat \<Rightarrow> 'n list \<Rightarrow> 'n list" where
  "bubbleUp hp i h =
     (if i = 0 then h
      else let parent = (i - 1) div 2 in
        if hp (h ! parent) (h ! i) then h else bubbleUp hp parent (swap i parent h))"
  by pat_completeness auto
termination by (relation "measure (\<lambda>(hp, i, h). i)") auto

definition largest :: "('n \<Rightarrow> 'n \<Rightarrow> bool) \<Rightarrow> nat \<Rightarrow> 'n list \<Rightarrow> nat" where
  "largest hp i h =
     (let left = 2 * i + 1; right = left + 1;
          l1 = (if left < length h \<and> hp (h ! left) (h ! i) then left else i)
      in if right < length h \<and> hp (h ! right) (h ! l1) then right else l1)"

lemma largest_child: "largest hp i h \<noteq> i \<Longrightarrow> i < largest hp i h \<and> largest hp i h < length h"
  by (auto simp: largest_def Let_def split: if_splits)

function bubbleDown :: "('n \<Rightarrow> 'n \<Rightarrow> bool) \<Rightarrow> nat \<Rightarrow> 'n list \<Rightarrow> 'n list" where
  "bubbleDown hp i h =
     (let l = largest hp i h in if l = i then h else bubbleDown hp l (swap i l h))"
  by pat_completeness auto
termination by (relation "measure (\<lambda>(hp, i, h). length h - i)") (auto dest: largest_child)

declare bubbleUp.simps [simp del] bubbleDown.simps [simp del]

text \<open>A heap for a key: no node has a greater key than its parent, \<open>except\<close> possibly at one index.\<close>

definition heap_ok :: "('n \<Rightarrow> 'k::linorder) \<Rightarrow> 'n list \<Rightarrow> bool" where
  "heap_ok key h \<longleftrightarrow> (\<forall>j. 0 < j \<longrightarrow> j < length h \<longrightarrow> key (h ! j) \<le> key (h ! ((j - 1) div 2)))"

lemma child_cases: "0 < j \<Longrightarrow> (j - 1) div 2 = i \<longleftrightarrow> j = 2 * i + 1 \<or> j = 2 * i + (2::nat)"
  by presburger

lemma heap_root:
  assumes "heap_ok key h" and "j < length h"
  shows "key (h ! j) \<le> key (h ! 0)"
  using assms(2)
proof (induction j rule: less_induct)
  case (less j)
  show ?case
  proof (cases "j = 0")
    case False
    have "(j - 1) div 2 < j"
      using False by linarith
    with less have "key (h ! ((j - 1) div 2)) \<le> key (h ! 0)"
      by simp
    moreover have "key (h ! j) \<le> key (h ! ((j - 1) div 2))"
      using assms(1) False less.prems by (simp add: heap_ok_def)
    ultimately show ?thesis
      by simp
  qed simp
qed

lemma bubbleUp_mset: "i < length h \<Longrightarrow> mset (bubbleUp hp i h) = mset h"
proof (induction hp i h rule: bubbleUp.induct)
  case (1 hp i h)
  then show ?case
    by (subst bubbleUp.simps) (auto simp: Let_def mset_swap')
qed

lemma bubbleUp_heap:
  fixes key :: "'n \<Rightarrow> 'k::linorder"
  defines "hp \<equiv> \<lambda>a b. key b < key a"
  assumes "i < length h"
    and "\<And>j. 0 < j \<Longrightarrow> j < length h \<Longrightarrow> j \<noteq> i \<Longrightarrow> key (h ! j) \<le> key (h ! ((j - 1) div 2))"
    and "\<And>j. 0 < j \<Longrightarrow> j < length h \<Longrightarrow> (j - 1) div 2 = i \<Longrightarrow> 0 < i \<Longrightarrow> key (h ! j) \<le> key (h ! ((i - 1) div 2))"
  shows "heap_ok key (bubbleUp hp i h)"
  using assms(2-4)
proof (induction i arbitrary: h rule: less_induct)
  case (less i)
  show ?case
  proof (cases "i = 0")
    case True
    with less.prems(2) show ?thesis
      by (subst bubbleUp.simps) (simp add: heap_ok_def)
  next
    case False
    let ?p = "(i - 1) div 2"
    have p: "?p < i"
      using False by linarith
    show ?thesis
    proof (cases "hp (h ! ?p) (h ! i)")
      case True
      then have "key (h ! j) \<le> key (h ! ((j - 1) div 2))" if "0 < j" "j < length h" for j
        using less.prems(2) [OF that] by (cases "j = i") (simp_all add: hp_def less_imp_le)
      then have "heap_ok key h"
        by (simp add: heap_ok_def)
      with True False show ?thesis
        by (subst bubbleUp.simps) simp
    next
      case not_higher: False
      then have up: "key (h ! ?p) \<le> key (h ! i)"
        by (simp add: hp_def)
      let ?h = "swap i ?p h"
      have nth: "?h ! k = (if k = i then h ! ?p else if k = ?p then h ! i else h ! k)" if "k < length h" for k
        using less.prems(1) p that by (simp add: nth_swap)
      have "heap_ok key (bubbleUp hp ?p ?h)"
      proof (rule less.IH [OF p])
        show "?p < length ?h"
          using p less.prems(1) by simp
      next
        fix j assume j: "0 < j" "j < length ?h" "j \<noteq> ?p"
        let ?q = "(j - 1) div 2"
        have q: "?q < length h"
          using j by simp
        have old: "j \<noteq> i \<Longrightarrow> key (h ! j) \<le> key (h ! ?q)"
          using less.prems(2) [of j] j by simp
        show "key (?h ! j) \<le> key (?h ! ?q)"
        proof (cases "j = i")
          case True
          with up nth less.prems(1) p show ?thesis
            by simp
        next
          case j_i: False
          show ?thesis
          proof (cases "?q = i")
            case True
            with less.prems(3) [of j] j j_i False p nth less.prems(1) show ?thesis
              by simp
          next
            case False
            with old j_i j nth q up show ?thesis
              by (auto intro: order_trans)
          qed
        qed
      next
        fix j assume j: "0 < j" "j < length ?h" "(j - 1) div 2 = ?p" "0 < ?p"
        let ?g = "(?p - 1) div 2"
        have g: "?g < ?p"
          using j(4) by linarith
        have grand: "key (h ! ?p) \<le> key (h ! ?g)"
          using less.prems(2) [of ?p] j(4) p less.prems(1) by simp
        have "key (?h ! j) \<le> key (h ! ?p)"
        proof (cases "j = i")
          case False
          have "j \<noteq> ?p"
            using j by linarith
          with False less.prems(2) [of j] j nth show ?thesis
            by simp
        qed (use nth less.prems(1) in simp)
        with grand nth [of ?g] g p less.prems(1) show "key (?h ! j) \<le> key (?h ! ?g)"
          by (auto intro: order_trans)
      qed
      with False not_higher show ?thesis
        by (subst bubbleUp.simps) (simp add: Let_def)
    qed
  qed
qed

lemma bubbleDown_mset: "i < length h \<Longrightarrow> mset (bubbleDown hp i h) = mset h"
proof (induction hp i h rule: bubbleDown.induct)
  case (1 hp i h)
  then show ?case
    using largest_child [of hp i h] by (subst bubbleDown.simps) (auto simp: Let_def mset_swap')
qed

lemma largest_greatest:
  fixes key :: "'n \<Rightarrow> 'k::linorder"
  assumes "i < length h"
  defines "l \<equiv> largest (\<lambda>a b. key b < key a) i h"
  shows "key (h ! i) \<le> key (h ! l)" and "\<And>j. 0 < j \<Longrightarrow> j < length h \<Longrightarrow> (j - 1) div 2 = i \<Longrightarrow> key (h ! j) \<le> key (h ! l)"
    and "l \<noteq> i \<Longrightarrow> 0 < l \<and> (l - 1) div 2 = i"
proof -
  show "key (h ! i) \<le> key (h ! l)"
    by (auto simp: l_def largest_def Let_def)
  show "key (h ! j) \<le> key (h ! l)" if j: "0 < j" "j < length h" "(j - 1) div 2 = i" for j
  proof -
    from j have "j = 2 * i + 1 \<or> j = 2 * i + 2"
      using child_cases by blast
    with j(2) show ?thesis
      by (auto simp: l_def largest_def Let_def)
  qed
  show "l \<noteq> i \<Longrightarrow> 0 < l \<and> (l - 1) div 2 = i"
    by (auto simp: l_def largest_def Let_def split: if_splits)
qed

lemma bubbleDown_heap:
  fixes key :: "'n \<Rightarrow> 'k::linorder"
  defines "hp \<equiv> \<lambda>a b. key b < key a"
  assumes "i < length h"
    and "\<And>j. 0 < j \<Longrightarrow> j < length h \<Longrightarrow> (j - 1) div 2 \<noteq> i \<Longrightarrow> key (h ! j) \<le> key (h ! ((j - 1) div 2))"
    and "\<And>j. 0 < j \<Longrightarrow> j < length h \<Longrightarrow> (j - 1) div 2 = i \<Longrightarrow> 0 < i \<Longrightarrow> key (h ! j) \<le> key (h ! ((i - 1) div 2))"
  shows "heap_ok key (bubbleDown hp i h)"
  using assms(2-4)
proof (induction "length h - i" arbitrary: i h rule: less_induct)
  case less
  let ?l = "largest hp i h"
  note great = largest_greatest [OF less.prems(1), where key = key, folded hp_def]
  show ?case
  proof (cases "?l = i")
    case True
    then have "key (h ! j) \<le> key (h ! ((j - 1) div 2))" if "0 < j" "j < length h" for j
      using less.prems(2) [OF that] great(2) [OF that] by (cases "(j - 1) div 2 = i") simp_all
    then have "heap_ok key h"
      by (simp add: heap_ok_def)
    with True show ?thesis
      by (subst bubbleDown.simps) simp
  next
    case False
    then have l: "i < ?l" "?l < length h" "0 < ?l" "(?l - 1) div 2 = i"
      using largest_child [of hp i h] great(3) by auto
    let ?h = "swap i ?l h"
    have nth: "?h ! k = (if k = i then h ! ?l else if k = ?l then h ! i else h ! k)" if "k < length h" for k
      using l less.prems(1) that by (simp add: nth_swap)
    have "heap_ok key (bubbleDown hp ?l ?h)"
    proof (rule less.hyps)
      show "length ?h - ?l < length h - i"
        using l by simp
      show "?l < length ?h"
        using l by simp
    next
      fix j assume j: "0 < j" "j < length ?h" "(j - 1) div 2 \<noteq> ?l"
      let ?q = "(j - 1) div 2"
      have q: "?q < length h" "?q < j"
        using j by simp_all
      show "key (?h ! j) \<le> key (?h ! ?q)"
      proof (cases "?q = i")
        case True
        with great(1) great(2) [of j] j nth less.prems(1) q show ?thesis
          by simp
      next
        case q_i: False
        show ?thesis
        proof (cases "j = i")
          case True
          with less.prems(3) [of ?l] l j nth q q_i less.prems(1) show ?thesis
            by simp
        next
          case False
          have "j \<noteq> ?l"
            using q_i l(4) by auto
          with False q_i j less.prems(2) [of j] nth q show ?thesis
            by simp
        qed
      qed
    next
      fix j assume j: "0 < j" "j < length ?h" "(j - 1) div 2 = ?l" "0 < ?l"
      have "?l < j"
        using j by linarith
      with j l nth less.prems(1) less.prems(2) [of j] show "key (?h ! j) \<le> key (?h ! ((?l - 1) div 2))"
        by simp
    qed
    with False show ?thesis
      by (subst bubbleDown.simps) (simp add: Let_def)
  qed
qed

section \<open>The task queue\<close>

record 'a pnode =
  nd_task :: 'a
  nd_priority :: rat
  nd_order :: nat
  nd_enqueuedAt :: "nat option"

record 'a pqueue =
  pq_heap :: "'a pnode list"
  pq_counter :: nat
  pq_agingMs :: nat
  pq_maxAgingBoost :: rat
  pq_agingMultiplier :: rat

definition priority_new :: "nat \<Rightarrow> rat \<Rightarrow> 'a pqueue" where
  "priority_new agingMs maxAgingBoost = \<lparr>pq_heap = [], pq_counter = 0, pq_agingMs = agingMs,
     pq_maxAgingBoost = maxAgingBoost, pq_agingMultiplier = 1\<rparr>"

definition agingEnabled :: "'a pqueue \<Rightarrow> bool" where
  "agingEnabled q \<longleftrightarrow> pq_agingMs q > 0 \<and> pq_maxAgingBoost q > 0"

definition agingTimestamp :: "nat \<Rightarrow> 'a pqueue \<Rightarrow> nat" where
  "agingTimestamp now q = (if agingEnabled q then now else 0)"

definition agingBase :: "'a pqueue \<Rightarrow> rat" where
  "agingBase q = (if \<not> agingEnabled q then 0 else of_nat (pq_agingMs q) * pq_agingMultiplier q)"

definition setAgingMultiplier :: "rat \<Rightarrow> 'a pqueue \<Rightarrow> 'a pqueue" where
  "setAgingMultiplier m q = (if \<not> agingEnabled q then q else q\<lparr>pq_agingMultiplier := min 4 (max (1 / 4) m)\<rparr>)"

definition priorityValue :: "'a pqueue \<Rightarrow> nat \<Rightarrow> rat \<Rightarrow> 'a pnode \<Rightarrow> rat" where
  "priorityValue q now base n =
     (if \<not> agingEnabled q \<or> base = 0 then nd_priority n
      else let waited = now - (case nd_enqueuedAt n of None \<Rightarrow> 0 | Some t \<Rightarrow> t) in
        if waited \<le> 0 then nd_priority n
        else nd_priority n + min (pq_maxAgingBoost q) (of_nat waited / base))"

definition isHigherPriority :: "'a pqueue \<Rightarrow> nat \<Rightarrow> 'a pnode \<Rightarrow> 'a pnode \<Rightarrow> bool" where
  "isHigherPriority q now a b =
     (let pa = priorityValue q (agingTimestamp now q) (agingBase q) a;
          pb = priorityValue q (agingTimestamp now q) (agingBase q) b
      in if pa = pb then nd_order a < nd_order b else pa > pb)"

definition priority_enqueue :: "nat \<Rightarrow> rat \<times> 'a \<Rightarrow> 'a pqueue \<Rightarrow> 'a pqueue" where
  "priority_enqueue now pt q =
     (let n = \<lparr>nd_task = snd pt, nd_priority = fst pt, nd_order = pq_counter q,
            nd_enqueuedAt = (if agingEnabled q then Some now else None)\<rparr>;
          h = pq_heap q @ [n]
      in q\<lparr>pq_counter := pq_counter q + 1, pq_heap := bubbleUp (isHigherPriority q now) (length h - 1) h\<rparr>)"

text \<open>The node a dequeue takes off; \<open>dequeue\<close> answers its task.\<close>

definition priority_pop :: "nat \<Rightarrow> 'a pqueue \<Rightarrow> 'a pnode option \<times> 'a pqueue" where
  "priority_pop now q =
     (if length (pq_heap q) = 0 then (None, q)
      else let topNode = pq_heap q ! 0; lastNode = last (pq_heap q); rest = butlast (pq_heap q)
        in (Some topNode, q\<lparr>pq_heap :=
             if length rest > 0 then bubbleDown (isHigherPriority q now) 0 (rest[0 := lastNode]) else rest\<rparr>))"

definition node_item :: "'a pnode \<Rightarrow> rat \<times> 'a" where
  "node_item n = (nd_priority n, nd_task n)"

definition priority_dequeue :: "nat \<Rightarrow> 'a pqueue \<Rightarrow> (rat \<times> 'a) option \<times> 'a pqueue" where
  "priority_dequeue now q = (case priority_pop now q of (r, q') \<Rightarrow> (map_option node_item r, q'))"

definition priority_flush :: "'a pqueue \<Rightarrow> 'a list \<times> 'a pqueue" where
  "priority_flush q = (map nd_task (pq_heap q), q\<lparr>pq_heap := []\<rparr>)"

definition node_key :: "'a pqueue \<Rightarrow> nat \<Rightarrow> 'a pnode \<Rightarrow> rat \<times> int" where
  "node_key q now n = (priorityValue q (agingTimestamp now q) (agingBase q) n, - int (nd_order n))"

lemma isHigherPriority_key: "isHigherPriority q now = (\<lambda>a b. node_key q now b < node_key q now a)"
  by (auto simp: isHigherPriority_def node_key_def Let_def fun_eq_iff)

lemma priority_enqueue_mset:
  "mset (pq_heap (priority_enqueue now pt q)) = mset (pq_heap q) + {#\<lparr>nd_task = snd pt, nd_priority = fst pt,
     nd_order = pq_counter q, nd_enqueuedAt = (if agingEnabled q then Some now else None)\<rparr>#}"
  by (simp add: priority_enqueue_def Let_def bubbleUp_mset)

lemma priority_pop_mset:
  assumes "priority_pop now q = (Some n, q')"
  shows "n = pq_heap q ! 0" and "mset (pq_heap q) = add_mset n (mset (pq_heap q'))"
proof -
  have "pq_heap q \<noteq> []"
    using assms by (auto simp: priority_pop_def split: if_splits)
  then obtain xs l where h: "pq_heap q = xs @ [l]"
    by (metis append_butlast_last_id)
  show "n = pq_heap q ! 0"
    using assms by (auto simp: priority_pop_def Let_def split: if_splits)
  show "mset (pq_heap q) = add_mset n (mset (pq_heap q'))"
    using assms h by (cases xs) (auto simp: priority_pop_def Let_def bubbleDown_mset)
qed

section \<open>No task is lost\<close>

text \<open>A run with a clock: \<open>Some pt\<close> enqueues and \<open>None\<close> dequeues; the items that were served.\<close>

fun priority_run :: "(nat \<times> (rat \<times> 'a) option) list \<Rightarrow> 'a pqueue \<Rightarrow> (rat \<times> 'a) list \<times> 'a pqueue" where
  "priority_run [] q = ([], q)"
| "priority_run ((now, Some pt) # ops) q = priority_run ops (priority_enqueue now pt q)"
| "priority_run ((now, None) # ops) q =
     (case priority_dequeue now q of
        (None, q') \<Rightarrow> priority_run ops q'
      | (Some x, q') \<Rightarrow> (case priority_run ops q' of (xs, q'') \<Rightarrow> (x # xs, q'')))"

text \<open>
  Priority queue. With aging or without, at any clock, the tasks that were served and the ones
  still queued are together the ones that were enqueued, each as often as it was.
\<close>

theorem priority_conserves:
  "mset (fst (priority_run ops q)) + mset (map node_item (pq_heap (snd (priority_run ops q)))) =
     mset (map node_item (pq_heap q)) + mset (List.map_filter snd ops)"
proof (induction ops q rule: priority_run.induct)
  case (2 now pt ops q)
  have "image_mset node_item (mset (pq_heap (priority_enqueue now pt q))) =
      add_mset pt (image_mset node_item (mset (pq_heap q)))"
    by (simp add: priority_enqueue_mset node_item_def)
  with 2 show ?case
    by (simp add: List.map_filter_simps)
next
  case (3 now ops q)
  show ?case
  proof (cases "priority_pop now q")
    case (Pair r q')
    show ?thesis
    proof (cases r)
      case None
      with Pair 3 show ?thesis
        by (auto simp: priority_dequeue_def List.map_filter_simps priority_pop_def Let_def split: if_splits)
    next
      case (Some n)
      with Pair have "image_mset node_item (mset (pq_heap q)) = add_mset (node_item n) (image_mset node_item (mset (pq_heap q')))"
        using priority_pop_mset (2) [of now q n q'] by simp
      with Some Pair 3 show ?thesis
        by (simp add: priority_dequeue_def List.map_filter_simps case_prod_unfold)
    qed
  qed
qed (simp add: List.map_filter_simps)

section \<open>Without aging\<close>

text \<open>The specification: the first item of the highest priority, in the order of arrival.\<close>

definition best :: "(rat \<times> 'a) list \<Rightarrow> rat \<times> 'a" where
  "best xs = hd (filter (\<lambda>x. fst x = Max (set (map fst xs))) xs)"

definition take_best :: "(rat \<times> 'a) list \<Rightarrow> (rat \<times> 'a) option \<times> (rat \<times> 'a) list" where
  "take_best xs = (if xs = [] then (None, []) else (Some (best xs), remove1 (best xs) xs))"

definition arrival :: "'a pqueue \<Rightarrow> 'a pnode list" where
  "arrival q = sort_key nd_order (pq_heap q)"

definition plain_key :: "'a pnode \<Rightarrow> rat \<times> int" where
  "plain_key n = (nd_priority n, - int (nd_order n))"

definition plain_inv :: "'a pqueue \<Rightarrow> bool" where
  "plain_inv q \<longleftrightarrow> \<not> agingEnabled q \<and> heap_ok plain_key (pq_heap q) \<and>
     distinct (map nd_order (pq_heap q)) \<and> (\<forall>n\<in>set (pq_heap q). nd_order n < pq_counter q)"

lemma node_key_plain: "\<not> agingEnabled q \<Longrightarrow> node_key q now = plain_key"
  by (simp add: node_key_def plain_key_def priorityValue_def fun_eq_iff)

definition items :: "'a pqueue \<Rightarrow> (rat \<times> 'a) list" where
  "items q = map node_item (arrival q)"

lemma heap_ok_pop:
  assumes ok: "heap_ok key h"
  defines "rest \<equiv> butlast h"
  shows "heap_ok key (if length rest > 0 then bubbleDown (\<lambda>a b. key b < key a) 0 (rest[0 := last h]) else rest)"
proof (cases "rest = []")
  case False
  let ?h = "rest[0 := last h]"
  have "heap_ok key (bubbleDown (\<lambda>a b. key b < key a) 0 ?h)"
  proof (rule bubbleDown_heap)
    fix j assume j: "0 < j" "j < length ?h" "(j - 1) div 2 \<noteq> 0"
    then have "(j - 1) div 2 < length rest"
      by simp
    with ok j show "key (?h ! j) \<le> key (?h ! ((j - 1) div 2))"
      by (simp add: heap_ok_def rest_def nth_butlast)
  qed (use False in simp_all)
  with False show ?thesis
    by simp
qed (simp add: heap_ok_def)

lemma arrival_eq:
  assumes "plain_inv q" and "mset (pq_heap q) = mset xs" and "sorted (map nd_order xs)"
  shows "arrival q = xs"
  unfolding arrival_def
  using assms by (intro sort_key_inj_key_eq) (auto simp: plain_inv_def distinct_map)

lemma arrival_facts:
  assumes "plain_inv q"
  shows "mset (arrival q) = mset (pq_heap q)" and "sorted (map nd_order (arrival q))"
    and "distinct (map nd_order (arrival q))" and "set (arrival q) = set (pq_heap q)"
  using assms by (simp_all add: arrival_def plain_inv_def distinct_map)

lemma priority_enqueue_plain:
  assumes inv: "plain_inv q"
  shows "plain_inv (priority_enqueue now pt q)" and "items (priority_enqueue now pt q) = append_one pt (items q)"
proof -
  let ?q = "priority_enqueue now pt q"
  define n where "n = \<lparr>nd_task = snd pt, nd_priority = fst pt, nd_order = pq_counter q, nd_enqueuedAt = None\<rparr>"
  let ?h = "pq_heap q @ [n]"
  have plain: "\<not> agingEnabled q"
    using inv by (simp add: plain_inv_def)
  then have heap: "pq_heap ?q = bubbleUp (isHigherPriority q now) (length ?h - 1) ?h"
    and counter: "pq_counter ?q = pq_counter q + 1"
    by (simp_all add: priority_enqueue_def n_def Let_def)
  have off: "\<not> agingEnabled ?q"
    using plain by (simp add: agingEnabled_def priority_enqueue_def Let_def)
  have mset: "mset (pq_heap ?q) = mset ?h"
    unfolding heap by (rule bubbleUp_mset) simp
  then have set: "set (pq_heap ?q) = set ?h"
    by (rule mset_eq_setD)
  have "heap_ok plain_key (bubbleUp (\<lambda>a b. plain_key b < plain_key a) (length ?h - 1) ?h)"
  proof (rule bubbleUp_heap)
    fix j assume j: "0 < j" "j < length ?h" "j \<noteq> length ?h - 1"
    then have "j < length (pq_heap q)" "(j - 1) div 2 < length (pq_heap q)"
      by auto
    with inv j show "plain_key (?h ! j) \<le> plain_key (?h ! ((j - 1) div 2))"
      by (simp add: plain_inv_def heap_ok_def nth_append)
  next
    fix j assume "0 < j" "j < length ?h" "(j - 1) div 2 = length ?h - 1"
    then show "plain_key (?h ! j) \<le> plain_key (?h ! ((length ?h - 1 - 1) div 2))"
      by simp
  qed simp
  then have ok: "heap_ok plain_key (pq_heap ?q)"
    using plain by (simp add: heap isHigherPriority_key node_key_plain)
  have orders: "distinct (map nd_order ?h)"
    using inv by (auto simp: plain_inv_def n_def)
  have "distinct (map nd_order (pq_heap ?q))"
    using orders mset by (metis mset_eq_imp_distinct_iff mset_map)
  with ok set inv off counter show "plain_inv ?q"
    by (auto simp: plain_inv_def n_def less_Suc_eq)
  then have "arrival ?q = arrival q @ [n]"
    using inv arrival_facts [OF inv] mset
    by (intro arrival_eq) (auto simp: sorted_append plain_inv_def n_def less_imp_le)
  then show "items ?q = append_one pt (items q)"
    by (simp add: items_def append_one_def node_item_def n_def)
qed

lemma best_node:
  assumes "distinct (map nd_order (as @ n # bs))" and "sorted (map nd_order (as @ n # bs))"
    and max: "\<And>m. m \<in> set (as @ n # bs) \<Longrightarrow> plain_key m \<le> plain_key n"
  shows "take_best (map node_item (as @ n # bs)) = (Some (node_item n), map node_item (as @ bs))"
proof -
  have top: "nd_priority m \<le> nd_priority n" if "m \<in> set (as @ n # bs)" for m
    using max [OF that] by (auto simp: plain_key_def)
  have before: "nd_priority m < nd_priority n" if "m \<in> set as" for m
  proof -
    have "nd_order m < nd_order n"
    proof (rule order.not_eq_order_implies_strict)
      show "nd_order m \<noteq> nd_order n"
        using assms(1) imageI [OF that, of nd_order] by auto
      show "nd_order m \<le> nd_order n"
        using assms(2) that by (auto simp: sorted_append)
    qed
    with max [of m] that show ?thesis
      by (auto simp: plain_key_def)
  qed
  let ?xs = "map node_item (as @ n # bs)"
  have "Max (set (map fst ?xs)) = nd_priority n"
    using top by (intro Max_eqI) (auto simp: node_item_def)
  moreover have "filter (\<lambda>x. fst x = nd_priority n) (map node_item as) = []"
    using before by (force simp: filter_empty_conv node_item_def)
  ultimately have "best ?xs = node_item n"
    by (simp add: best_def) (simp add: node_item_def)
  moreover have "node_item n \<notin> set (map node_item as)"
    using before by (force simp: node_item_def)
  ultimately show ?thesis
    by (simp add: take_best_def remove1_append)
qed

lemma priority_dequeue_plain:
  assumes inv: "plain_inv q"
  shows "plain_inv (snd (priority_dequeue now q))"
    and "(fst (priority_dequeue now q), items (snd (priority_dequeue now q))) = take_best (items q)"
proof -
  have both: "plain_inv (snd (priority_dequeue now q)) \<and>
    (fst (priority_dequeue now q), items (snd (priority_dequeue now q))) = take_best (items q)"
  proof (cases "pq_heap q = []")
    case True
    with inv show ?thesis
      by (simp add: priority_dequeue_def priority_pop_def items_def arrival_def take_best_def)
  next
    case False
    obtain n p where pop: "priority_pop now q = (Some n, p)"
      using False by (simp add: priority_pop_def Let_def)
    then have deq: "priority_dequeue now q = (Some (node_item n), p)"
      by (simp add: priority_dequeue_def)
    note n = priority_pop_mset [OF pop]
    have plain: "isHigherPriority q now = (\<lambda>a b. plain_key b < plain_key a)"
      using inv by (simp add: isHigherPriority_key node_key_plain plain_inv_def)
    have p: "pq_counter p = pq_counter q" "agingEnabled p = agingEnabled q"
      using pop False by (auto simp: priority_pop_def Let_def agingEnabled_def)
    have "distinct (map nd_order (n # pq_heap p))"
      using inv n(2) by (metis mset.simps(2) mset_eq_imp_distinct_iff mset_map plain_inv_def)
    moreover have sets: "set (pq_heap q) = insert n (set (pq_heap p))"
      using n(2) by (metis list.simps(15) mset.simps(2) mset_eq_setD)
    moreover have "pq_heap p = (if length (butlast (pq_heap q)) > 0
        then bubbleDown (isHigherPriority q now) 0 ((butlast (pq_heap q))[0 := last (pq_heap q)])
        else butlast (pq_heap q))"
      using pop False by (auto simp: priority_pop_def Let_def simp del: length_butlast)
    then have "heap_ok plain_key (pq_heap p)"
      unfolding plain using inv heap_ok_pop [of plain_key "pq_heap q"] by (simp only: plain_inv_def)
    ultimately have inv': "plain_inv p"
      using inv p by (auto simp: plain_inv_def)
    have "n \<in> set (arrival q)"
      using arrival_facts(4) [OF inv] sets by simp
    then obtain as bs where split: "arrival q = as @ n # bs"
      by (meson split_list)
    have "take_best (items q) = (Some (node_item n), map node_item (as @ bs))"
      unfolding items_def split
    proof (rule best_node)
      show "plain_key m \<le> plain_key n" if "m \<in> set (as @ n # bs)" for m
      proof -
        have "m \<in> set (pq_heap q)"
          using that split arrival_facts(4) [OF inv] by auto
        then obtain j where "j < length (pq_heap q)" "m = pq_heap q ! j"
          by (metis in_set_conv_nth)
        with heap_root [of plain_key "pq_heap q" j] inv n(1) show ?thesis
          by (simp add: plain_inv_def)
      qed
    qed (use arrival_facts [OF inv] split in simp_all)
    moreover have "arrival p = as @ bs"
      using arrival_facts [OF inv] n(2) split by (intro arrival_eq [OF inv']) (auto simp: sorted_append)
    ultimately show ?thesis
      using inv' by (simp add: deq items_def)
  qed
  then show "plain_inv (snd (priority_dequeue now q))"
    and "(fst (priority_dequeue now q), items (snd (priority_dequeue now q))) = take_best (items q)"
    by blast+
qed

interpretation pq: queue_refinement plain_inv items "priority_enqueue now" "priority_dequeue now" append_one take_best
  by unfold_locales (simp_all add: priority_enqueue_plain priority_dequeue_plain)

text \<open>
  C20 (priority queue). Without aging, whatever is enqueued and dequeued in whatever order, a dequeue
  answers the first task among those of the highest priority.
\<close>

theorem priority_serves_best:
  assumes "agingMs = 0 \<or> maxAgingBoost \<le> 0"
  shows "queue_answers (priority_enqueue now) (priority_dequeue now) ops (priority_new agingMs maxAgingBoost) =
     queue_answers append_one take_best ops []"
proof -
  have "plain_inv (priority_new agingMs maxAgingBoost :: 'a pqueue)"
    using assms by (auto simp: plain_inv_def priority_new_def agingEnabled_def heap_ok_def)
  moreover have "items (priority_new agingMs maxAgingBoost :: 'a pqueue) = []"
    by (simp add: items_def arrival_def priority_new_def)
  ultimately show ?thesis
    using pq.answers_list [of "priority_new agingMs maxAgingBoost :: 'a pqueue" now ops] by simp
qed

theorem priority_serves_best_witness:
  "queue_answers (priority_enqueue 7) (priority_dequeue 7)
     [Enqueue (1, ''a''), Enqueue (2, ''b''), Enqueue (2, ''c''), Dequeue, Dequeue, Dequeue, Dequeue] (priority_new 0 2) =
     [Some (2, ''b''), Some (2, ''c''), Some (1, ''a''), None]"
  by (rule trans [OF priority_serves_best [of 0 2 7]]) (simp_all add: append_one_def take_best_def best_def)

text \<open>
  Priority queue. With aging the heap is ordered by the values the nodes had when they were
  placed, and these change at different rates once a boost is capped. A task of value 2 is served
  before one whose value at that moment is 3.
\<close>

definition aged_queue :: "string pqueue" where
  "aged_queue = priority_enqueue 20 (1, ''late'') (priority_enqueue 0 (0, ''early'') (priority_new 10 2))"

theorem aging_order_out_of_date:
  "fst (priority_dequeue 40 aged_queue) = Some (0, ''early'') \<and>
   map (\<lambda>n. (nd_task n, priorityValue aged_queue 40 10 n)) (pq_heap aged_queue) = [(''early'', 2), (''late'', 3)]"
  by (simp add: aged_queue_def priority_enqueue_def priority_new_def priority_dequeue_def priority_pop_def
      node_item_def agingEnabled_def Let_def bubbleUp.simps isHigherPriority_def priorityValue_def
      agingTimestamp_def agingBase_def)

end
