(* ===== verification/PartitionQueue.thy ===== *)
theory PartitionQueue
  imports JsPrelude "HOL-Library.Multiset"
begin

text \<open>
  \<open>src/concerns/partition-queue.ts\<close>: the retrying queue of partition operations. The items are
  shared objects, so the state keeps them in a store by identifier and the queue, the retry timers,
  the failure history and the persistence hold identifiers. \<open>process\<close> is a loop with awaits: a
  running loop is one entry of \<open>pt_loops\<close>, which says what it waits for, and \<open>pt_immediates\<close> counts
  the calls of \<open>process\<close> scheduled with \<open>setImmediate\<close>. The calls of \<open>enqueue\<close> that wait for the
  persistence are \<open>pt_saving\<close>, and \<open>pt_recovering\<close> counts the calls of \<open>recover\<close> that wait for it. An
  event resolves one await, fires one timer or is a call of the interface. What the resource and the
  persistence answer is part of the event, and the persistence changes when its answer arrives.

  Shown: in runs of \<open>enqueue\<close>, \<open>process\<close> and the retry timers alone (no \<open>stop\<close>, \<open>resume\<close>, \<open>clear\<close> or
  \<open>recover\<close>) no operation is lost and none is executed more than \<open>maxRetries\<close> times. \<open>stop\<close> and
  \<open>clear\<close> drop what waits, and \<open>recover\<close> can put an item in the queue that is in it already. A
  dead-letter write of the only loop that throws leaves the queue processing nothing until \<open>stop\<close>.
\<close>

datatype operation_type = OpCreate | OpUpdate | OpDelete | OpUnknown

datatype item_status = Pending | Retrying | Completed | Failed

record queue_item =
  qi_type :: operation_type
  qi_retries :: nat
  qi_status :: item_status

text \<open>What a loop of \<open>process\<close> waits for.\<close>

datatype loop_await = Executing nat | Removing nat | Burying nat

fun await_id :: "loop_await \<Rightarrow> nat" where
  "await_id (Executing i) = i"
| "await_id (Removing i) = i"
| "await_id (Burying i) = i"

record part_queue =
  pt_maxRetries :: nat
  pt_retryDelay :: nat
  pt_persistent :: bool
  pt_maxFailureHistory :: nat
  pt_items :: "nat \<Rightarrow> queue_item option"
  pt_queue :: "nat list"
  pt_processing :: bool
  pt_failures :: "nat list"
  pt_timers :: "(nat \<times> nat) list"
  pt_stopped :: bool
  pt_loops :: "loop_await list"
  pt_immediates :: nat
  pt_saving :: "nat list"
  pt_recovering :: nat
  pt_saved :: "nat list"
  pt_dlq :: "nat list"
  pt_executions :: "nat \<Rightarrow> nat"

definition part_new :: "nat option \<Rightarrow> nat option \<Rightarrow> bool \<Rightarrow> int option \<Rightarrow> part_queue" where
  "part_new maxRetries retryDelay persistent maxFailureHistory =
     \<lparr>pt_maxRetries = (case maxRetries of None \<Rightarrow> 3 | Some n \<Rightarrow> if n = 0 then 3 else n),
      pt_retryDelay = (case retryDelay of None \<Rightarrow> 1000 | Some n \<Rightarrow> if n = 0 then 1000 else n),
      pt_persistent = persistent,
      pt_maxFailureHistory = (case maxFailureHistory of None \<Rightarrow> 1000 | Some n \<Rightarrow> nat (max 0 n)),
      pt_items = (\<lambda>i. None), pt_queue = [], pt_processing = False, pt_failures = [], pt_timers = [],
      pt_stopped = False, pt_loops = [], pt_immediates = 0, pt_saving = [],
      pt_recovering = 0, pt_saved = [], pt_dlq = [], pt_executions = (\<lambda>i. 0)\<rparr>"

definition set_item :: "nat \<Rightarrow> (queue_item \<Rightarrow> queue_item) \<Rightarrow> part_queue \<Rightarrow> part_queue" where
  "set_item i f s = s\<lparr>pt_items := (pt_items s)(i := map_option f (pt_items s i))\<rparr>"

text \<open>A \<open>Map\<close> keyed by identifier: \<open>set\<close> keeps the place of a key it has.\<close>

definition map_set :: "nat \<Rightarrow> nat list \<Rightarrow> nat list" where
  "map_set i xs = (if i \<in> set xs then xs else xs @ [i])"

definition map_delete :: "nat \<Rightarrow> nat list \<Rightarrow> nat list" where
  "map_delete i xs = filter (\<lambda>j. j \<noteq> i) xs"

text \<open>The head of the loop of \<open>process\<close>: \<open>executeOperation\<close> of the next item, or the end.\<close>

definition continue_loop :: "part_queue \<Rightarrow> part_queue" where
  "continue_loop s =
     (if \<not> pt_stopped s \<and> pt_queue s \<noteq> []
      then s\<lparr>pt_queue := tl (pt_queue s), pt_loops := pt_loops s @ [Executing (hd (pt_queue s))],
        pt_executions := (pt_executions s)(hd (pt_queue s) := Suc (pt_executions s (hd (pt_queue s))))\<rparr>
      else s\<lparr>pt_processing := False\<rparr>)"

definition process :: "part_queue \<Rightarrow> part_queue" where
  "process s =
     (if pt_processing s \<or> length (pt_queue s) = 0 \<or> pt_stopped s then s
      else continue_loop (s\<lparr>pt_processing := True\<rparr>))"

definition retry_delay :: "part_queue \<Rightarrow> nat \<Rightarrow> nat" where
  "retry_delay s retries = pt_retryDelay s * 2 ^ (retries - 1)"

text \<open>The branch of \<open>process\<close> for an operation that failed.\<close>

definition operation_failed :: "nat \<Rightarrow> part_queue \<Rightarrow> part_queue" where
  "operation_failed i s0 =
     (let s = set_item i (\<lambda>it. it\<lparr>qi_retries := Suc (qi_retries it)\<rparr>) s0;
          retries = (case pt_items s i of None \<Rightarrow> 0 | Some it \<Rightarrow> qi_retries it)
      in if retries < pt_maxRetries s
         then let s1 = set_item i (\<lambda>it. it\<lparr>qi_status := Retrying\<rparr>) s
           in continue_loop (s1\<lparr>pt_timers := pt_timers s1 @ [(i, retry_delay s1 retries)]\<rparr>)
         else let s1 = set_item i (\<lambda>it. it\<lparr>qi_status := Failed\<rparr>) s;
                  failures = pt_failures s1 @ [i];
                  s2 = s1\<lparr>pt_failures := drop (length failures - pt_maxFailureHistory s1) failures\<rparr>
           in if pt_persistent s2 then s2\<lparr>pt_loops := pt_loops s2 @ [Burying i]\<rparr> else continue_loop s2)"

text \<open>The await of loop \<open>k\<close> resolves, with \<open>ok\<close> when it does not throw.\<close>

definition resolve_await :: "nat \<Rightarrow> bool \<Rightarrow> part_queue \<Rightarrow> part_queue" where
  "resolve_await k ok s0 =
     (let s = s0\<lparr>pt_loops := take k (pt_loops s0) @ drop (Suc k) (pt_loops s0)\<rparr> in
      case pt_loops s0 ! k of
        Executing i \<Rightarrow>
          if ok \<and> map_option qi_type (pt_items s i) \<noteq> Some OpUnknown
          then let s1 = set_item i (\<lambda>it. it\<lparr>qi_status := Completed\<rparr>) s
            in if pt_persistent s1 then s1\<lparr>pt_loops := pt_loops s1 @ [Removing i]\<rparr> else continue_loop s1
          else operation_failed i s
      | Removing i \<Rightarrow>
          if ok then continue_loop (s\<lparr>pt_saved := map_delete i (pt_saved s)\<rparr>) else operation_failed i s
      | Burying i \<Rightarrow>
          if ok then continue_loop (s\<lparr>pt_saved := map_delete i (pt_saved s), pt_dlq := map_set i (pt_dlq s)\<rparr>)
          else s)"

text \<open>
  \<open>enqueue\<close> up to its await, and the part after it: a queue that is not processing schedules \<open>process\<close>.
\<close>

definition schedule_process :: "part_queue \<Rightarrow> part_queue" where
  "schedule_process s = (if \<not> pt_processing s then s\<lparr>pt_immediates := Suc (pt_immediates s)\<rparr> else s)"

definition part_enqueue :: "nat \<Rightarrow> operation_type \<Rightarrow> part_queue \<Rightarrow> part_queue option" where
  "part_enqueue i ty s0 =
     (if pt_stopped s0 then None
      else let s = s0\<lparr>pt_items := (pt_items s0)(i \<mapsto> \<lparr>qi_type = ty, qi_retries = 0, qi_status = Pending\<rparr>),
                 pt_queue := pt_queue s0 @ [i]\<rparr>
        in Some (if pt_persistent s then s\<lparr>pt_saving := pt_saving s @ [i]\<rparr> else schedule_process s))"

definition save_resolves :: "nat \<Rightarrow> bool \<Rightarrow> part_queue \<Rightarrow> part_queue" where
  "save_resolves i ok s0 =
     (let s = s0\<lparr>pt_saving := map_delete i (pt_saving s0)\<rparr>
      in if ok then schedule_process (s\<lparr>pt_saved := map_set i (pt_saved s)\<rparr>) else s)"

text \<open>The callback of a retry timer.\<close>

definition timer_fires :: "nat \<Rightarrow> part_queue \<Rightarrow> part_queue" where
  "timer_fires i s0 =
     (let s = s0\<lparr>pt_timers := filter (\<lambda>t. fst t \<noteq> i) (pt_timers s0)\<rparr> in
      if pt_stopped s then s
      else let s1 = s\<lparr>pt_queue := pt_queue s @ [i]\<rparr> in if \<not> pt_processing s1 then process s1 else s1)"

definition part_stop :: "part_queue \<Rightarrow> part_queue" where
  "part_stop s = s\<lparr>pt_stopped := True, pt_processing := False, pt_queue := [], pt_failures := [], pt_timers := []\<rparr>"

definition part_resume :: "part_queue \<Rightarrow> part_queue" where
  "part_resume s0 = (let s = s0\<lparr>pt_stopped := False\<rparr> in
     if \<not> pt_processing s \<and> length (pt_queue s) > 0 then s\<lparr>pt_immediates := Suc (pt_immediates s)\<rparr> else s)"

definition part_clear :: "part_queue \<Rightarrow> part_queue" where
  "part_clear s = s\<lparr>pt_queue := [], pt_failures := [], pt_timers := []\<rparr>"

definition part_recover :: "part_queue \<Rightarrow> part_queue" where
  "part_recover s =
     (if \<not> pt_persistent s \<or> pt_stopped s then s else s\<lparr>pt_recovering := Suc (pt_recovering s)\<rparr>)"

text \<open>\<open>getPending\<close> answers, or throws.\<close>

definition pending_resolves :: "bool \<Rightarrow> part_queue \<Rightarrow> part_queue" where
  "pending_resolves ok s0 =
     (let s = s0\<lparr>pt_recovering := pt_recovering s0 - 1\<rparr> in
      if \<not> ok then s
      else let s1 = s\<lparr>pt_queue := pt_queue s @ pt_saved s\<rparr>
        in if length (pt_queue s1) > 0 then s1\<lparr>pt_immediates := Suc (pt_immediates s1)\<rparr> else s1)"

datatype part_event =
    PEnqueue nat operation_type
  | PSaved nat bool
  | PImmediate
  | PResolve nat bool
  | PTimer nat
  | PStop
  | PResume
  | PClear
  | PRecover
  | PPending bool

definition part_event :: "part_event \<Rightarrow> part_queue \<Rightarrow> part_queue option" where
  "part_event ev s = (case ev of
     PEnqueue i ty \<Rightarrow> if pt_items s i \<noteq> None then None else part_enqueue i ty s
   | PSaved i ok \<Rightarrow> if i \<in> set (pt_saving s) then Some (save_resolves i ok s) else None
   | PImmediate \<Rightarrow>
       if pt_immediates s = 0 then None else Some (process (s\<lparr>pt_immediates := pt_immediates s - 1\<rparr>))
   | PResolve k ok \<Rightarrow> if k < length (pt_loops s) then Some (resolve_await k ok s) else None
   | PTimer i \<Rightarrow> if i \<in> fst ` set (pt_timers s) then Some (timer_fires i s) else None
   | PStop \<Rightarrow> Some (part_stop s)
   | PResume \<Rightarrow> Some (part_resume s)
   | PClear \<Rightarrow> Some (part_clear s)
   | PRecover \<Rightarrow> Some (part_recover s)
   | PPending ok \<Rightarrow> if pt_recovering s = 0 then None else Some (pending_resolves ok s))"

fun part_run :: "part_event list \<Rightarrow> part_queue \<Rightarrow> part_queue option" where
  "part_run [] s = Some s"
| "part_run (ev # evs) s = (case part_event ev s of None \<Rightarrow> None | Some s' \<Rightarrow> part_run evs s')"

section \<open>Operations are not lost and not repeated without end\<close>

fun own_event :: "part_event \<Rightarrow> bool" where
  "own_event (PEnqueue i ty) = True"
| "own_event (PSaved i ok) = True"
| "own_event PImmediate = True"
| "own_event (PResolve k ok) = True"
| "own_event (PTimer i) = True"
| "own_event ev = False"

text \<open>The places where an item that is not finished can be.\<close>

definition active :: "part_queue \<Rightarrow> nat list" where
  "active s = pt_queue s @ map fst (pt_timers s) @ map await_id (pt_loops s)"

definition finished :: "part_queue \<Rightarrow> nat \<Rightarrow> bool" where
  "finished s i \<longleftrightarrow> (case pt_items s i of None \<Rightarrow> False | Some it \<Rightarrow> qi_status it \<in> {Completed, Failed})"

text \<open>An item waits (in the queue or for its timer), is executed or removed, or is at rest.\<close>

datatype place = WaitingPlace | ExecutingPlace | RemovingPlace | Rest

definition place :: "part_queue \<Rightarrow> nat \<Rightarrow> place" where
  "place s i =
     (if i \<in> set (pt_queue s) \<or> i \<in> fst ` set (pt_timers s) then WaitingPlace
      else if Executing i \<in> set (pt_loops s) then ExecutingPlace
      else if Removing i \<in> set (pt_loops s) then RemovingPlace else Rest)"

definition item_ok :: "nat \<Rightarrow> nat \<Rightarrow> queue_item \<Rightarrow> place \<Rightarrow> bool" where
  "item_ok mx ex it p \<longleftrightarrow> (case p of
     WaitingPlace \<Rightarrow> ex = qi_retries it \<and> qi_retries it < mx \<and> qi_status it \<in> {Pending, Retrying}
   | ExecutingPlace \<Rightarrow> ex = Suc (qi_retries it) \<and> qi_retries it < mx \<and> qi_status it \<in> {Pending, Retrying}
   | RemovingPlace \<Rightarrow> ex = Suc (qi_retries it) \<and> qi_retries it < mx \<and> qi_status it = Completed
   | Rest \<Rightarrow> ex \<le> mx \<and> qi_status it \<in> {Completed, Failed})"

definition item_inv :: "part_queue \<Rightarrow> nat \<Rightarrow> bool" where
  "item_inv s i \<longleftrightarrow> (case pt_items s i of
     None \<Rightarrow> i \<notin> set (active s) \<and> pt_executions s i = 0
   | Some it \<Rightarrow> item_ok (pt_maxRetries s) (pt_executions s i) it (place s i))"

definition part_inv :: "part_queue \<Rightarrow> bool" where
  "part_inv s \<longleftrightarrow> 0 < pt_maxRetries s \<and> distinct (active s) \<and> (\<forall>i. item_inv s i)"

definition inv_except :: "nat \<Rightarrow> part_queue \<Rightarrow> bool" where
  "inv_except i s \<longleftrightarrow> 0 < pt_maxRetries s \<and> distinct (active s) \<and> i \<notin> set (active s) \<and>
     (\<forall>j. j \<noteq> i \<longrightarrow> item_inv s j)"

lemma await_id_eq: "await_id a = i \<longleftrightarrow> a = Executing i \<or> a = Removing i \<or> a = Burying i"
  by (cases a) auto

lemma in_active: "i \<in> set (active s) \<longleftrightarrow> i \<in> set (pt_queue s) \<or> i \<in> fst ` set (pt_timers s) \<or>
    Executing i \<in> set (pt_loops s) \<or> Removing i \<in> set (pt_loops s) \<or> Burying i \<in> set (pt_loops s)"
proof -
  have "i \<in> await_id ` set (pt_loops s) \<longleftrightarrow>
      Executing i \<in> set (pt_loops s) \<or> Removing i \<in> set (pt_loops s) \<or> Burying i \<in> set (pt_loops s)"
    by (metis await_id_eq imageE image_eqI)
  then show ?thesis
    by (auto simp: active_def)
qed

text \<open>An invariant is about the places, the items and the counts only.\<close>

lemma item_inv_cong:
  assumes "pt_items s i = pt_items s' i" and "pt_executions s i = pt_executions s' i"
    and "pt_maxRetries s = pt_maxRetries s'" and "place s i = place s' i"
    and "i \<in> set (active s) \<longleftrightarrow> i \<in> set (active s')"
  shows "item_inv s i = item_inv s' i"
  using assms by (simp add: item_inv_def split: option.split)

lemma place_inactive: "i \<notin> set (active s) \<Longrightarrow> place s i = Rest"
  by (simp add: in_active place_def)

lemma part_inv_done:
  assumes "inv_except i s" and "pt_items s i = Some it" and "pt_executions s i \<le> pt_maxRetries s"
    and "qi_status it \<in> {Completed, Failed}"
  shows "part_inv s"
  unfolding part_inv_def
proof (intro conjI allI)
  have "item_inv s i"
    using assms place_inactive [of i s] by (simp add: item_inv_def item_ok_def inv_except_def)
  then show "item_inv s j" for j
    using assms(1) by (cases "j = i") (simp_all add: inv_except_def)
qed (use assms(1) in \<open>simp_all add: inv_except_def\<close>)

lemma inv_except_set_item: "inv_except i (set_item i f s) = inv_except i s"
proof -
  have "item_inv (set_item i f s) j = item_inv s j" if "j \<noteq> i" for j
    using that by (intro item_inv_cong) (simp_all add: set_item_def place_def active_def)
  then show ?thesis
    by (simp add: inv_except_def active_def set_item_def)
qed

lemma part_inv_cong:
  assumes "pt_items s = pt_items s'" "pt_executions s = pt_executions s'" "pt_maxRetries s = pt_maxRetries s'"
    "pt_queue s = pt_queue s'" "pt_timers s = pt_timers s'" "pt_loops s = pt_loops s'"
  shows "part_inv s = part_inv s'" and "inv_except i s = inv_except i s'"
proof -
  have "item_inv s j = item_inv s' j" for j
    using assms by (intro item_inv_cong) (simp_all add: place_def active_def)
  then show "part_inv s = part_inv s'" and "inv_except i s = inv_except i s'"
    using assms by (simp_all add: part_inv_def inv_except_def active_def)
qed

lemma part_inv_simps [simp]:
  "part_inv (s\<lparr>pt_processing := b\<rparr>) = part_inv s" "part_inv (s\<lparr>pt_immediates := n\<rparr>) = part_inv s"
  "part_inv (s\<lparr>pt_saved := xs\<rparr>) = part_inv s" "part_inv (s\<lparr>pt_saved := xs, pt_dlq := ys\<rparr>) = part_inv s"
  "part_inv (s\<lparr>pt_saving := xs\<rparr>) = part_inv s" "inv_except i (s\<lparr>pt_failures := zs\<rparr>) = inv_except i s"
  by (rule part_inv_cong; simp)+

text \<open>Putting an item that is nowhere into one of the places.\<close>

lemma part_inv_place:
  assumes ex: "inv_except i s" and places: "mset (active s') = add_mset i (mset (active s))"
    and same: "\<And>j. j \<noteq> i \<Longrightarrow> item_inv s' j = item_inv s j" and mine: "item_inv s' i"
    and "pt_maxRetries s' = pt_maxRetries s"
  shows "part_inv s'"
proof -
  have "distinct (active s')"
    using ex places by (metis distinct.simps(2) inv_except_def mset.simps(2) mset_eq_imp_distinct_iff)
  moreover have "item_inv s' j" for j
    using ex same mine by (cases "j = i") (simp_all add: inv_except_def)
  ultimately show ?thesis
    using ex assms(5) by (simp add: part_inv_def inv_except_def)
qed

lemma part_inv_queue:
  assumes ex: "inv_except i s" and it: "pt_items s i = Some it" "pt_executions s i = qi_retries it"
    "qi_retries it < pt_maxRetries s" "qi_status it \<in> {Pending, Retrying}"
  shows "part_inv (s\<lparr>pt_queue := pt_queue s @ [i]\<rparr>)" and "part_inv (s\<lparr>pt_timers := pt_timers s @ [(i, d)]\<rparr>)"
proof -
  show "part_inv (s\<lparr>pt_queue := pt_queue s @ [i]\<rparr>)"
  proof (rule part_inv_place [OF ex])
    show "item_inv (s\<lparr>pt_queue := pt_queue s @ [i]\<rparr>) j = item_inv s j" if "j \<noteq> i" for j
      using that by (intro item_inv_cong) (simp_all add: place_def active_def)
    show "item_inv (s\<lparr>pt_queue := pt_queue s @ [i]\<rparr>) i"
      using it by (simp add: item_inv_def place_def item_ok_def)
  qed (simp_all add: active_def)
  show "part_inv (s\<lparr>pt_timers := pt_timers s @ [(i, d)]\<rparr>)"
  proof (rule part_inv_place [OF ex])
    show "item_inv (s\<lparr>pt_timers := pt_timers s @ [(i, d)]\<rparr>) j = item_inv s j" if "j \<noteq> i" for j
      using that by (intro item_inv_cong) (simp_all add: place_def active_def)
    show "item_inv (s\<lparr>pt_timers := pt_timers s @ [(i, d)]\<rparr>) i"
      using it by (simp add: item_inv_def place_def item_ok_def)
  qed (simp_all add: active_def)
qed

lemma part_inv_await:
  assumes ex: "inv_except i s" and a: "await_id a = i"
    and mine: "item_inv (s\<lparr>pt_loops := pt_loops s @ [a]\<rparr>) i"
  shows "part_inv (s\<lparr>pt_loops := pt_loops s @ [a]\<rparr>)"
proof (rule part_inv_place [OF ex _ _ mine])
  show "item_inv (s\<lparr>pt_loops := pt_loops s @ [a]\<rparr>) j = item_inv s j" if "j \<noteq> i" for j
    using that a by (intro item_inv_cong) (auto simp: place_def active_def)
qed (use a in \<open>simp_all add: active_def\<close>)

lemma inactive_places:
  assumes "inv_except i s"
  shows "i \<notin> set (pt_queue s)" and "i \<notin> fst ` set (pt_timers s)" and "Executing i \<notin> set (pt_loops s)"
    and "Removing i \<notin> set (pt_loops s)"
  using assms by (simp_all add: inv_except_def in_active)

lemma part_inv_continue:
  assumes inv: "part_inv s"
  shows "part_inv (continue_loop s)"
proof (cases "\<not> pt_stopped s \<and> pt_queue s \<noteq> []")
  case True
  obtain i q where q: "pt_queue s = i # q"
    using True by (cases "pt_queue s") auto
  have "place s i = WaitingPlace" and "i \<in> set (active s)" and mine: "item_inv s i"
    using inv by (simp_all add: place_def q active_def part_inv_def)
  then obtain it where it: "pt_items s i = Some it" "pt_executions s i = qi_retries it" "qi_retries it < pt_maxRetries s"
      "qi_status it \<in> {Pending, Retrying}"
    by (auto simp: item_inv_def item_ok_def split: option.splits)
  let ?s = "s\<lparr>pt_queue := q, pt_executions := (pt_executions s)(i := Suc (pt_executions s i))\<rparr>"
  have same: "item_inv ?s j = item_inv s j" if "j \<noteq> i" for j
    using that by (intro item_inv_cong) (simp_all add: q place_def active_def)
  have ex: "inv_except i ?s"
    using inv same by (auto simp: inv_except_def part_inv_def active_def q)
  have "part_inv (?s\<lparr>pt_loops := pt_loops ?s @ [Executing i]\<rparr>)"
    using it inactive_places [OF ex] by (intro part_inv_await [OF ex]) (simp_all add: item_inv_def place_def item_ok_def)
  moreover have "part_inv (?s\<lparr>pt_loops := pt_loops ?s @ [Executing i]\<rparr>) = part_inv (continue_loop s)"
    using True by (intro part_inv_cong) (simp_all add: continue_loop_def q)
  ultimately show ?thesis
    by simp
next
  case False
  with inv show ?thesis
    by (auto simp: continue_loop_def)
qed

lemma part_inv_process: "part_inv s \<Longrightarrow> part_inv (process s)"
  by (simp add: process_def part_inv_continue)

lemma part_inv_failed:
  assumes ex: "inv_except i s0" and it: "pt_items s0 i = Some it" "pt_executions s0 i = Suc (qi_retries it)"
    "qi_retries it < pt_maxRetries s0"
  shows "part_inv (operation_failed i s0)"
proof -
  define s where "s = set_item i (\<lambda>it. it\<lparr>qi_retries := Suc (qi_retries it)\<rparr>) s0"
  have s: "pt_items s i = Some (it\<lparr>qi_retries := Suc (qi_retries it)\<rparr>)" "pt_executions s i = Suc (qi_retries it)"
    "pt_maxRetries s = pt_maxRetries s0" "inv_except i s"
    using it ex by (simp_all add: s_def inv_except_set_item) (simp_all add: set_item_def)
  show ?thesis
  proof (cases "Suc (qi_retries it) < pt_maxRetries s")
    case True
    let ?s = "set_item i (\<lambda>it. it\<lparr>qi_status := Retrying\<rparr>) s"
    have "part_inv (?s\<lparr>pt_timers := pt_timers ?s @ [(i, d)]\<rparr>)" for d
      using s True by (intro part_inv_queue [where it = "it\<lparr>qi_retries := Suc (qi_retries it), qi_status := Retrying\<rparr>"])
        (simp_all add: inv_except_set_item, simp_all add: set_item_def)
    then show ?thesis
      using True s by (simp add: operation_failed_def Let_def s_def [symmetric] part_inv_continue)
  next
    case False
    let ?s = "set_item i (\<lambda>it. it\<lparr>qi_status := Failed\<rparr>) s"
    let ?it = "it\<lparr>qi_retries := Suc (qi_retries it), qi_status := Failed\<rparr>"
    let ?r = "?s\<lparr>pt_failures := drop (length (pt_failures ?s @ [i]) - pt_maxFailureHistory ?s) (pt_failures ?s @ [i])\<rparr>"
    have fin: "pt_items ?r i = Some ?it" "pt_executions ?r i \<le> pt_maxRetries ?r" and r: "inv_except i ?r"
      using s it(3) False by (simp_all add: inv_except_set_item) (simp_all add: set_item_def)
    have "part_inv ?r"
      by (rule part_inv_done [OF r fin]) simp
    moreover have "part_inv (?r\<lparr>pt_loops := pt_loops ?r @ [Burying i]\<rparr>)"
      using fin inactive_places [OF r] by (intro part_inv_await [OF r]) (simp_all add: item_inv_def place_def item_ok_def)
    ultimately show ?thesis
      using False s by (simp add: operation_failed_def Let_def s_def [symmetric] part_inv_continue)
  qed
qed

lemma part_inv_resolve:
  assumes inv: "part_inv s0" and k: "k < length (pt_loops s0)"
  shows "part_inv (resolve_await k ok s0)"
proof -
  define a where "a = pt_loops s0 ! k"
  define s where "s = s0\<lparr>pt_loops := take k (pt_loops s0) @ drop (Suc k) (pt_loops s0)\<rparr>"
  have loops: "pt_loops s0 = take k (pt_loops s0) @ a # drop (Suc k) (pt_loops s0)"
    using k by (simp add: a_def id_take_nth_drop)
  have set: "set (pt_loops s0) = insert a (set (pt_loops s))"
    by (subst loops) (simp add: s_def)
  have "mset (active s0) = add_mset (await_id a) (mset (active s))"
    unfolding active_def by (subst loops) (simp add: s_def)
  moreover have "distinct (active s0)"
    using inv by (simp add: part_inv_def)
  ultimately have distinct: "distinct (await_id a # active s)"
    by (metis mset.simps(2) mset_eq_imp_distinct_iff)
  have fields: "pt_items s = pt_items s0" "pt_executions s = pt_executions s0" "pt_maxRetries s = pt_maxRetries s0"
    "pt_queue s = pt_queue s0" "pt_timers s = pt_timers s0"
    by (simp_all add: s_def)
  have "item_inv s j = item_inv s0 j" if "j \<noteq> await_id a" for j
    using that by (intro item_inv_cong) (auto simp: place_def in_active set fields)
  then have ex: "inv_except (await_id a) s"
    using inv distinct by (simp add: inv_except_def part_inv_def fields)
  have mine: "item_inv s0 (await_id a)"
    using inv by (simp add: part_inv_def)
  have "await_id a \<in> set (active s0)"
    using k by (auto simp: active_def a_def)
  then obtain it where it: "pt_items s0 (await_id a) = Some it"
    using mine by (auto simp: item_inv_def split: option.splits)
  have s_it: "pt_items s (await_id a) = Some it" "pt_executions s = pt_executions s0" "pt_maxRetries s = pt_maxRetries s0"
    using it by (simp_all add: s_def)
  have out: "await_id a \<notin> set (pt_queue s0)" "await_id a \<notin> fst ` set (pt_timers s0)"
    using inactive_places [OF ex] by (simp_all add: s_def)
  show ?thesis
  proof (cases a)
    case (Executing i)
    then have "place s0 i = ExecutingPlace"
      using out set by (simp add: place_def)
    then have facts: "pt_executions s i = Suc (qi_retries it)" "qi_retries it < pt_maxRetries s"
      using mine it Executing s_it by (simp_all add: item_inv_def item_ok_def)
    let ?s = "set_item i (\<lambda>it. it\<lparr>qi_status := Completed\<rparr>) s"
    have c: "inv_except i ?s" "pt_items ?s i = Some (it\<lparr>qi_status := Completed\<rparr>)" "pt_executions ?s i = Suc (qi_retries it)"
      "qi_retries it < pt_maxRetries ?s"
      using ex s_it facts Executing by (simp_all add: inv_except_set_item) (simp_all add: set_item_def)
    have "part_inv ?s"
      using c by (intro part_inv_done [OF c(1,2)]) simp_all
    moreover have "part_inv (?s\<lparr>pt_loops := pt_loops ?s @ [Removing i]\<rparr>)"
      using c inactive_places [OF c(1)] by (intro part_inv_await [OF c(1)]) (simp_all add: item_inv_def place_def item_ok_def)
    moreover have "part_inv (operation_failed i s)"
      using ex s_it(1) facts Executing by (intro part_inv_failed) simp_all
    ultimately show ?thesis
      using Executing by (simp add: resolve_await_def a_def [symmetric] s_def [symmetric] Let_def part_inv_continue)
  next
    case (Removing i)
    then have "Executing i \<notin> set (pt_loops s0)"
      using inactive_places(3) [OF ex] set by simp
    then have "place s0 i = RemovingPlace"
      using out set Removing by (simp add: place_def)
    then have facts: "pt_executions s i = Suc (qi_retries it)" "qi_retries it < pt_maxRetries s" "qi_status it = Completed"
      using mine it Removing s_it by (simp_all add: item_inv_def item_ok_def)
    have "part_inv s"
      using ex s_it(1) facts Removing by (intro part_inv_done [of i s it]) simp_all
    moreover have "part_inv (operation_failed i s)"
      using ex s_it(1) facts Removing by (intro part_inv_failed) simp_all
    ultimately show ?thesis
      using Removing by (simp add: resolve_await_def a_def [symmetric] s_def [symmetric] Let_def part_inv_continue)
  next
    case (Burying i)
    then have "Executing i \<notin> set (pt_loops s0)" "Removing i \<notin> set (pt_loops s0)"
      using inactive_places(3,4) [OF ex] set by simp_all
    then have "place s0 i = Rest"
      using out Burying by (simp add: place_def)
    then have facts: "pt_executions s i \<le> pt_maxRetries s" "qi_status it \<in> {Completed, Failed}"
      using mine it Burying s_it by (simp_all add: item_inv_def item_ok_def)
    have "part_inv s"
      using ex s_it(1) facts Burying by (intro part_inv_done [of i s it]) simp_all
    then show ?thesis
      using Burying by (simp add: resolve_await_def a_def [symmetric] s_def [symmetric] Let_def part_inv_continue)
  qed
qed

lemma part_inv_schedule: "part_inv (schedule_process s) = part_inv s"
  by (simp add: schedule_process_def)

lemma part_inv_enqueue:
  assumes inv: "part_inv s0" and fresh: "pt_items s0 i = None" and enq: "part_enqueue i ty s0 = Some s'"
  shows "part_inv s'"
proof -
  let ?it = "\<lparr>qi_type = ty, qi_retries = 0, qi_status = Pending\<rparr>"
  let ?s = "s0\<lparr>pt_items := (pt_items s0)(i \<mapsto> ?it)\<rparr>"
  have i: "i \<notin> set (active s0)" "pt_executions s0 i = 0"
    using inv fresh by (auto simp: part_inv_def item_inv_def dest!: spec [of _ i])
  have "item_inv ?s j = item_inv s0 j" if "j \<noteq> i" for j
    using that by (intro item_inv_cong) (simp_all add: place_def active_def)
  then have "inv_except i ?s"
    using inv i by (simp add: inv_except_def part_inv_def active_def)
  then have queued: "part_inv (?s\<lparr>pt_queue := pt_queue ?s @ [i]\<rparr>)" (is "part_inv ?q")
    using i inv by (intro part_inv_queue [where it = ?it]) (simp_all add: part_inv_def)
  have "s' = (if pt_persistent ?q then ?q\<lparr>pt_saving := pt_saving ?q @ [i]\<rparr> else schedule_process ?q)"
    using enq by (simp add: part_enqueue_def Let_def split: if_splits)
  with queued show ?thesis
    using part_inv_simps by (metis part_inv_schedule)
qed

lemma part_inv_save: "part_inv s \<Longrightarrow> part_inv (save_resolves i ok s)"
proof -
  assume "part_inv s"
  then have "part_inv (s\<lparr>pt_saving := map_delete i (pt_saving s)\<rparr>)" (is "part_inv ?s")
    by simp
  then show ?thesis
    unfolding save_resolves_def Let_def by (metis part_inv_schedule part_inv_simps(3))
qed

lemma part_inv_timer:
  assumes inv: "part_inv s0" and "\<not> pt_stopped s0" and i: "i \<in> fst ` set (pt_timers s0)"
  shows "part_inv (timer_fires i s0)"
proof -
  let ?s = "s0\<lparr>pt_timers := filter (\<lambda>t. fst t \<noteq> i) (pt_timers s0)\<rparr>"
  have "place s0 i = WaitingPlace" and "i \<in> set (active s0)" and mine: "item_inv s0 i"
    using inv i by (simp_all add: place_def active_def part_inv_def)
  then obtain it where it: "pt_items s0 i = Some it" "pt_executions s0 i = qi_retries it"
      "qi_retries it < pt_maxRetries s0" "qi_status it \<in> {Pending, Retrying}"
    by (auto simp: item_inv_def item_ok_def split: option.splits)
  have same: "item_inv ?s j = item_inv s0 j" if "j \<noteq> i" for j
    using that by (intro item_inv_cong) (force simp: place_def active_def)+
  have "distinct (map fst (filter (\<lambda>t. fst t \<noteq> i) ts))" if "distinct (map fst ts)" for ts :: "(nat \<times> nat) list"
    using that by (rule distinct_map_filter)
  then have "inv_except i ?s"
    using inv i same by (auto simp: inv_except_def part_inv_def active_def)
  then have "part_inv (?s\<lparr>pt_queue := pt_queue ?s @ [i]\<rparr>)"
    using it by (intro part_inv_queue [where it = it]) simp_all
  with assms(2) show ?thesis
    by (simp add: timer_fires_def Let_def part_inv_process)
qed

lemma process_stopped [simp]: "pt_stopped (process s) = pt_stopped s" "pt_stopped (continue_loop s) = pt_stopped s"
  by (simp_all add: process_def continue_loop_def)

lemma failed_stopped [simp]: "pt_stopped (operation_failed i s) = pt_stopped s"
  by (simp add: operation_failed_def Let_def set_item_def)

lemma own_event_stopped: "own_event ev \<Longrightarrow> part_event ev s = Some s' \<Longrightarrow> \<not> pt_stopped s \<Longrightarrow> \<not> pt_stopped s'"
  by (cases ev) (auto simp: part_event_def part_enqueue_def save_resolves_def schedule_process_def timer_fires_def
      resolve_await_def set_item_def Let_def split: if_splits loop_await.splits)

lemma part_inv_event:
  assumes "part_inv s" and "\<not> pt_stopped s" and "own_event ev" and "part_event ev s = Some s'"
  shows "part_inv s'"
proof (cases ev)
  case (PEnqueue i ty)
  with assms show ?thesis
    by (auto simp: part_event_def split: if_splits intro: part_inv_enqueue)
next
  case (PSaved i ok)
  with assms show ?thesis
    by (auto simp: part_event_def part_inv_save split: if_splits)
next
  case PImmediate
  with assms show ?thesis
    by (auto simp: part_event_def part_inv_process split: if_splits)
next
  case (PResolve k ok)
  with assms show ?thesis
    by (auto simp: part_event_def part_inv_resolve split: if_splits)
next
  case (PTimer i)
  with assms show ?thesis
    using part_inv_timer [of s i] by (auto simp: part_event_def split: if_splits)
qed (use assms(3) in simp_all)

lemma part_inv_run:
  "part_inv s \<Longrightarrow> \<not> pt_stopped s \<Longrightarrow> list_all own_event evs \<Longrightarrow> part_run evs s = Some s' \<Longrightarrow> part_inv s'"
proof (induction evs arbitrary: s)
  case (Cons ev evs)
  then show ?case
    using part_inv_event own_event_stopped by (fastforce split: option.splits)
qed simp

lemma part_inv_new: "part_inv (part_new mr rd p mf)"
  by (auto simp: part_inv_def part_new_def active_def item_inv_def split: option.split)

text \<open>
  C17 (partition queue). In every run from a new queue that holds only calls of \<open>enqueue\<close>, the awaits
  and scheduled calls of \<open>process\<close>, the saves and the retry timers (no \<open>stop\<close>, \<open>resume\<close>, \<open>clear\<close> or
  \<open>recover\<close>), however these steps interleave and whichever of the awaited calls throw: an operation
  that was enqueued waits, is under way, or is completed or failed; it is at most once under way;
  and it is executed at most \<open>maxRetries\<close> times.
\<close>

theorem partition_operations_kept:
  assumes "part_run evs (part_new mr rd p mf) = Some s" and "list_all own_event evs"
  shows "distinct (active s) \<and> (\<forall>i. pt_executions s i \<le> pt_maxRetries s \<and>
     (pt_items s i = None \<or> i \<in> set (active s) \<or> finished s i))"
proof -
  have inv: "part_inv s"
    using part_inv_run [OF part_inv_new _ assms(2,1)] by (simp add: part_new_def)
  have "pt_executions s i \<le> pt_maxRetries s \<and> (pt_items s i = None \<or> i \<in> set (active s) \<or> finished s i)" for i
  proof (cases "pt_items s i")
    case (Some it)
    then have "item_ok (pt_maxRetries s) (pt_executions s i) it (place s i)"
      using inv by (auto simp: part_inv_def item_inv_def dest!: spec [of _ i])
    with Some show ?thesis
      using place_inactive [of i s] by (cases "place s i") (auto simp: item_ok_def finished_def)
  qed (use inv in \<open>auto simp: part_inv_def item_inv_def dest!: spec [of _ i]\<close>)
  with inv show ?thesis
    by (simp add: part_inv_def)
qed

definition failing_run :: "part_event list" where
  "failing_run = [PEnqueue 1 OpCreate, PEnqueue 2 OpUnknown, PSaved 1 True, PImmediate, PResolve 0 True, PSaved 2 False,
     PResolve 0 True, PResolve 0 True, PTimer 2, PResolve 0 True]"

lemmas part_defs = part_event_def part_enqueue_def save_resolves_def schedule_process_def process_def continue_loop_def
  resolve_await_def operation_failed_def
  timer_fires_def set_item_def map_set_def map_delete_def retry_delay_def part_new_def Let_def

theorem partition_operations_kept_witness:
  "\<exists>s. part_run failing_run (part_new (Some 2) None True None) = Some s \<and> pt_executions s 2 = 2 \<and>
     distinct (active s) \<and> (\<forall>i. pt_executions s i \<le> pt_maxRetries s \<and>
     (pt_items s i = None \<or> i \<in> set (active s) \<or> finished s i))"
proof -
  have "\<exists>s. part_run failing_run (part_new (Some 2) None True None) = Some s \<and> pt_executions s 2 = 2"
    by (simp add: failing_run_def part_defs)
  then obtain s where s: "part_run failing_run (part_new (Some 2) None True None) = Some s" "pt_executions s 2 = 2"
    by blast
  moreover have "list_all own_event failing_run"
    by (simp add: failing_run_def)
  ultimately show ?thesis
    using partition_operations_kept by blast
qed

text \<open>A queue whose flag is set while no loop runs: only \<open>stop\<close> gets it out of this state.\<close>

definition blocked :: "(nat \<Rightarrow> nat) \<Rightarrow> part_queue \<Rightarrow> bool" where
  "blocked ex s \<longleftrightarrow> pt_loops s = [] \<and> pt_processing s \<and> pt_executions s = ex"

lemma blocked_event:
  assumes "blocked ex s" and "ev \<noteq> PStop" and "part_event ev s = Some s'"
  shows "blocked ex s'"
  using assms by (cases ev) (auto simp: blocked_def part_event_def part_enqueue_def save_resolves_def
      schedule_process_def pending_resolves_def timer_fires_def process_def part_resume_def part_clear_def
      part_recover_def Let_def split: if_splits)

lemma blocked_run: "blocked ex s \<Longrightarrow> PStop \<notin> set evs \<Longrightarrow> part_run evs s = Some s' \<Longrightarrow> blocked ex s'"
proof (induction evs arbitrary: s)
  case (Cons ev evs)
  then obtain u where u: "part_event ev s = Some u" "part_run evs u = Some s'"
    by (auto split: option.splits)
  have "blocked ex u"
    using Cons.prems(1,2) by (intro blocked_event [OF _ _ u(1)]) auto
  with Cons.IH Cons.prems(2) u(2) show ?case
    by simp
qed simp

text \<open>
  C31 (partition queue). The write to the dead-letter queue is awaited outside of any handler. When
  it throws in the only loop of a processing queue, \<open>process\<close> ends with \<open>processing\<close> still set; and
  whatever happens afterwards except a call of \<open>stop\<close> (operations are enqueued, timers fire, \<open>resume\<close>,
  \<open>clear\<close> and \<open>recover\<close> are called), the flag stays set, no loop runs and no operation is executed.
\<close>

theorem failed_burial_blocks_queue:
  assumes "pt_loops s = [Burying i]" and "pt_processing s" and "part_event (PResolve 0 False) s = Some s'"
    and "PStop \<notin> set evs" and "part_run evs s' = Some t"
  shows "pt_processing t \<and> pt_loops t = [] \<and> pt_executions t = pt_executions s"
proof -
  have "blocked (pt_executions s) s'"
    using assms(1-3) by (auto simp: blocked_def part_event_def resolve_await_def)
  with assms(4,5) show ?thesis
    using blocked_run [of "pt_executions s" s' evs t] by (simp add: blocked_def)
qed

definition bury_run :: "part_event list" where
  "bury_run = [PEnqueue 1 OpCreate, PSaved 1 True, PImmediate, PResolve 0 False]"

definition after_burial :: "part_event list" where
  "after_burial = [PEnqueue 2 OpCreate, PSaved 2 True, PResume, PRecover, PPending True, PImmediate]"

theorem failed_burial_blocks_queue_witness:
  "\<exists>s s' t. part_run bury_run (part_new (Some 1) None True None) = Some s \<and> part_event (PResolve 0 False) s = Some s' \<and>
     part_run after_burial s' = Some t \<and> pt_queue t \<noteq> [] \<and>
     pt_processing t \<and> pt_loops t = [] \<and> pt_executions t = pt_executions s"
proof -
  have "\<exists>s. part_run bury_run (part_new (Some 1) None True None) = Some s \<and> pt_loops s = [Burying 1] \<and> pt_processing s \<and>
      (\<exists>s'. part_event (PResolve 0 False) s = Some s' \<and> (\<exists>t. part_run after_burial s' = Some t \<and> pt_queue t \<noteq> []))"
    by (simp add: bury_run_def after_burial_def part_defs part_resume_def part_recover_def pending_resolves_def)
  moreover have "PStop \<notin> set after_burial"
    by (simp add: after_burial_def)
  ultimately show ?thesis
    using failed_burial_blocks_queue by metis
qed

end
