(* ===== verification/StateMachines.thy ===== *)
theory StateMachines
  imports JsJson
begin

text \<open>
  \<open>src/plugins/api/concerns/state-machine.ts\<close>: the status of notifications and delivery attempts. A
  machine is a table of transitions; a \<open>from\<close> that is a single string is the list of that string.
  The request that \<open>transition\<close> sends to the resource (\<open>patch\<close> or \<open>insert\<close>) is the model's result,
  and the time stamp an argument.

  Shown: as long as no metadata carries a status, the stored status only ever takes the edges of the
  machine's table, stays one of its states and is final in a terminal state; an attempt is over after
  two transitions; metadata with a status overwrites the one that was validated.
\<close>

record transition_def =
  td_from :: "ustring list"
  td_to :: ustring

record state_machine =
  sm_states :: "ustring jsobj"
  sm_transitions :: "transition_def jsobj"

datatype transition_error = UnknownTransition | WrongState

definition canTransition :: "state_machine \<Rightarrow> ustring \<Rightarrow> ustring \<Rightarrow> transition_error + ustring" where
  "canTransition m currentState name = (case js_lookup (sm_transitions m) name of
     Missing \<Rightarrow> Inl UnknownTransition
   | ProtoFunction f n \<Rightarrow> Inl WrongState
   | ProtoObject \<Rightarrow> Inl WrongState
   | Own t \<Rightarrow> if currentState \<notin> set (td_from t) then Inl WrongState else Inr (td_to t))"

text \<open>\<open>{ status, ...metadata, lastTransitionAt, lastTransition }\<close>\<close>

definition transition_update ::
  "state_machine \<Rightarrow> ustring \<Rightarrow> ustring \<Rightarrow> jsvalue jsobj \<Rightarrow> ustring \<Rightarrow> transition_error + jsvalue jsobj" where
  "transition_update m status name metadata now = (case canTransition m status name of
     Inl e \<Rightarrow> Inl e
   | Inr newState \<Rightarrow> Inr
       (AList.update (ju ''lastTransition'') (VStr name)
         (AList.update (ju ''lastTransitionAt'') (VStr now)
           (obj_spread [(ju ''status'', VStr newState)] metadata))))"

text \<open>An attempt is inserted anew: the record, the status, the metadata and the stamps.\<close>

definition attempt_record ::
  "state_machine \<Rightarrow> jsvalue jsobj \<Rightarrow> ustring \<Rightarrow> ustring \<Rightarrow> jsvalue jsobj \<Rightarrow> ustring \<Rightarrow> transition_error + jsvalue jsobj" where
  "attempt_record m rcd status name metadata now = (case canTransition m status name of
     Inl e \<Rightarrow> Inl e
   | Inr newState \<Rightarrow> Inr
       (AList.update (ju ''lastTransition'') (VStr name)
         (AList.update (ju ''lastTransitionAt'') (VStr now)
           (obj_spread (AList.update (ju ''status'') (VStr newState) rcd) metadata))))"

definition getValidTransitions :: "state_machine \<Rightarrow> ustring \<Rightarrow> ustring list" where
  "getValidTransitions m currentState =
     map fst (filter (\<lambda>p. currentState \<in> set (td_from (snd p))) (obj_entries (sm_transitions m)))"

definition isTerminalState :: "state_machine \<Rightarrow> ustring \<Rightarrow> bool" where
  "isTerminalState m s \<longleftrightarrow> length (getValidTransitions m s) = 0"

definition edge :: "string \<Rightarrow> string \<Rightarrow> string \<Rightarrow> ustring \<times> transition_def" where
  "edge name from to = (ju name, \<lparr>td_from = [ju from], td_to = ju to\<rparr>)"

definition NotificationStateMachine :: state_machine where
  "NotificationStateMachine = \<lparr>
     sm_states = [(ju ''PENDING'', ju ''pending''), (ju ''PROCESSING'', ju ''processing''),
       (ju ''COMPLETED'', ju ''completed''), (ju ''FAILED'', ju ''failed'')],
     sm_transitions = [edge ''START_PROCESSING'' ''pending'' ''processing'',
       edge ''COMPLETE'' ''processing'' ''completed'', edge ''FAIL'' ''processing'' ''failed'',
       edge ''RETRY'' ''processing'' ''pending'']\<rparr>"

definition AttemptStateMachine :: state_machine where
  "AttemptStateMachine = \<lparr>
     sm_states = [(ju ''QUEUED'', ju ''queued''), (ju ''RUNNING'', ju ''running''), (ju ''SUCCESS'', ju ''success''),
       (ju ''FAILED'', ju ''failed''), (ju ''TIMEOUT'', ju ''timeout'')],
     sm_transitions = [edge ''START'' ''queued'' ''running'', edge ''SUCCEED'' ''running'' ''success'',
       edge ''FAIL'' ''running'' ''failed'', edge ''TIMEOUT'' ''running'' ''timeout'']\<rparr>"

definition attempt_create :: "jsvalue jsobj \<Rightarrow> ustring \<Rightarrow> jsvalue jsobj" where
  "attempt_create d now =
     AList.update (ju ''createdAt'') (VStr now) (AList.update (ju ''status'') (VStr (ju ''queued'')) d)"

text \<open>
  A call of \<open>transition\<close> on a stored record, whose resource stores what it is sent: \<open>patch\<close> writes the
  update over a notification, \<open>insert\<close> makes the new record of an attempt. A call that throws stores
  nothing. A call has the name of its transition, its metadata and the time.
\<close>

datatype delivery = Notification | Attempt

definition machine_of :: "delivery \<Rightarrow> state_machine" where
  "machine_of d = (case d of Notification \<Rightarrow> NotificationStateMachine | Attempt \<Rightarrow> AttemptStateMachine)"

type_synonym transition_call = "ustring \<times> jsvalue jsobj \<times> ustring"

definition call_transition :: "delivery \<Rightarrow> transition_call \<Rightarrow> jsvalue jsobj \<Rightarrow> jsvalue jsobj" where
  "call_transition d c rcd = (case c of (name, metadata, now) \<Rightarrow>
     (case map_of rcd (ju ''status'') of
        Some (VStr status) \<Rightarrow>
          (case d of
             Notification \<Rightarrow> (case transition_update NotificationStateMachine status name metadata now of
                 Inl e \<Rightarrow> rcd | Inr upd \<Rightarrow> obj_spread rcd upd)
           | Attempt \<Rightarrow> (case attempt_record AttemptStateMachine rcd status name metadata now of
                 Inl e \<Rightarrow> rcd | Inr rcd' \<Rightarrow> rcd'))
      | _ \<Rightarrow> rcd))"

fun record_history :: "delivery \<Rightarrow> transition_call list \<Rightarrow> jsvalue jsobj \<Rightarrow> jsvalue jsobj list" where
  "record_history d [] rcd = [rcd]"
| "record_history d (c # cs) rcd = rcd # record_history d cs (call_transition d c rcd)"

section \<open>Runs of a machine\<close>

inductive sm_step :: "state_machine \<Rightarrow> ustring \<Rightarrow> ustring \<Rightarrow> ustring \<Rightarrow> bool" for m where
  step: "canTransition m s name = Inr s' \<Longrightarrow> sm_step m s name s'"

inductive sm_run :: "state_machine \<Rightarrow> ustring \<Rightarrow> ustring list \<Rightarrow> ustring \<Rightarrow> bool" for m where
  stop: "sm_run m s [] s"
| more: "sm_step m s name s' \<Longrightarrow> sm_run m s' names t \<Longrightarrow> sm_run m s (name # names) t"

inductive_simps sm_step_iff: "sm_step m s name s'"

definition well_typed_machine :: "state_machine \<Rightarrow> bool" where
  "well_typed_machine m \<longleftrightarrow>
     list_all (\<lambda>p. set (td_from (snd p)) \<subseteq> snd ` set (sm_states m) \<and> td_to (snd p) \<in> snd ` set (sm_states m))
       (sm_transitions m)"

lemma canTransition_edge:
  assumes "canTransition m s name = Inr s'"
  shows "\<exists>t. (name, t) \<in> set (sm_transitions m) \<and> s \<in> set (td_from t) \<and> s' = td_to t"
  using assms
  by (auto simp: canTransition_def js_lookup_Own split: lookup.splits if_splits dest!: map_of_SomeD)

lemma machines_typed: "well_typed_machine NotificationStateMachine" "well_typed_machine AttemptStateMachine"
  by (simp_all add: well_typed_machine_def NotificationStateMachine_def AttemptStateMachine_def edge_def)

text \<open>What one call does to the stored record.\<close>

definition status_of :: "jsvalue jsobj \<Rightarrow> jsvalue option" where
  "status_of rcd = map_of rcd (ju ''status'')"

definition takes_edge :: "delivery \<Rightarrow> jsvalue jsobj \<Rightarrow> jsvalue jsobj \<Rightarrow> bool" where
  "takes_edge d r r' \<longleftrightarrow> (\<exists>(name, tr) \<in> set (sm_transitions (machine_of d)).
     status_of r \<in> Some ` VStr ` set (td_from tr) \<and> status_of r' = Some (VStr (td_to tr)) \<and>
     map_of r' (ju ''lastTransition'') = Some (VStr name))"

definition declared_status :: "delivery \<Rightarrow> jsvalue jsobj \<Rightarrow> bool" where
  "declared_status d r \<longleftrightarrow> status_of r \<in> Some ` VStr ` snd ` set (sm_states (machine_of d))"

definition final_record :: "delivery \<Rightarrow> jsvalue jsobj \<Rightarrow> bool" where
  "final_record d r \<longleftrightarrow> (case status_of r of Some (VStr s) \<Rightarrow> isTerminalState (machine_of d) s | _ \<Rightarrow> False)"

definition plain_call :: "transition_call \<Rightarrow> bool" where
  "plain_call c \<longleftrightarrow> (case c of (name, metadata, now) \<Rightarrow>
     ju ''status'' \<notin> fst ` set metadata \<and> distinct (map fst metadata))"

text \<open>A call that changes the record writes the same fields in both machines.\<close>

lemma call_transition_cases:
  assumes "plain_call c" and "distinct (map fst r)" and "call_transition d c r \<noteq> r"
  obtains name tr s where "(name, tr) \<in> set (sm_transitions (machine_of d))" and "status_of r = Some (VStr s)"
    and "s \<in> set (td_from tr)" and "status_of (call_transition d c r) = Some (VStr (td_to tr))"
    and "map_of (call_transition d c r) (ju ''lastTransition'') = Some (VStr name)"
proof -
  obtain name metadata now where c: "c = (name, metadata, now)"
    by (cases c)
  have md: "map_of metadata (ju ''status'') = None" "distinct (map fst metadata)"
    using assms(1) by (auto simp: c plain_call_def map_of_eq_None_iff)
  have "call_transition d c r = r" if "\<forall>s. map_of r (ju ''status'') \<noteq> Some (VStr s)"
    using that by (simp add: c call_transition_def split: option.split jsvalue.split)
  then obtain s where s: "status_of r = Some (VStr s)"
    using assms(3) by (auto simp: status_of_def)
  obtain s' where s': "canTransition (machine_of d) s name = Inr s'"
    using assms(3) s by (cases "canTransition (machine_of d) s name")
      (auto simp: c call_transition_def status_of_def machine_of_def transition_update_def attempt_record_def split: delivery.splits)
  obtain tr where tr: "(name, tr) \<in> set (sm_transitions (machine_of d))" "s \<in> set (td_from tr)" "s' = td_to tr"
    using canTransition_edge [OF s'] by blast
  have "status_of (call_transition d c r) = Some (VStr s') \<and>
      map_of (call_transition d c r) (ju ''lastTransition'') = Some (VStr name)"
  proof (cases d)
    case Notification
    then show ?thesis
      using s s' md assms(2) by (simp add: c call_transition_def status_of_def machine_of_def transition_update_def
          map_of_obj_spread map_of_update distinct_update distinct_obj_spread ju_inject)
  next
    case Attempt
    then show ?thesis
      using s s' md assms(2) by (simp add: c call_transition_def status_of_def machine_of_def attempt_record_def
          map_of_obj_spread map_of_update distinct_update distinct_obj_spread ju_inject)
  qed
  with that [OF tr(1) s tr(2)] tr(3) show thesis
    by simp
qed

lemma call_takes_edge:
  assumes "plain_call c" and "distinct (map fst r)" and "call_transition d c r \<noteq> r"
  shows "takes_edge d r (call_transition d c r)"
proof -
  from assms obtain name tr s where e: "(name, tr) \<in> set (sm_transitions (machine_of d))" "status_of r = Some (VStr s)"
      "s \<in> set (td_from tr)" "status_of (call_transition d c r) = Some (VStr (td_to tr))"
      "map_of (call_transition d c r) (ju ''lastTransition'') = Some (VStr name)"
    by (rule call_transition_cases)
  show ?thesis
    unfolding takes_edge_def by (rule bexI [OF _ e(1)]) (simp add: e)
qed

lemma call_distinct: "distinct (map fst r) \<Longrightarrow> distinct (map fst (call_transition d c r))"
  by (simp add: call_transition_def attempt_record_def distinct_update distinct_obj_spread
      split: option.split jsvalue.split delivery.split sum.split prod.split)

lemma edge_declared: "takes_edge d r r' \<Longrightarrow> declared_status d r'"
proof -
  assume "takes_edge d r r'"
  then obtain name tr where tr: "(name, tr) \<in> set (sm_transitions (machine_of d))" "status_of r' = Some (VStr (td_to tr))"
    unfolding takes_edge_def by blast
  have "well_typed_machine (machine_of d)"
    using machines_typed by (cases d) (simp_all add: machine_of_def)
  then have "\<forall>p \<in> set (sm_transitions (machine_of d)). td_to (snd p) \<in> snd ` set (sm_states (machine_of d))"
    by (simp add: well_typed_machine_def list_all_iff)
  from bspec [OF this tr(1)] tr(2) show ?thesis
    unfolding declared_status_def by (metis imageI snd_conv)
qed

lemma final_no_edge: "final_record d r \<Longrightarrow> \<not> takes_edge d r r'"
  by (auto simp: final_record_def takes_edge_def isTerminalState_def getValidTransitions_def filter_empty_conv
      split: option.splits jsvalue.splits)

lemma history_nonempty [simp]: "record_history d cs r \<noteq> []" "record_history d cs r ! 0 = r"
  by (cases cs; simp)+

lemma record_history_steps:
  assumes "list_all plain_call cs" and "distinct (map fst r)"
  shows "Suc i < length (record_history d cs r) \<Longrightarrow>
    record_history d cs r ! Suc i = record_history d cs r ! i \<or>
    takes_edge d (record_history d cs r ! i) (record_history d cs r ! Suc i)"
  using assms
proof (induction d cs r arbitrary: i rule: record_history.induct)
  case (2 d c cs r)
  then show ?case
    using call_takes_edge [of c r d] call_distinct [of r d c] by (cases i) auto
qed simp


definition fresh_notification :: "jsvalue jsobj" where
  "fresh_notification = [(ju ''id'', VStr (ju ''n1'')), (ju ''status'', VStr (ju ''pending''))]"

definition some_calls :: "transition_call list" where
  "some_calls = [(ju ''START_PROCESSING'', [(ju ''worker'', VStr (ju ''w'')) ], ju ''t1''), (ju ''COMPLETE'', [], ju ''t2''),
     (ju ''COMPLETE'', [], ju ''t3'')]"

lemma notification_lookup:
  "js_lookup (sm_transitions NotificationStateMachine) (ju ''START_PROCESSING'') =
     Own \<lparr>td_from = [ju ''pending''], td_to = ju ''processing''\<rparr>"
  "js_lookup (sm_transitions NotificationStateMachine) (ju ''COMPLETE'') =
     Own \<lparr>td_from = [ju ''processing''], td_to = ju ''completed''\<rparr>"
  by (simp_all add: js_lookup_def NotificationStateMachine_def edge_def ju_inject)

lemma some_history:
  defines "h \<equiv> record_history Notification some_calls fresh_notification"
  shows "length h = 4" and "status_of (h ! 3) = Some (VStr (ju ''completed''))"
    and "status_of (h ! 1) = Some (VStr (ju ''processing''))"
  by (simp_all add: h_def some_calls_def fresh_notification_def call_transition_def transition_update_def canTransition_def
      notification_lookup status_of_def map_of_obj_spread map_of_update distinct_update distinct_obj_spread ju_inject
      numeral_eq_Suc)


definition attempt_rank :: "ustring \<Rightarrow> nat" where
  "attempt_rank s = (if s = ju ''queued'' then 2 else if s = ju ''running'' then 1 else 0)"

lemma attempt_step_rank: "sm_step AttemptStateMachine s name s' \<Longrightarrow> attempt_rank s' < attempt_rank s"
  by (auto simp: sm_step_iff AttemptStateMachine_def edge_def attempt_rank_def ju_inject dest!: canTransition_edge)

text \<open>
  State machines. An attempt is over after at most two transitions, from whatever status and in
  whatever order they are tried.
\<close>

theorem attempt_ends:
  assumes "sm_run AttemptStateMachine s names t"
  shows "length names + attempt_rank t \<le> attempt_rank s \<and> length names \<le> 2"
proof -
  have "length names + attempt_rank t \<le> attempt_rank s"
    using assms
  proof (induction s names t rule: sm_run.induct)
    case (more s name s' names t)
    with attempt_step_rank [of s name s'] show ?case
      by simp
  qed simp
  then show ?thesis
    by (simp add: attempt_rank_def split: if_splits)
qed

lemma attempt_lookup:
  "js_lookup (sm_transitions AttemptStateMachine) (ju ''START'') = Own \<lparr>td_from = [ju ''queued''], td_to = ju ''running''\<rparr>"
  "js_lookup (sm_transitions AttemptStateMachine) (ju ''TIMEOUT'') = Own \<lparr>td_from = [ju ''running''], td_to = ju ''timeout''\<rparr>"
  by (simp_all add: js_lookup_def AttemptStateMachine_def edge_def ju_inject)

theorem attempt_ends_witness:
  "sm_run AttemptStateMachine (ju ''queued'') [ju ''START'', ju ''TIMEOUT''] (ju ''timeout'') \<and>
     length [ju ''START'', ju ''TIMEOUT''] \<le> 2"
proof -
  have run: "sm_run AttemptStateMachine (ju ''queued'') [ju ''START'', ju ''TIMEOUT''] (ju ''timeout'')"
    by (rule sm_run.more sm_run.stop sm_step.step | simp add: canTransition_def attempt_lookup)+
  with attempt_ends [OF run] show ?thesis
    by blast
qed

text \<open>
  State machines. The status that was validated is spread first and the metadata over it: a
  transition from \<open>pending\<close> to \<open>processing\<close> whose metadata carries a status writes that status, here
  \<open>completed\<close>, which the machine does not allow.
\<close>

theorem metadata_overwrites_status:
  "\<exists>upd. transition_update NotificationStateMachine (ju ''pending'') (ju ''START_PROCESSING'')
       [(ju ''status'', VStr (ju ''completed''))] (ju ''now'') = Inr upd \<and>
     map_of upd (ju ''status'') = Some (VStr (ju ''completed'')) \<and>
     canTransition NotificationStateMachine (ju ''pending'') (ju ''COMPLETE'') = Inl WrongState"
  by (simp add: transition_update_def canTransition_def notification_lookup map_of_update map_of_obj_spread ju_inject)

end
