(* ===== verification/LruCache.thy ===== *)
theory LruCache
  imports JsPrelude
begin

text \<open>
  \<open>src/plugins/api/concerns/lru-cache.ts\<close>: a cache with a maximal size and a time to live over a
  JavaScript \<open>Map\<close>, which is the list of its entries in insertion order. The clock is the argument
  \<open>now\<close>; values are never \<open>undefined\<close>.

  Shown: the cache never exceeds its size, and an entry is kept as long as fewer than \<open>max\<close> other
  keys are used after it.
\<close>

record 'v cache_item =
  ci_value :: 'v
  ci_timestamp :: nat

record 'v lru =
  lru_max :: nat
  lru_ttl :: nat
  lru_cache :: "(ustring \<times> 'v cache_item) list"

definition lru_new :: "nat \<Rightarrow> nat \<Rightarrow> 'v lru" where
  "lru_new mx ttl = \<lparr>lru_max = (if mx = 0 then 1000 else mx), lru_ttl = (if ttl = 0 then 60000 else ttl), lru_cache = []\<rparr>"

definition lru_get :: "nat \<Rightarrow> ustring \<Rightarrow> 'v lru \<Rightarrow> 'v option \<times> 'v lru" where
  "lru_get now key c = (case map_of (lru_cache c) key of
     None \<Rightarrow> (None, c)
   | Some item \<Rightarrow>
       if now - ci_timestamp item > lru_ttl c then (None, c\<lparr>lru_cache := AList.delete key (lru_cache c)\<rparr>)
       else (Some (ci_value item), c\<lparr>lru_cache := AList.delete key (lru_cache c) @ [(key, item)]\<rparr>))"

definition lru_set :: "nat \<Rightarrow> ustring \<Rightarrow> 'v \<Rightarrow> 'v lru \<Rightarrow> 'v lru" where
  "lru_set now key v c =
     (let c1 = (if key \<in> fst ` set (lru_cache c) then AList.delete key (lru_cache c) else lru_cache c);
          c2 = (if length c1 \<ge> lru_max c
                then (case c1 of [] \<Rightarrow> c1 | (firstKey, i) # rest \<Rightarrow> AList.delete firstKey c1) else c1)
      in c\<lparr>lru_cache := c2 @ [(key, \<lparr>ci_value = v, ci_timestamp = now\<rparr>)]\<rparr>)"

definition lru_has :: "nat \<Rightarrow> ustring \<Rightarrow> 'v lru \<Rightarrow> bool \<times> 'v lru" where
  "lru_has now key c = (case lru_get now key c of (r, c') \<Rightarrow> (r \<noteq> None, c'))"

definition lru_delete :: "ustring \<Rightarrow> 'v lru \<Rightarrow> bool \<times> 'v lru" where
  "lru_delete key c = (key \<in> fst ` set (lru_cache c), c\<lparr>lru_cache := AList.delete key (lru_cache c)\<rparr>)"

definition lru_clear :: "'v lru \<Rightarrow> 'v lru" where
  "lru_clear c = c\<lparr>lru_cache := []\<rparr>"

definition lru_size :: "'v lru \<Rightarrow> nat" where
  "lru_size c = length (lru_cache c)"

datatype 'v lru_op = LGet ustring | LSet ustring 'v | LHas ustring | LDelete ustring | LClear

text \<open>An operation with the time at which it is called.\<close>

definition lru_step :: "nat \<times> 'v lru_op \<Rightarrow> 'v lru \<Rightarrow> 'v lru" where
  "lru_step p c = (case snd p of
     LGet k \<Rightarrow> snd (lru_get (fst p) k c)
   | LSet k v \<Rightarrow> lru_set (fst p) k v c
   | LHas k \<Rightarrow> snd (lru_has (fst p) k c)
   | LDelete k \<Rightarrow> snd (lru_delete k c)
   | LClear \<Rightarrow> lru_clear c)"

definition lru_inv :: "'v lru \<Rightarrow> bool" where
  "lru_inv c \<longleftrightarrow> 0 < lru_max c \<and> distinct (map fst (lru_cache c)) \<and> length (lru_cache c) \<le> lru_max c"

lemma delete_shorter: "k \<in> fst ` set xs \<Longrightarrow> length (AList.delete k xs) < length xs"
  by (auto simp: AList.delete_eq intro!: length_filter_less)

text \<open>The list \<open>set\<close> appends to: the old entries of other keys, less the first one when they fill the cache.\<close>

definition make_room :: "ustring \<Rightarrow> 'v lru \<Rightarrow> (ustring \<times> 'v cache_item) list" where
  "make_room k c = (let c1 = AList.delete k (lru_cache c) in if length c1 \<ge> lru_max c then tl c1 else c1)"

lemma delete_first_entry: "distinct (map fst (p # xs)) \<Longrightarrow> AList.delete (fst p) (p # xs) = xs"
  by (cases p) (simp add: delete_id)

lemma lru_set_room:
  assumes "lru_inv c"
  shows "lru_set now k v c = c\<lparr>lru_cache := make_room k c @ [(k, \<lparr>ci_value = v, ci_timestamp = now\<rparr>)]\<rparr>"
proof -
  define c1 where "c1 = AList.delete k (lru_cache c)"
  have c1: "(if k \<in> fst ` set (lru_cache c) then AList.delete k (lru_cache c) else lru_cache c) = c1"
    by (simp add: c1_def delete_id)
  have "distinct (map fst c1)"
    using assms by (simp add: c1_def lru_inv_def distinct_delete)
  then have "(case c1 of [] \<Rightarrow> c1 | (f, i) # rest \<Rightarrow> AList.delete f c1) = tl c1"
    using delete_first_entry [of "hd c1" "tl c1"] by (cases c1) auto
  then show ?thesis
    by (simp add: lru_set_def c1 make_room_def c1_def [symmetric] Let_def)
qed

lemma make_room_facts:
  assumes "lru_inv c"
  shows "k \<notin> fst ` set (make_room k c)" and "distinct (map fst (make_room k c))" and "length (make_room k c) < lru_max c"
proof -
  define c1 where "c1 = AList.delete k (lru_cache c)"
  have c1: "k \<notin> fst ` set c1" "distinct (map fst c1)" "length c1 \<le> lru_max c"
    using assms length_delete_le [of k "lru_cache c"]
    by (auto simp: c1_def lru_inv_def distinct_delete delete_notin_dom simp del: length_delete_le)
  show "k \<notin> fst ` set (make_room k c)"
    using c1(1) by (cases c1) (auto simp: make_room_def c1_def [symmetric] Let_def)
  show "distinct (map fst (make_room k c))"
    using c1(2) by (simp add: make_room_def c1_def [symmetric] Let_def map_tl distinct_tl)
  show "length (make_room k c) < lru_max c"
    using c1(3) assms by (auto simp: make_room_def c1_def [symmetric] Let_def lru_inv_def)
qed

lemma lru_inv_set: "lru_inv c \<Longrightarrow> lru_inv (lru_set now k v c)"
  using make_room_facts [of c k] by (simp add: lru_set_room) (auto simp: lru_inv_def)

lemma lru_inv_delete: "lru_inv c \<Longrightarrow> lru_inv (c\<lparr>lru_cache := AList.delete k (lru_cache c)\<rparr>)"
  using length_delete_le [of k "lru_cache c"] by (simp add: lru_inv_def distinct_delete del: length_delete_le)

lemma lru_inv_get: "lru_inv c \<Longrightarrow> lru_inv (snd (lru_get now k c))"
proof (cases "map_of (lru_cache c) k")
  case (Some item)
  assume inv: "lru_inv c"
  have "k \<in> fst ` set (lru_cache c)"
    using Some by (force dest: map_of_SomeD)
  with inv delete_shorter [of k "lru_cache c"] Some show ?thesis
    by (auto simp: lru_get_def lru_inv_delete) (auto simp: lru_inv_def distinct_delete delete_notin_dom)
qed (simp add: lru_get_def)

lemma lru_inv_step: "lru_inv c \<Longrightarrow> lru_inv (lru_step p c)"
  by (cases "snd p") (simp_all add: lru_step_def lru_inv_get lru_inv_set lru_has_def case_prod_unfold lru_delete_def
      lru_inv_delete lru_clear_def, simp add: lru_inv_def)

lemma lru_inv_run: "lru_inv c \<Longrightarrow> lru_inv (fold lru_step ops c)"
  by (induction ops arbitrary: c) (simp_all add: lru_inv_step)

lemma lru_inv_new: "lru_inv (lru_new mx ttl)"
  by (simp add: lru_inv_def lru_new_def)

lemma lru_step_max [simp]: "lru_max (lru_step p c) = lru_max c"
  by (cases "snd p") (auto simp: lru_step_def lru_get_def lru_set_def lru_has_def lru_delete_def lru_clear_def
      Let_def split: option.split)

lemma lru_run_max: "lru_max (fold lru_step ops c) = lru_max c"
  by (induction ops arbitrary: c) simp_all

text \<open>
  Cache. After any operations at any times, the cache holds at most \<open>max\<close> entries and one for
  each key.
\<close>

theorem lru_bounded:
  "lru_size (fold lru_step ops (lru_new mx ttl)) \<le> (if mx = 0 then 1000 else mx) \<and>
   distinct (map fst (lru_cache (fold lru_step ops (lru_new mx ttl))))"
proof -
  let ?c = "fold lru_step ops (lru_new mx ttl)"
  have "lru_inv ?c"
    by (rule lru_inv_run [OF lru_inv_new])
  moreover have "lru_max ?c = (if mx = 0 then 1000 else mx)"
    unfolding lru_run_max by (simp add: lru_new_def)
  ultimately show ?thesis
    by (simp add: lru_inv_def lru_size_def)
qed

section \<open>What is kept\<close>

fun used_key :: "'v lru_op \<Rightarrow> ustring option" where
  "used_key (LGet k) = Some k"
| "used_key (LSet k v) = Some k"
| "used_key (LHas k) = Some k"
| "used_key (LDelete k) = Some k"
| "used_key LClear = None"

text \<open>The entry of \<open>k\<close>, with only keys of \<open>U\<close> used after it.\<close>

definition recent :: "ustring \<Rightarrow> 'v cache_item \<Rightarrow> ustring set \<Rightarrow> 'v lru \<Rightarrow> bool" where
  "recent k item U c \<longleftrightarrow> (\<exists>pre post. lru_cache c = pre @ (k, item) # post \<and> fst ` set post \<subseteq> U)"

lemma delete_append: "AList.delete j (xs @ ys) = AList.delete j xs @ AList.delete j ys"
  by (simp add: AList.delete_eq)

lemma recent_delete:
  assumes "recent k item U c" and "j \<noteq> k"
  shows "\<exists>pre post. AList.delete j (lru_cache c) = pre @ (k, item) # post \<and> fst ` set post \<subseteq> U - {j}"
proof -
  obtain pre post where c: "lru_cache c = pre @ (k, item) # post" "fst ` set post \<subseteq> U"
    using assms(1) by (auto simp: recent_def)
  have "fst ` set (AList.delete j post) \<subseteq> U - {j}"
    using c(2) by (auto simp: AList.delete_eq)
  moreover have "AList.delete j (lru_cache c) = AList.delete j pre @ (k, item) # AList.delete j post"
    using assms(2) by (simp add: c AList.delete_eq)
  ultimately show ?thesis
    by blast
qed

lemma recent_step:
  assumes inv: "lru_inv c" and rec: "recent k item U c" and U: "finite U" "card U < lru_max c"
    and j: "used_key (snd p) = Some j" "j \<in> U" "j \<noteq> k"
  shows "recent k item U (lru_step p c)"
proof -
  obtain pre post where d: "AList.delete j (lru_cache c) = pre @ (k, item) # post" "fst ` set post \<subseteq> U - {j}"
    using recent_delete [OF rec j(3)] by blast
  have moved: "recent k item U (c\<lparr>lru_cache := AList.delete j (lru_cache c) @ [(j, i)]\<rparr>)" for i
    unfolding recent_def using d j(2) by (intro exI [of _ pre] exI [of _ "post @ [(j, i)]"]) auto
  have dropped: "recent k item U (c\<lparr>lru_cache := AList.delete j (lru_cache c)\<rparr>)"
    unfolding recent_def using d by (intro exI [of _ pre] exI [of _ post]) auto
  have get: "recent k item U (snd (lru_get now j c))" for now
    using rec moved dropped by (auto simp: lru_get_def split: option.split)
  have set: "recent k item U (lru_set now j v c)" for now v
  proof -
    have "distinct (map fst (AList.delete j (lru_cache c)))"
      using inv by (simp add: lru_inv_def distinct_delete)
    then have "distinct (map fst post)"
      by (simp add: d)
    then have "length post = card (fst ` set post)"
      by (metis distinct_card length_map set_map)
    also have "\<dots> \<le> card (U - {j})"
      using d(2) U(1) by (intro card_mono) auto
    also have "\<dots> < card U"
      using j(2) U(1) by (intro psubset_card_mono) auto
    finally have "Suc (length post) < lru_max c"
      using U(2) by simp
    then have "\<exists>pre'. make_room j c = pre' @ (k, item) # post"
      by (cases pre) (auto simp: make_room_def d Let_def)
    then obtain pre' where "make_room j c = pre' @ (k, item) # post"
      by blast
    with d(2) j(2) show ?thesis
      unfolding lru_set_room [OF inv] recent_def
      by (intro exI [of _ pre'] exI [of _ "post @ [(j, \<lparr>ci_value = v, ci_timestamp = now\<rparr>)]"]) auto
  qed
  show ?thesis
    using j(1) get set dropped
    by (cases "snd p") (auto simp: lru_step_def lru_has_def case_prod_unfold lru_delete_def)
qed

text \<open>
  Cache. An entry that was just set is still there after any operations on other keys, as long
  as fewer than \<open>max\<close> different other keys are used: the entry that is evicted is the least recently
  used one.
\<close>

theorem lru_keeps_recent:
  assumes "lru_inv c" and "\<forall>p \<in> set ops. \<exists>j \<in> U. used_key (snd p) = Some j" and "k \<notin> U"
    and "finite U" and "card U < lru_max c"
  shows "map_of (lru_cache (fold lru_step ops (lru_set now k v c))) k = Some \<lparr>ci_value = v, ci_timestamp = now\<rparr>"
proof -
  let ?i = "\<lparr>ci_value = v, ci_timestamp = now\<rparr>"
  have "recent k ?i U (fold lru_step ops c') \<and> lru_inv (fold lru_step ops c')"
    if "recent k ?i U c'" "lru_inv c'" "lru_max c' = lru_max c" for c'
    using assms(2) that
  proof (induction ops arbitrary: c')
    case (Cons p ops)
    then obtain j where j: "used_key (snd p) = Some j" "j \<in> U" "j \<noteq> k"
      using assms(3) by auto
    have "recent k ?i U (lru_step p c')"
      using Cons.prems assms(4,5) j by (intro recent_step) auto
    with Cons show ?case
      by (simp add: lru_inv_step)
  qed simp
  moreover have "recent k ?i U (lru_set now k v c)"
    unfolding lru_set_room [OF assms(1)] recent_def by (intro exI [of _ "make_room k c"] exI [of _ "[]"]) simp
  moreover have "lru_max (lru_set now k v c) = lru_max c"
    by (simp add: lru_set_def Let_def)
  ultimately have "recent k ?i U (fold lru_step ops (lru_set now k v c))"
      and "lru_inv (fold lru_step ops (lru_set now k v c))"
    using lru_inv_set [OF assms(1)] by blast+
  then show ?thesis
    by (auto simp: recent_def lru_inv_def map_add_def split: option.split dest: map_of_SomeD)
qed

theorem lru_keeps_recent_witness:
  "map_of (lru_cache (fold lru_step [(1, LSet (ju ''b'') 2), (2, LGet (ju ''b'')), (3, LSet (ju ''b'') 5)]
     (lru_set 0 (ju ''a'') (1::nat) (lru_new 2 100)))) (ju ''a'') = Some \<lparr>ci_value = 1, ci_timestamp = 0\<rparr>"
  by (rule lru_keeps_recent [of _ _ "{ju ''b''}"]) (simp_all add: lru_inv_new ju_inject, simp add: lru_new_def)

end
