(* ===== verification/SafeKeys.thy ===== *)
theory SafeKeys
  imports JsJson
begin

text \<open>
  \<open>src/concerns/s3-key.ts\<close> (joining and checking object keys) and \<open>src/concerns/safe-merge.ts\<close>
  (dropping the keys that reach a prototype).

  Shown: joining keys is associative, leaves no backslash and no empty segment inside, and checked
  segments can be read back from the key; a sanitized value has no dangerous key at any depth, and
  sanitizing a value without one changes nothing.
\<close>

section \<open>Object keys\<close>

text \<open>\<open>.replace(/\\/g, '/').replace(/\/+/g, '/')\<close>\<close>

definition slashes :: "ustring \<Rightarrow> ustring" where
  "slashes s = map (\<lambda>u. if u = 92 then 47 else u) s"

fun collapse :: "ustring \<Rightarrow> ustring" where
  "collapse (u # v # r) = (if u = 47 \<and> v = 47 then collapse (v # r) else u # collapse (v # r))"
| "collapse s = s"

definition normalizeS3Key :: "ustring \<Rightarrow> ustring" where
  "normalizeS3Key key = collapse (slashes key)"

definition joinS3Key :: "ustring list \<Rightarrow> ustring" where
  "joinS3Key segments = collapse (slashes (join [47] (filter (\<lambda>s. s \<noteq> []) segments)))"

definition UNSAFE_KEY_CHARS :: "(16 word) list" where
  "UNSAFE_KEY_CHARS = [92, 47, 61, 37]"

definition isValidS3KeySegment :: "ustring \<Rightarrow> bool" where
  "isValidS3KeySegment v \<longleftrightarrow> \<not> list_ex (\<lambda>u. u \<in> set UNSAFE_KEY_CHARS) v"

text \<open>The error carries the first unsafe character.\<close>

definition validateS3KeySegment :: "jsvalue \<Rightarrow> (16 word) + unit" where
  "validateS3KeySegment v = (case filter (\<lambda>u. u \<in> set UNSAFE_KEY_CHARS) (to_string v) of
     [] \<Rightarrow> Inr () | u # r \<Rightarrow> Inl u)"

fun no_double_slash :: "ustring \<Rightarrow> bool" where
  "no_double_slash (u # v # r) \<longleftrightarrow> \<not> (u = 47 \<and> v = 47) \<and> no_double_slash (v # r)"
| "no_double_slash s \<longleftrightarrow> True"

lemma collapse_Cons: "collapse (u # s) = (if u = 47 \<and> s \<noteq> [] \<and> hd s = 47 then collapse s else u # collapse s)"
  by (cases s) auto

lemma collapse_hd: "s \<noteq> [] \<Longrightarrow> collapse s \<noteq> [] \<and> hd (collapse s) = hd s"
  by (induction s rule: collapse.induct) auto

lemma set_collapse: "set (collapse s) = set s"
  by (induction s rule: collapse.induct) auto

lemma no_double_slash_collapse: "no_double_slash (collapse s)"
proof (induction s rule: collapse.induct)
  case (1 u v r)
  have "no_double_slash (u # collapse (v # r))" if "\<not> (u = 47 \<and> v = 47)"
  proof -
    obtain w q where "collapse (v # r) = w # q" "w = v"
      using collapse_hd [of "v # r"] by (cases "collapse (v # r)") auto
    with 1(2) that show ?thesis
      by simp
  qed
  with 1 show ?case
    by simp
qed auto

lemma collapse_id: "no_double_slash s \<Longrightarrow> collapse s = s"
  by (induction s rule: collapse.induct) auto

lemma collapse_idem [simp]: "collapse (collapse s) = collapse s"
  by (simp add: collapse_id no_double_slash_collapse)

lemma collapse_append_right: "collapse (s @ collapse t) = collapse (s @ t)"
proof (induction s)
  case (Cons u s)
  show ?case
  proof (cases "s @ t = []")
    case False
    then have "s @ collapse t \<noteq> []" and "hd (s @ collapse t) = hd (s @ t)"
      using collapse_hd [of t] by (cases "t = []"; cases s; simp)+
    with Cons False show ?thesis
      by (simp only: append_Cons collapse_Cons simp_thms)
  qed simp
qed simp

lemma collapse_append_left: "collapse (collapse s @ t) = collapse (s @ t)"
proof (induction s rule: collapse.induct)
  case (1 u v r)
  show ?case
  proof (cases "u = 47 \<and> v = 47")
    case False
    obtain q where q: "collapse (v # r) = v # q"
      using collapse_hd [of "v # r"] by (cases "collapse (v # r)") auto
    from False have "collapse (collapse (u # v # r) @ t) = collapse (u # v # q @ t)"
      by (auto simp: q)
    also have "\<dots> = u # collapse (collapse (v # r) @ t)"
      using False by (auto simp: q)
    also have "\<dots> = collapse ((u # v # r) @ t)"
      using 1(2) [OF False] False by auto
    finally show ?thesis .
  qed (use 1(1) in simp)
qed simp_all

lemma slashes_append [simp]: "slashes (s @ t) = slashes s @ slashes t"
  by (simp add: slashes_def)

lemma slashes_collapse: "slashes (collapse (slashes s)) = collapse (slashes s)"
proof -
  have "92 \<notin> set (collapse (slashes s))"
    by (auto simp: set_collapse slashes_def split: if_splits)
  then show ?thesis
    unfolding slashes_def by (intro map_idI) auto
qed

lemma join_append: "xs \<noteq> [] \<Longrightarrow> ys \<noteq> [] \<Longrightarrow> join sep (xs @ ys) = join sep xs @ sep @ join sep ys"
proof (induction xs)
  case (Cons x xs)
  then show ?case
    by (cases xs; cases ys) auto
qed simp

lemma collapse_Nil [simp]: "collapse s = [] \<longleftrightarrow> s = []"
  using collapse_hd [of s] by (cases "s = []") auto

lemma slashes_Nil [simp]: "slashes s = [] \<longleftrightarrow> s = []"
  by (simp add: slashes_def)

lemma join_Nil: "\<forall>x\<in>set xs. x \<noteq> [] \<Longrightarrow> join sep xs = [] \<longleftrightarrow> xs = []"
  by (induction sep xs rule: join.induct) auto

lemma set_join: "set (join sep xs) \<subseteq> (\<Union>x\<in>set xs. set x) \<union> set sep"
  by (induction sep xs rule: join.induct) auto

lemma no_double_slash_plain: "47 \<notin> set s \<Longrightarrow> no_double_slash s"
  by (induction s rule: no_double_slash.induct) auto

lemma no_double_slash_append:
  "47 \<notin> set s \<Longrightarrow> s \<noteq> [] \<Longrightarrow> t \<noteq> [] \<Longrightarrow> hd t \<noteq> 47 \<Longrightarrow> no_double_slash t \<Longrightarrow> no_double_slash (s @ 47 # t)"
proof (induction s)
  case (Cons u s)
  then show ?case
    by (cases s; cases t) auto
qed simp

lemma no_double_slash_join:
  "\<forall>x\<in>set xs. x \<noteq> [] \<and> 47 \<notin> set x \<Longrightarrow> no_double_slash (join [47] xs)"
proof (induction "[47] :: ustring" xs rule: join.induct)
  case (3 x y zs)
  have "join [47] (y # zs) \<noteq> []" "hd (join [47] (y # zs)) \<noteq> 47"
    using 3(2) by (cases y; cases zs; auto)+
  with 3 show ?case
    by (simp add: no_double_slash_append)
qed (simp_all add: no_double_slash_plain)

lemma collapse_slashes_append:
  "collapse (slashes (collapse (slashes a) @ b @ collapse (slashes c))) = collapse (slashes (a @ b @ c))"
  by (simp add: slashes_collapse collapse_append_left collapse_append_right [of "slashes a @ slashes b", simplified]
      collapse_append_right [of "collapse (slashes a) @ slashes b", simplified])

text \<open>
  Keys. A key joined from keys that were joined before is the key joined from all the segments,
  so it does not matter how a path is put together.
\<close>

theorem joinS3Key_associative: "joinS3Key [joinS3Key xs, joinS3Key ys] = joinS3Key (xs @ ys)"
proof -
  define f where "f zs = filter (\<lambda>s. s \<noteq> []) zs" for zs :: "ustring list"
  have key: "joinS3Key zs = collapse (slashes (join [47] (f zs)))" for zs
    by (simp add: joinS3Key_def f_def)
  have empty: "joinS3Key zs = [] \<longleftrightarrow> f zs = []" for zs
    by (simp add: key join_Nil f_def)
  show ?thesis
  proof (cases "f xs = [] \<or> f ys = []")
    case True
    then show ?thesis
    proof
      assume xs: "f xs = []"
      then have "joinS3Key (xs @ ys) = joinS3Key ys"
        by (simp add: key f_def)
      moreover have "joinS3Key [joinS3Key xs, joinS3Key ys] = collapse (slashes (joinS3Key ys))"
        using xs empty [of xs] by (simp add: joinS3Key_def [of "[_, _]"])
      ultimately show ?thesis
        by (simp add: key slashes_collapse)
    next
      assume ys: "f ys = []"
      then have "joinS3Key (xs @ ys) = joinS3Key xs"
        by (simp add: key f_def)
      moreover have "joinS3Key [joinS3Key xs, joinS3Key ys] = collapse (slashes (joinS3Key xs))"
        using ys empty [of ys] by (simp add: joinS3Key_def [of "[_, _]"])
      ultimately show ?thesis
        by (simp add: key slashes_collapse)
    qed
  next
    case False
    then have "joinS3Key [joinS3Key xs, joinS3Key ys] = collapse (slashes (joinS3Key xs @ [47] @ joinS3Key ys))"
      using empty [of xs] empty [of ys] by (simp add: joinS3Key_def [of "[_, _]"])
    also have "\<dots> = collapse (slashes (join [47] (f xs) @ [47] @ join [47] (f ys)))"
      unfolding key by (rule collapse_slashes_append)
    also have "\<dots> = joinS3Key (xs @ ys)"
      using False by (simp add: key f_def join_append)
    finally show ?thesis .
  qed
qed

text \<open>
  Keys. Segments that pass the check and are not empty can be read back from the joined key by
  splitting it at the slashes.
\<close>

theorem joinS3Key_split:
  assumes "xs \<noteq> []" and "\<forall>x\<in>set xs. x \<noteq> [] \<and> isValidS3KeySegment x"
  shows "split_on 47 (joinS3Key xs) = xs"
proof -
  have valid: "92 \<notin> set x \<and> 47 \<notin> set x" if "x \<in> set xs" for x
    using assms(2) that by (auto simp: isValidS3KeySegment_def UNSAFE_KEY_CHARS_def list_ex_iff)
  have filter: "filter (\<lambda>s. s \<noteq> []) xs = xs"
    using assms(2) by (simp add: filter_id_conv)
  have "92 \<notin> set (join [47] xs)"
    using set_join [of "[47]" xs] valid by auto
  then have "slashes (join [47] xs) = join [47] xs"
    unfolding slashes_def by (intro map_idI) auto
  moreover have "no_double_slash (join [47] xs)"
    using assms(2) valid by (intro no_double_slash_join) auto
  ultimately have "joinS3Key xs = join [47] xs"
    by (simp add: joinS3Key_def filter collapse_id)
  with assms(1) valid show ?thesis
    by (simp add: split_on_join)
qed

theorem joinS3Key_split_witness:
  "split_on 47 (joinS3Key [ju ''users'', ju ''v1'']) = [ju ''users'', ju ''v1'']"
  by (rule joinS3Key_split) (simp_all add: isValidS3KeySegment_def UNSAFE_KEY_CHARS_def ju_def)

section \<open>Dangerous keys\<close>

definition DANGEROUS_KEYS :: "ustring list" where
  "DANGEROUS_KEYS = [ju ''__proto__'', ju ''constructor'', ju ''prototype'']"

definition isDangerousKey :: "ustring \<Rightarrow> bool" where
  "isDangerousKey key =
     (if key \<in> set DANGEROUS_KEYS then True
      else if 46 \<in> set key then list_ex (\<lambda>part. part \<in> set DANGEROUS_KEYS) (split_on 46 key)
      else False)"

definition sanitizeKeys :: "jsvalue jsobj \<Rightarrow> jsvalue jsobj" where
  "sanitizeKeys ob = filter (\<lambda>p. \<not> isDangerousKey (fst p)) (obj_entries ob)"

text \<open>\<open>sanitizeDeep\<close> assigns the kept entries in order to a new object.\<close>

fun sanitizeDeep :: "jsvalue \<Rightarrow> jsvalue" where
  "sanitizeDeep (VArr xs) = VArr (map sanitizeDeep xs)"
| "sanitizeDeep (VObj ob) =
     VObj (obj_assign_all [] (filter (\<lambda>p. \<not> isDangerousKey (fst p))
       (obj_entries (map (\<lambda>p. (fst p, sanitizeDeep (snd p))) ob))))"
| "sanitizeDeep v = v"

fun safe_value :: "jsvalue \<Rightarrow> bool" where
  "safe_value (VArr xs) \<longleftrightarrow> list_all safe_value xs"
| "safe_value (VObj ob) \<longleftrightarrow> list_all (\<lambda>p. \<not> isDangerousKey (fst p) \<and> safe_value (snd p)) ob"
| "safe_value v \<longleftrightarrow> True"

text \<open>The keys of an object are distinct and in the order \<open>Object.entries\<close> gives them.\<close>

fun proper_value :: "jsvalue \<Rightarrow> bool" where
  "proper_value (VArr xs) \<longleftrightarrow> list_all proper_value xs"
| "proper_value (VObj ob) \<longleftrightarrow> distinct (map fst ob) \<and> obj_entries ob = ob \<and> list_all (\<lambda>p. proper_value (snd p)) ob"
| "proper_value v \<longleftrightarrow> True"

lemma set_assign_all: "set (obj_assign_all a b) \<subseteq> set a \<union> set b"
  unfolding obj_assign_all_def
proof (induction b arbitrary: a)
  case (Cons p b)
  have "set (AList.update (fst p) (snd p) a) \<subseteq> set a \<union> {p}"
    by (induction a) (auto split: if_splits)
  with Cons.IH [of "AList.update (fst p) (snd p) a"] show ?case
    by (auto simp: case_prod_unfold)
qed simp

lemma assign_all_fresh: "distinct (map fst b) \<Longrightarrow> obj_assign_all [] b = b"
  by (simp add: obj_assign_all_def fold_update_fresh)

lemma sort_key_map_keys:
  assumes "\<And>x. k (g x) = k' x"
  shows "sort_key k (map g xs) = map g (sort_key k' xs)"
proof -
  have insort: "insort_key k (g x) (map g ys) = map g (insort_key k' x ys)" for x ys
    by (induction ys) (simp_all add: assms)
  show ?thesis
    by (induction xs) (simp_all add: insort)
qed

lemma map_obj_entries: "obj_entries (map (\<lambda>p. (fst p, f (snd p))) ob) = map (\<lambda>p. (fst p, f (snd p))) (obj_entries ob)"
  by (simp add: obj_entries_def filter_map o_def)
    (rule sort_key_map_keys, simp)

text \<open>
  C40 (safe merge). However deep a value is, after sanitizing no object in it has a key that reaches a
  prototype, nor a dotted path through one.
\<close>

theorem sanitizeDeep_safe: "safe_value (sanitizeDeep v)"
proof (induction v rule: sanitizeDeep.induct)
  case (1 xs)
  then show ?case
    by (simp add: list_all_iff)
next
  case (2 ob)
  let ?kept = "filter (\<lambda>p. \<not> isDangerousKey (fst p)) (obj_entries (map (\<lambda>p. (fst p, sanitizeDeep (snd p))) ob))"
  have "\<not> isDangerousKey (fst p) \<and> safe_value (snd p)" if "p \<in> set ?kept" for p
    using that 2 by fastforce
  moreover have "set (obj_assign_all [] ?kept) \<subseteq> set ?kept"
    using set_assign_all [of "[]" ?kept] by simp
  ultimately have "\<forall>p\<in>set (obj_assign_all [] ?kept). \<not> isDangerousKey (fst p) \<and> safe_value (snd p)"
    by blast
  then show ?case
    by (simp only: sanitizeDeep.simps safe_value.simps list_all_iff)
qed simp_all

text \<open>
  Safe merge. Sanitizing takes nothing away from a value without dangerous keys.
\<close>

theorem sanitizeDeep_id:
  assumes "proper_value v" and "safe_value v"
  shows "sanitizeDeep v = v"
  using assms
proof (induction v rule: sanitizeDeep.induct)
  case (1 xs)
  then show ?case
    by (simp add: list_all_iff map_idI)
next
  case (2 ob)
  have "map (\<lambda>p. (fst p, sanitizeDeep (snd p))) ob = ob"
    using 2 by (intro map_idI) (auto simp: list_all_iff)
  moreover have "filter (\<lambda>p. \<not> isDangerousKey (fst p)) ob = ob"
    using 2(3) by (simp add: filter_id_conv list_all_iff)
  ultimately show ?case
    using 2(2) by (simp add: assign_all_fresh)
qed simp_all

theorem sanitizeDeep_id_witness:
  "sanitizeDeep (VObj [(ju ''a'', VArr [VObj [(ju ''b.c'', VBool True)]])]) =
     VObj [(ju ''a'', VArr [VObj [(ju ''b.c'', VBool True)]])]"
  by (rule sanitizeDeep_id)
    (simp_all add: obj_entries_def is_index_key_def is_digit_def isDangerousKey_def DANGEROUS_KEYS_def ju_def)

end
