(* ===== verification/Partitions.thy ===== *)
theory Partitions
  imports SafeKeys
begin

text \<open>
  \<open>src/core/resource-partitions.class.ts\<close>: the reference objects that index the records of a
  resource by the values of some fields, and the listing of a partition in
  \<open>src/core/resource-query.class.ts\<close>. The store of references is an association list from keys
  to the version in their metadata; \<open>fails\<close> tells which requests to the client throw.

  The collation of \<open>localeCompare\<close>, as the sort key of a text, and the reading of a date text that
  is not an ISO time are those of the host, a parameter. \<open>join\<close> of \<open>path\<close> is the POSIX one.
  Field names are not members of \<open>Object.prototype\<close>, and a \<open>Date\<close> is a field of the record itself.

  Shown: over any inserts, updates and deletes the references are exactly those of the current
  records, when no partition name is a prefix of another and no text has a slash; the values of a
  record read back from its key; what happens when the conditions fail.
\<close>

section \<open>Paths\<close>

text \<open>\<open>normalizeString\<close> of Node on the parts of a path; the part built so far is reversed.\<close>

fun path_parts :: "bool \<Rightarrow> ustring list \<Rightarrow> ustring list \<Rightarrow> ustring list" where
  "path_parts up acc [] = rev acc"
| "path_parts up acc (s # ss) =
     (if s = [] \<or> s = [46] then path_parts up acc ss
      else if s = [46, 46] then
        (if acc \<noteq> [] \<and> hd acc \<noteq> [46, 46] then path_parts up (tl acc) ss
         else path_parts up (if up then s # acc else acc) ss)
      else path_parts up (s # acc) ss)"

definition path_normalize :: "ustring \<Rightarrow> ustring" where
  "path_normalize p =
     (if p = [] then [46]
      else let absolute = hd p = 47; trailing = last p = 47;
               r = join [47] (path_parts (\<not> absolute) [] (split_on 47 p))
        in if r = [] then (if absolute then [47] else if trailing then [46, 47] else [46])
           else (if absolute then [47] else []) @ r @ (if trailing then [47] else []))"

definition path_join :: "ustring list \<Rightarrow> ustring" where
  "path_join segments = path_normalize (join [47] (filter (\<lambda>s. s \<noteq> []) segments))"

section \<open>Partition rules\<close>

text \<open>A \<open>Date\<close> carries its ISO text (none when it is invalid) and the text of \<open>toString\<close>.\<close>

datatype part_value = Js jsvalue | DateValue "ustring option" ustring

record part_host =
  ph_collate :: "ustring \<Rightarrow> nat list"
  ph_parseDate :: "ustring \<Rightarrow> ustring option"

datatype ref_request =
    PutReference ustring | DeleteReference ustring | DeleteReferences "ustring list"
  | ListReferences ustring | HeadReference ustring

datatype part_error =
    UnknownPartition ustring | UnknownField ustring ustring | InvalidDate | UnsafeSegment "16 word"
  | KeyNotFound ustring | NoPartitionValues ustring | NotInPartition ustring ustring
  | RequestFailed ref_request

fun part_text :: "part_value \<Rightarrow> ustring" where
  "part_text (Js v) = to_string v"
| "part_text (DateValue utc t) = t"

definition nullish :: "part_value \<Rightarrow> bool" where
  "nullish v \<longleftrightarrow> v = Js VUndef \<or> v = Js VNull"

fun js_includes :: "ustring \<Rightarrow> ustring \<Rightarrow> bool" where
  "js_includes [] sub \<longleftrightarrow> sub = []"
| "js_includes (u # s) sub \<longleftrightarrow> starts_with (u # s) sub \<or> js_includes s sub"

text \<open>\<open>rule.match(/maxlength:(\d+)/)\<close>: the first match in the text.\<close>

fun maxlength_of :: "ustring \<Rightarrow> nat option" where
  "maxlength_of [] = None"
| "maxlength_of (u # s) =
     (let ds = takeWhile is_digit (drop 10 (u # s)) in
      if starts_with (u # s) (ju ''maxlength:'') \<and> ds \<noteq> [] then Some (decimal_value ds) else maxlength_of s)"

definition date_part :: "ustring \<Rightarrow> ustring" where
  "date_part t = hd (split_on 84 t)"

definition applyRule :: "part_host \<Rightarrow> part_value \<Rightarrow> ustring \<Rightarrow> part_error + part_value" where
  "applyRule h v rule =
     (if nullish v then Inr v
      else let t = (case (maxlength_of rule, v) of
                     (Some n, Js (VStr s)) \<Rightarrow> if length s > n then Js (VStr (take n s)) else v
                   | _ \<Rightarrow> v)
        in if \<not> js_includes rule (ju ''date'') then Inr t
        else (case t of
            DateValue None txt \<Rightarrow> Inl InvalidDate
          | DateValue (Some utc) txt \<Rightarrow> Inr (Js (VStr (date_part utc)))
          | Js (VStr s) \<Rightarrow>
              if js_includes s [84] \<and> js_includes s [90] then Inr (Js (VStr (date_part s)))
              else (case ph_parseDate h s of
                  None \<Rightarrow> Inr t
                | Some utc \<Rightarrow> Inr (Js (VStr (date_part utc))))
          | Js w \<Rightarrow> Inr t))"

section \<open>Fields\<close>

text \<open>\<open>key in level\<close> and \<open>level[key]\<close>, for an object or an array.\<close>

definition member_of :: "ustring \<Rightarrow> jsvalue \<Rightarrow> jsvalue option" where
  "member_of key level = (case level of
     VObj kvs \<Rightarrow> map_of kvs key
   | VArr xs \<Rightarrow> if is_index_key key \<and> decimal_value key < length xs then Some (xs ! decimal_value key)
       else if key = ju ''length'' then Some (VNum (decimal_text (length xs))) else None
   | _ \<Rightarrow> None)"

fun walk_path :: "jsvalue \<Rightarrow> ustring list \<Rightarrow> jsvalue option" where
  "walk_path v [] = Some v"
| "walk_path v (k # ks) = (case member_of k v of None \<Rightarrow> None | Some w \<Rightarrow> walk_path w ks)"

definition getNestedFieldValue :: "part_value jsobj \<Rightarrow> ustring \<Rightarrow> part_value" where
  "getNestedFieldValue data path =
     (if 46 \<notin> set path then (case map_of data path of None \<Rightarrow> Js VUndef | Some v \<Rightarrow> v)
      else (case map_of data (hd (split_on 46 path)) of
          Some (Js v) \<Rightarrow> (case walk_path v (tl (split_on 46 path)) of None \<Rightarrow> Js VUndef | Some w \<Rightarrow> Js w)
        | _ \<Rightarrow> Js VUndef))"

definition fieldExistsInAttributes :: "jsvalue jsobj \<Rightarrow> ustring \<Rightarrow> bool" where
  "fieldExistsInAttributes attributes fieldName \<longleftrightarrow>
     (if starts_with fieldName [95] then True
      else if 46 \<notin> set fieldName then fieldName \<in> set (obj_keys attributes)
      else walk_path (VObj attributes) (split_on 46 fieldName) \<noteq> None)"

section \<open>The definitions of a resource\<close>

type_synonym part_fields = "ustring jsobj"

record part_resource =
  pr_name :: ustring
  pr_version :: ustring
  pr_partitions :: "part_fields jsobj"
  pr_attributes :: "jsvalue jsobj"
  pr_strict :: bool

fun first_missing :: "jsvalue jsobj \<Rightarrow> ustring \<Rightarrow> ustring list \<Rightarrow> part_error + unit" where
  "first_missing attributes p [] = Inr ()"
| "first_missing attributes p (f # fs) =
     (if \<not> fieldExistsInAttributes attributes f then Inl (UnknownField p f) else first_missing attributes p fs)"

fun validate_entries :: "jsvalue jsobj \<Rightarrow> part_fields jsobj \<Rightarrow> part_error + unit" where
  "validate_entries attributes [] = Inr ()"
| "validate_entries attributes ((p, flds) # ps) = (case first_missing attributes p (obj_keys flds) of
     Inl e \<Rightarrow> Inl e | Inr u \<Rightarrow> validate_entries attributes ps)"

definition part_validate :: "part_resource \<Rightarrow> part_error + unit" where
  "part_validate r =
     (if \<not> pr_strict r then Inr () else validate_entries (pr_attributes r) (obj_entries (pr_partitions r)))"

record orphaned_partition =
  op_missingFields :: "ustring list"
  op_definition :: part_fields
  op_allFields :: "ustring list"

definition findOrphaned :: "part_resource \<Rightarrow> orphaned_partition jsobj" where
  "findOrphaned r = fold (\<lambda>(p, flds) orphaned.
     let missing = filter (\<lambda>f. \<not> fieldExistsInAttributes (pr_attributes r) f) (obj_keys flds) in
     if missing \<noteq> [] then AList.update p \<lparr>op_missingFields = missing, op_definition = flds,
       op_allFields = obj_keys flds\<rparr> orphaned else orphaned)
     (obj_entries (pr_partitions r)) []"

definition removeOrphaned :: "bool \<Rightarrow> part_resource \<Rightarrow> orphaned_partition jsobj \<times> part_resource" where
  "removeOrphaned dryRun r =
     (let orphaned = findOrphaned r in
      if orphaned = [] then ([], r)
      else if dryRun then (orphaned, r)
      else (orphaned, r\<lparr>pr_partitions := fold AList.delete (obj_keys orphaned) (pr_partitions r)\<rparr>))"

section \<open>Keys\<close>

definition partition_sorted_fields :: "part_host \<Rightarrow> part_fields \<Rightarrow> (ustring \<times> ustring) list" where
  "partition_sorted_fields h flds = sort_key (\<lambda>p. ph_collate h (fst p)) (obj_entries flds)"

definition field_segment :: "ustring \<Rightarrow> part_value \<Rightarrow> ustring" where
  "field_segment f v = f @ [61] @ part_text v"

text \<open>The loop of \<open>getKey\<close>; it returns null at the first field without a value.\<close>

fun key_segments :: "part_host \<Rightarrow> part_value jsobj \<Rightarrow> (ustring \<times> ustring) list \<Rightarrow>
    part_error + ustring list option" where
  "key_segments h data [] = Inr (Some [])"
| "key_segments h data ((f, rule) # fs) = (case applyRule h (getNestedFieldValue data f) rule of
     Inl e \<Rightarrow> Inl e
   | Inr v \<Rightarrow> if nullish v then Inr None
       else map_sum id (map_option ((#) (field_segment f v))) (key_segments h data fs))"

definition truthy_id :: "ustring option \<Rightarrow> ustring option \<Rightarrow> ustring option" where
  "truthy_id a b = (case a of Some s \<Rightarrow> if s \<noteq> [] then a else b | None \<Rightarrow> b)"

text \<open>An id that is not a string goes into the key as its text when it is truthy.\<close>

definition truthy_value :: "part_value \<Rightarrow> bool" where
  "truthy_value v = (case v of
     Js (VBool b) \<Rightarrow> b
   | Js (VNum n) \<Rightarrow> n \<noteq> ju ''0'' \<and> n \<noteq> ju ''NaN''
   | Js (VStr s) \<Rightarrow> s \<noteq> []
   | _ \<Rightarrow> \<not> nullish v)"

definition data_id :: "part_value jsobj \<Rightarrow> ustring option" where
  "data_id data = (case map_of data (ju ''id'') of
     None \<Rightarrow> None | Some v \<Rightarrow> if truthy_value v then Some (part_text v) else None)"

definition part_root :: "part_resource \<Rightarrow> ustring \<Rightarrow> ustring list" where
  "part_root r p = [ju ''resource='' @ pr_name r, ju ''partition='' @ p]"

definition getKey :: "part_host \<Rightarrow> part_resource \<Rightarrow> ustring \<Rightarrow> ustring option \<Rightarrow> part_value jsobj \<Rightarrow>
    part_error + ustring option" where
  "getKey h r p i data = (case map_of (pr_partitions r) p of
     None \<Rightarrow> Inl (UnknownPartition p)
   | Some flds \<Rightarrow> (case key_segments h data (partition_sorted_fields h flds) of
       Inl e \<Rightarrow> Inl e
     | Inr None \<Rightarrow> Inr None
     | Inr (Some segments) \<Rightarrow>
         if segments = [] then Inr None
         else (case truthy_id i (data_id data) of
             Some s \<Rightarrow> if s = [] then Inr None
               else Inr (Some (path_join (part_root r p @ segments @ [ju ''id='' @ s])))
           | None \<Rightarrow> Inr None)))"

text \<open>The segments that \<open>buildPrefix\<close> and \<open>getFromPartition\<close> make from the values given.\<close>

fun value_segments :: "part_host \<Rightarrow> part_value jsobj \<Rightarrow> (ustring \<times> ustring) list \<Rightarrow>
    part_error + ustring list" where
  "value_segments h values [] = Inr []"
| "value_segments h values ((f, rule) # fs) = (case map_of values f of
     None \<Rightarrow> value_segments h values fs
   | Some v \<Rightarrow> if nullish v then value_segments h values fs
       else (case applyRule h v rule of
           Inl e \<Rightarrow> Inl e
         | Inr w \<Rightarrow> map_sum id ((#) (field_segment f w)) (value_segments h values fs)))"

definition buildPrefix :: "part_host \<Rightarrow> part_resource \<Rightarrow> ustring \<Rightarrow> part_fields \<Rightarrow> part_value jsobj \<Rightarrow>
    part_error + ustring" where
  "buildPrefix h r p flds values = (case value_segments h values (partition_sorted_fields h flds) of
     Inl e \<Rightarrow> Inl e
   | Inr segments \<Rightarrow> Inr (join [47] (part_root r p @ segments)))"

fun extract_fields :: "ustring list \<Rightarrow> (ustring \<times> ustring) list \<Rightarrow> ustring jsobj \<Rightarrow> ustring jsobj" where
  "extract_fields parts [] acc = acc"
| "extract_fields parts ((f, rule) # fs) acc =
     extract_fields parts fs (case find (\<lambda>part. starts_with part (f @ [61])) parts of
       None \<Rightarrow> acc
     | Some part \<Rightarrow> AList.update f (drop (length f + 1) part) acc)"

definition extractValuesFromKey :: "ustring \<Rightarrow> ustring list \<Rightarrow> (ustring \<times> ustring) list \<Rightarrow>
    part_error + ustring jsobj" where
  "extractValuesFromKey i keys flds =
     (case find (\<lambda>key. list_ex (\<lambda>s. s = ju ''id='' @ i) (split_on 47 key)) keys of
       None \<Rightarrow> Inl (KeyNotFound i)
     | Some key \<Rightarrow> Inr (extract_fields (split_on 47 key) flds []))"

section \<open>References\<close>

type_synonym ref_store = "ustring jsobj"

definition putReference :: "(ref_request \<Rightarrow> bool) \<Rightarrow> part_resource \<Rightarrow> ustring \<Rightarrow> ref_store \<Rightarrow>
    (part_error + unit) \<times> ref_store" where
  "putReference fails r key st =
     (if fails (PutReference key) then (Inl (RequestFailed (PutReference key)), st)
      else (Inr (), AList.update key (pr_version r) st))"

definition deleteReference :: "(ref_request \<Rightarrow> bool) \<Rightarrow> ustring \<Rightarrow> ref_store \<Rightarrow>
    (part_error + unit) \<times> ref_store" where
  "deleteReference fails key st =
     (if fails (DeleteReference key) then (Inl (RequestFailed (DeleteReference key)), st)
      else (Inr (), AList.delete key st))"

definition deleteKeys :: "(ref_request \<Rightarrow> bool) \<Rightarrow> ustring list \<Rightarrow> ref_store \<Rightarrow>
    (part_error + unit) \<times> ref_store" where
  "deleteKeys fails keys st =
     (if fails (DeleteReferences keys) then (Inl (RequestFailed (DeleteReferences keys)), st)
      else (Inr (), fold AList.delete keys st))"

definition getAllKeys :: "ustring \<Rightarrow> ref_store \<Rightarrow> ustring list" where
  "getAllKeys prefix st = sort (filter (\<lambda>k. starts_with k prefix) (map fst st))"

text \<open>The requests of the partitions run in the order of the entries; the result lists the failures.\<close>

fun create_each :: "part_host \<Rightarrow> (ref_request \<Rightarrow> bool) \<Rightarrow> part_resource \<Rightarrow> part_value jsobj \<Rightarrow> ustring list \<Rightarrow>
    ref_store \<Rightarrow> part_error list \<times> ref_store" where
  "create_each h fails r data [] st = ([], st)"
| "create_each h fails r data (p # ps) st =
     (let (res, st') = (case getKey h r p (data_id data) data of
            Inl e \<Rightarrow> (Inl e, st)
          | Inr None \<Rightarrow> (Inr (), st)
          | Inr (Some key) \<Rightarrow> putReference fails r key st);
          (failures, st'') = create_each h fails r data ps st'
      in (case res of Inl e \<Rightarrow> e # failures | Inr u \<Rightarrow> failures, st''))"

definition createReferences :: "part_host \<Rightarrow> (ref_request \<Rightarrow> bool) \<Rightarrow> part_resource \<Rightarrow> part_value jsobj \<Rightarrow>
    ref_store \<Rightarrow> part_error list \<times> ref_store" where
  "createReferences h fails r data st = create_each h fails r data (obj_keys (pr_partitions r)) st"

fun keys_of_record :: "part_host \<Rightarrow> part_resource \<Rightarrow> ustring option \<Rightarrow> part_value jsobj \<Rightarrow> ustring list \<Rightarrow>
    part_error + ustring list" where
  "keys_of_record h r i data [] = Inr []"
| "keys_of_record h r i data (p # ps) = (case getKey h r p i data of
     Inl e \<Rightarrow> Inl e
   | Inr None \<Rightarrow> keys_of_record h r i data ps
   | Inr (Some key) \<Rightarrow> map_sum id ((#) key) (keys_of_record h r i data ps))"

definition deleteReferences :: "part_host \<Rightarrow> (ref_request \<Rightarrow> bool) \<Rightarrow> part_resource \<Rightarrow> part_value jsobj \<Rightarrow>
    ref_store \<Rightarrow> (part_error + unit) \<times> ref_store" where
  "deleteReferences h fails r data st =
     (case keys_of_record h r (data_id data) data (obj_keys (pr_partitions r)) of
       Inl e \<Rightarrow> (Inl e, st)
     | Inr keys \<Rightarrow> if keys \<noteq> [] then deleteKeys fails keys st else (Inr (), st))"

fun updateReferences :: "part_host \<Rightarrow> (ref_request \<Rightarrow> bool) \<Rightarrow> part_resource \<Rightarrow> part_value jsobj \<Rightarrow>
    ustring list \<Rightarrow> ref_store \<Rightarrow> (part_error + unit) \<times> ref_store" where
  "updateReferences h fails r data [] st = (Inr (), st)"
| "updateReferences h fails r data (p # ps) st = (case getKey h r p (data_id data) data of
     Inl e \<Rightarrow> (Inl e, st)
   | Inr None \<Rightarrow> updateReferences h fails r data ps st
   | Inr (Some key) \<Rightarrow> (case putReference fails r key st of
       (Inl e, st') \<Rightarrow> (Inl e, st')
     | (Inr u, st') \<Rightarrow> updateReferences h fails r data ps st'))"

definition handleReferenceUpdate :: "part_host \<Rightarrow> (ref_request \<Rightarrow> bool) \<Rightarrow> part_resource \<Rightarrow> ustring \<Rightarrow>
    part_value jsobj \<Rightarrow> part_value jsobj \<Rightarrow> ref_store \<Rightarrow> (part_error + unit) \<times> ref_store" where
  "handleReferenceUpdate h fails r p oldData newData st =
     (let i = truthy_id (data_id newData) (data_id oldData) in
      case (getKey h r p i oldData, getKey h r p i newData) of
        (Inl e, _) \<Rightarrow> (Inl e, st)
      | (_, Inl e) \<Rightarrow> (Inl e, st)
      | (Inr oldKey, Inr newKey) \<Rightarrow>
          if oldKey \<noteq> newKey then
            (case (case oldKey of None \<Rightarrow> (Inr (), st) | Some k \<Rightarrow> deleteReference fails k st) of
              (Inl e, st') \<Rightarrow> (Inl e, st')
            | (Inr u, st') \<Rightarrow>
                (case newKey of None \<Rightarrow> (Inr (), st') | Some k \<Rightarrow> putReference fails r k st'))
          else (case newKey of None \<Rightarrow> (Inr (), st) | Some k \<Rightarrow> putReference fails r k st))"

fun update_each :: "part_host \<Rightarrow> (ref_request \<Rightarrow> bool) \<Rightarrow> part_resource \<Rightarrow> part_value jsobj \<Rightarrow>
    part_value jsobj \<Rightarrow> ustring list \<Rightarrow> ref_store \<Rightarrow> part_error list \<times> ref_store" where
  "update_each h fails r oldData newData [] st = ([], st)"
| "update_each h fails r oldData newData (p # ps) st =
     (let (res, st') = handleReferenceUpdate h fails r p oldData newData st;
          (failures, st'') = update_each h fails r oldData newData ps st'
      in (case res of Inl e \<Rightarrow> e # failures | Inr u \<Rightarrow> failures, st''))"

definition id_text :: "ustring option \<Rightarrow> ustring" where
  "id_text i = (case i of None \<Rightarrow> ju ''undefined'' | Some s \<Rightarrow> s)"

definition ends_with :: "ustring \<Rightarrow> ustring \<Rightarrow> bool" where
  "ends_with s t \<longleftrightarrow> starts_with (rev s) (rev t)"

definition partition_prefix :: "part_resource \<Rightarrow> ustring \<Rightarrow> ustring" where
  "partition_prefix r p = join [47] (part_root r p)"

definition cleanup_partition :: "part_host \<Rightarrow> (ref_request \<Rightarrow> bool) \<Rightarrow> part_resource \<Rightarrow> ustring option \<Rightarrow>
    part_value jsobj \<Rightarrow> ustring \<Rightarrow> ref_store \<Rightarrow> (part_error + unit) \<times> ref_store" where
  "cleanup_partition h fails r i newData p st =
     (let prefix = partition_prefix r p in
      if fails (ListReferences prefix) then (Inl (RequestFailed (ListReferences prefix)), st)
      else (case getKey h r p i newData of
          Inl e \<Rightarrow> (Inl e, st)
        | Inr validKey \<Rightarrow>
            let staleKeys = filter (\<lambda>k. ends_with k (ju ''/id='' @ id_text i) \<and> Some k \<noteq> validKey)
                  (getAllKeys prefix st)
            in if staleKeys \<noteq> [] then deleteKeys fails staleKeys st else (Inr (), st)))"

fun cleanup_each :: "part_host \<Rightarrow> (ref_request \<Rightarrow> bool) \<Rightarrow> part_resource \<Rightarrow> ustring option \<Rightarrow>
    part_value jsobj \<Rightarrow> ustring list \<Rightarrow> ref_store \<Rightarrow> part_error list \<times> ref_store" where
  "cleanup_each h fails r i newData [] st = ([], st)"
| "cleanup_each h fails r i newData (p # ps) st =
     (let (res, st') = cleanup_partition h fails r i newData p st;
          (failures, st'') = cleanup_each h fails r i newData ps st'
      in (case res of Inl e \<Rightarrow> e # failures | Inr u \<Rightarrow> failures, st''))"

definition handleReferenceUpdates :: "part_host \<Rightarrow> (ref_request \<Rightarrow> bool) \<Rightarrow> part_resource \<Rightarrow>
    part_value jsobj \<Rightarrow> part_value jsobj \<Rightarrow> ref_store \<Rightarrow> (part_error + unit) \<times> ref_store" where
  "handleReferenceUpdates h fails r oldData newData st =
     (let names = obj_keys (pr_partitions r); i = truthy_id (data_id newData) (data_id oldData) in
      if names = [] then (Inr (), st)
      else (case update_each h fails r oldData newData names st of
          (e # es, st') \<Rightarrow> (Inl e, st')
        | ([], st') \<Rightarrow>
            if oldData = [] then (Inr (), st')
            else (case cleanup_each h fails r i newData names st' of
                (e # es, st'') \<Rightarrow> (Inl e, st'')
              | ([], st'') \<Rightarrow> (Inr (), st''))))"

section \<open>Reading a partition\<close>

fun first_unsafe :: "part_value jsobj \<Rightarrow> part_error + unit" where
  "first_unsafe [] = Inr ()"
| "first_unsafe ((f, v) # vs) =
     (if nullish v then first_unsafe vs
      else (case validateS3KeySegment (VStr (part_text v)) of
          Inl u \<Rightarrow> Inl (UnsafeSegment u) | Inr _ \<Rightarrow> first_unsafe vs))"

text \<open>The result is the record read, with the \<open>_partition\<close> and \<open>_partitionValues\<close> set on it.\<close>

definition getFromPartition :: "part_host \<Rightarrow> (ref_request \<Rightarrow> bool) \<Rightarrow>
    (ustring \<Rightarrow> part_error + part_value jsobj) \<Rightarrow> part_resource \<Rightarrow> ustring \<Rightarrow> ustring \<Rightarrow>
    part_value jsobj \<Rightarrow> ref_store \<Rightarrow> part_error + part_value jsobj \<times> ustring \<times> part_value jsobj" where
  "getFromPartition h fails get r i p values st =
     (case validateS3KeySegment (VStr i) of
       Inl u \<Rightarrow> Inl (UnsafeSegment u)
     | Inr _ \<Rightarrow> (case first_unsafe (obj_entries values) of
       Inl e \<Rightarrow> Inl e
     | Inr _ \<Rightarrow> (case map_of (pr_partitions r) p of
       None \<Rightarrow> Inl (UnknownPartition p)
     | Some flds \<Rightarrow> (case value_segments h values (partition_sorted_fields h flds) of
       Inl e \<Rightarrow> Inl e
     | Inr segments \<Rightarrow>
         if segments = [] then Inl (NoPartitionValues p)
         else let key = path_join (part_root r p @ segments @ [ju ''id='' @ i]) in
           if fails (HeadReference key) then Inl (RequestFailed (HeadReference key))
           else if map_of st key = None then Inl (NotInPartition i p)
           else map_sum id (\<lambda>data. (data, p, values)) (get i)))))"

definition extractIdsFromKeys :: "ustring list \<Rightarrow> ustring list" where
  "extractIdsFromKeys keys = List.map_filter (\<lambda>key.
     map_option (drop 3) (find (\<lambda>part. starts_with part (ju ''id='')) (split_on 47 key))) keys"

text \<open>\<open>_buildPagePrefix\<close>; \<open>listIds\<close> builds the same prefix, but the main one without any value.\<close>

definition buildPagePrefix :: "part_host \<Rightarrow> part_resource \<Rightarrow> ustring option \<Rightarrow> part_value jsobj \<Rightarrow> part_error + ustring" where
  "buildPagePrefix h r part values = (case part of
     None \<Rightarrow> Inr (join [47] [ju ''resource='' @ pr_name r, ju ''data''])
   | Some p \<Rightarrow> (case map_of (pr_partitions r) p of
       None \<Rightarrow> Inl (UnknownPartition p)
     | Some flds \<Rightarrow> buildPrefix h r p flds values))"

definition listIds :: "part_host \<Rightarrow> part_resource \<Rightarrow> ustring option \<Rightarrow> part_value jsobj \<Rightarrow> nat \<Rightarrow> nat \<Rightarrow>
    ref_store \<Rightarrow> part_error + ustring list" where
  "listIds h r part values limit offset st =
     map_sum id (\<lambda>prefix. extractIdsFromKeys
         (take (if limit = 0 then 1000 else limit) (drop offset (getAllKeys prefix st))))
       (buildPagePrefix h r (if values \<noteq> [] then part else None) values)"

section \<open>Keys of plain segments\<close>

definition plain_segment :: "ustring \<Rightarrow> bool" where
  "plain_segment s \<longleftrightarrow> 61 \<in> set s \<and> 47 \<notin> set s"

lemma path_parts_plain: "list_all plain_segment ss \<Longrightarrow> path_parts up acc ss = rev acc @ ss"
  by (induction ss arbitrary: acc) (auto simp: plain_segment_def)

lemma hd_join: "ss \<noteq> [] \<Longrightarrow> hd ss \<noteq> [] \<Longrightarrow> join c ss \<noteq> [] \<and> hd (join c ss) = hd (hd ss)"
  by (cases "(c, ss)" rule: join.cases) auto

lemma last_join: "ss \<noteq> [] \<Longrightarrow> last ss \<noteq> [] \<Longrightarrow> join c ss \<noteq> [] \<and> last (join c ss) = last (last ss)"
  by (induction c ss rule: join.induct) auto

lemma join_snoc: "ss \<noteq> [] \<Longrightarrow> join c (ss @ [s]) = join c ss @ c @ s"
  by (induction c ss rule: join.induct) auto

lemma path_join_plain:
  assumes plain: "list_all plain_segment ss" and ss: "ss \<noteq> []"
  shows "path_join ss = join [47] ss"
proof -
  have seg: "s \<noteq> [] \<and> hd s \<noteq> 47 \<and> last s \<noteq> 47 \<and> 47 \<notin> set s" if "s \<in> set ss" for s
  proof -
    have "61 \<in> set s \<and> 47 \<notin> set s"
      using plain that by (simp add: list_all_iff plain_segment_def)
    then show ?thesis
      by (metis empty_iff empty_set hd_in_set last_in_set)
  qed
  have parts: "path_parts True [] (split_on 47 (join [47] ss)) = ss"
    using seg ss plain by (simp add: split_on_join path_parts_plain)
  have "hd (join [47] ss) \<noteq> 47 \<and> last (join [47] ss) \<noteq> 47 \<and> join [47] ss \<noteq> []"
    using hd_join [of ss "[47]"] last_join [of ss "[47]"] seg ss by auto
  moreover have "filter (\<lambda>s. s \<noteq> []) ss = ss"
    using seg by (auto simp: filter_id_conv)
  ultimately show ?thesis
    by (simp add: path_join_def path_normalize_def parts Let_def)
qed

text \<open>The segments of a record without an error and without a slash.\<close>

definition fields_ok :: "part_host \<Rightarrow> part_value jsobj \<Rightarrow> part_fields \<Rightarrow> bool" where
  "fields_ok h data flds \<longleftrightarrow> (case key_segments h data (partition_sorted_fields h flds) of
     Inl e \<Rightarrow> False
   | Inr None \<Rightarrow> True
   | Inr (Some ss) \<Rightarrow> list_all (\<lambda>s. 47 \<notin> set s) ss)"

definition record_ok :: "part_host \<Rightarrow> part_resource \<Rightarrow> ustring \<Rightarrow> part_value jsobj \<Rightarrow> bool" where
  "record_ok h r i data \<longleftrightarrow> data_id data = Some i \<and> i \<noteq> [] \<and> 47 \<notin> set i \<and>
     list_all (\<lambda>(p, flds). fields_ok h data flds) (pr_partitions r)"

definition slash_free :: "part_resource \<Rightarrow> bool" where
  "slash_free r \<longleftrightarrow> 47 \<notin> set (pr_name r) \<and> list_all (\<lambda>p. 47 \<notin> set p) (map fst (pr_partitions r))"

definition resource_ok :: "part_resource \<Rightarrow> bool" where
  "resource_ok r \<longleftrightarrow> 47 \<notin> set (pr_name r) \<and> distinct (map fst (pr_partitions r)) \<and>
     list_all (\<lambda>p. 47 \<notin> set p \<and> list_all (\<lambda>q. starts_with q p \<longrightarrow> q = p) (map fst (pr_partitions r)))
       (map fst (pr_partitions r))"

lemma resource_ok_slash_free: "resource_ok r \<Longrightarrow> slash_free r"
  by (auto simp: resource_ok_def slash_free_def list_all_iff)

lemma key_segments_equals: "key_segments h data fs = Inr (Some ss) \<Longrightarrow> s \<in> set ss \<Longrightarrow> 61 \<in> set s"
proof (induction h data fs arbitrary: ss rule: key_segments.induct)
  case (2 h data f rule fs)
  then show ?case
    by (cases "key_segments h data fs")
      (auto split: sum.splits if_splits option.splits simp: field_segment_def)
qed simp

definition ref_key :: "part_host \<Rightarrow> part_resource \<Rightarrow> ustring \<Rightarrow> part_value jsobj \<Rightarrow> ustring \<Rightarrow> ustring option" where
  "ref_key h r i data p = (case getKey h r p (Some i) data of Inl e \<Rightarrow> None | Inr k \<Rightarrow> k)"

lemma record_segments:
  assumes "record_ok h r i data" and "map_of (pr_partitions r) p = Some flds"
  obtains (none) "key_segments h data (partition_sorted_fields h flds) = Inr None"
  | (some) ss where "key_segments h data (partition_sorted_fields h flds) = Inr (Some ss)" and "list_all plain_segment ss"
proof -
  have "(p, flds) \<in> set (pr_partitions r)"
    using assms(2) by (rule map_of_SomeD)
  then have ok: "fields_ok h data flds"
    using assms(1) by (auto simp: record_ok_def list_all_iff)
  show thesis
  proof (cases "key_segments h data (partition_sorted_fields h flds)")
    case (Inr res)
    then show thesis
      using ok that
      by (cases res) (auto simp: fields_ok_def list_all_iff plain_segment_def dest: key_segments_equals)
  qed (use ok in \<open>simp add: fields_ok_def\<close>)
qed

lemma getKey_ok:
  assumes "record_ok h r i data" and "p \<in> fst ` set (pr_partitions r)"
  shows "getKey h r p (Some i) data = Inr (ref_key h r i data p)"
proof -
  obtain flds where flds: "map_of (pr_partitions r) p = Some flds"
    using assms(2) by (metis map_of_eq_None_iff not_None_eq)
  from assms(1) flds show ?thesis
    by (cases rule: record_segments) (use assms(1) flds in \<open>auto simp: ref_key_def getKey_def truthy_id_def record_ok_def\<close>)
qed

text \<open>A key lists its resource, its partition, the fields and the id.\<close>

lemma ref_key_segments:
  assumes "record_ok h r i data" and "slash_free r" and "ref_key h r i data p = Some k"
  obtains ss where "list_all plain_segment ss" and "ss \<noteq> []" and "plain_segment (ju ''id='' @ i)"
    and "k = join [47] (part_root r p @ ss @ [ju ''id='' @ i])" and "list_all plain_segment (part_root r p)"
    and "p \<in> fst ` set (pr_partitions r)"
proof -
  have id: "plain_segment (ju ''id='' @ i)"
    using assms(1) by (auto simp: record_ok_def plain_segment_def js_simps)
  obtain flds where flds: "map_of (pr_partitions r) p = Some flds"
    using assms(3) by (auto simp: ref_key_def getKey_def split: option.splits)
  then have p: "p \<in> fst ` set (pr_partitions r)"
    by (metis map_of_eq_None_iff option.distinct(1))
  then have root: "list_all plain_segment (part_root r p)"
    using assms(2) by (auto simp: slash_free_def list_all_iff part_root_def plain_segment_def js_simps)
  from assms(1) flds show thesis
  proof (cases rule: record_segments)
    case none
    then show thesis
      using assms(3) flds by (simp add: ref_key_def getKey_def)
  next
    case (some ss)
    then have "ss \<noteq> [] \<and> k = path_join (part_root r p @ ss @ [ju ''id='' @ i])"
      using assms flds by (auto simp: ref_key_def getKey_def truthy_id_def record_ok_def split: if_splits)
    moreover have "path_join (part_root r p @ ss @ [ju ''id='' @ i]) = join [47] (part_root r p @ ss @ [ju ''id='' @ i])"
      using some(2) root id by (intro path_join_plain) auto
    ultimately show thesis
      using some(2) root id p by (intro that) auto
  qed
qed

lemma ends_with_iff: "ends_with s t \<longleftrightarrow> (\<exists>a. s = a @ t)"
  unfolding ends_with_def starts_with_iff by (metis rev_append rev_rev_ident)

lemma last_part: "a @ c # x = b @ c # y \<Longrightarrow> c \<notin> set x \<Longrightarrow> c \<notin> set y \<Longrightarrow> x = y"
  by (auto simp: append_eq_append_conv2 Cons_eq_append_conv append_eq_Cons_conv)

lemma first_part: "x @ c # a = y @ b \<Longrightarrow> c \<notin> set y \<Longrightarrow> starts_with x y"
  by (auto simp: append_eq_append_conv2 Cons_eq_append_conv append_eq_Cons_conv starts_with_iff)

text \<open>The keys that the cleanup of partition \<open>p\<close> looks at when it keeps the references of \<open>i\<close>.\<close>

definition reference_of :: "part_resource \<Rightarrow> ustring \<Rightarrow> ustring \<Rightarrow> ustring \<Rightarrow> bool" where
  "reference_of r i p k \<longleftrightarrow> starts_with k (partition_prefix r p) \<and> ends_with k (ju ''/id='' @ i)"

lemma resource_ok_prefix:
  assumes "resource_ok r" and "p \<in> fst ` set (pr_partitions r)" and "q \<in> fst ` set (pr_partitions r)"
    and "starts_with q p"
  shows "p = q"
  using assms by (fastforce simp: resource_ok_def list_all_iff)

lemma ref_key_place:
  assumes "record_ok h r i data" and "resource_ok r" and "ref_key h r i data p = Some k"
  shows "reference_of r i p k" and "p \<in> fst ` set (pr_partitions r)"
    and "q \<in> fst ` set (pr_partitions r) \<Longrightarrow> starts_with k (partition_prefix r q) \<Longrightarrow> q = p"
    and "47 \<notin> set j \<Longrightarrow> reference_of r j q k \<Longrightarrow> j = i"
proof -
  obtain ss where p: "p \<in> fst ` set (pr_partitions r)" and ss: "ss \<noteq> []"
    and id: "plain_segment (ju ''id='' @ i)"
    and k: "k = join [47] (part_root r p @ ss @ [ju ''id='' @ i])"
    using ref_key_segments [OF assms(1) resource_ok_slash_free [OF assms(2)] assms(3)] by blast
  have front: "k = partition_prefix r p @ 47 # join [47] (ss @ [ju ''id='' @ i])"
    using ss by (cases ss) (simp_all add: k part_root_def partition_prefix_def)
  have tail: "k = join [47] (part_root r p @ ss) @ 47 # ju ''id='' @ i"
    using join_snoc [of "part_root r p @ ss" "[47]" "ju ''id='' @ i"] by (simp add: k part_root_def)
  have slash: "ju ''/id='' @ j = 47 # ju ''id='' @ j" for j
    by (simp add: js_simps)
  show "reference_of r i p k"
    unfolding reference_of_def slash ends_with_iff starts_with_iff
    by (intro conjI exI) (rule front, rule tail)
  show "p \<in> fst ` set (pr_partitions r)"
    by (rule p)
  show "q = p" if q: "q \<in> fst ` set (pr_partitions r)" "starts_with k (partition_prefix r q)"
  proof -
    obtain z where "k = partition_prefix r q @ z"
      using q(2) by (auto simp: starts_with_iff)
    then have "p @ 47 # join [47] (ss @ [ju ''id='' @ i]) = q @ z"
      using front by (simp add: partition_prefix_def part_root_def)
    moreover have "47 \<notin> set q"
      using q(1) assms(2) by (auto simp: resource_ok_def list_all_iff)
    ultimately have "starts_with p q"
      by (rule first_part)
    then show "q = p"
      using resource_ok_prefix [OF assms(2) q(1) p] by simp
  qed
  show "j = i" if j: "47 \<notin> set j" "reference_of r j q k"
  proof -
    obtain a where "k = a @ 47 # ju ''id='' @ j"
      using j(2) by (auto simp: reference_of_def slash ends_with_iff)
    then have "a @ 47 # ju ''id='' @ j = join [47] (part_root r p @ ss) @ 47 # ju ''id='' @ i"
      by (rule trans [OF sym tail])
    then have "ju ''id='' @ j = ju ''id='' @ i"
      by (rule last_part) (use id j(1) in \<open>auto simp: plain_segment_def js_simps\<close>)
    then show "j = i"
      by simp
  qed
qed

section \<open>The references after an operation\<close>

abbreviation ref_keys :: "ref_store \<Rightarrow> ustring set" where
  "ref_keys st \<equiv> fst ` set st"

lemma keys_delete [simp]: "ref_keys (AList.delete k st) = ref_keys st - {k}"
  by (auto simp: AList.delete_eq image_iff)

lemma keys_delete_all [simp]: "ref_keys (fold AList.delete ks st) = ref_keys st - set ks"
  by (induction ks arbitrary: st) auto

lemma putReference_keys:
  "putReference fails r k st = (Inr u, st') \<Longrightarrow> ref_keys st' = insert k (ref_keys st)"
  by (clarsimp simp: putReference_def split: if_splits)

lemma deleteReference_keys:
  "deleteReference fails k st = (Inr u, st') \<Longrightarrow> ref_keys st' = ref_keys st - {k}"
  by (clarsimp simp: deleteReference_def split: if_splits)

lemma deleteKeys_keys:
  "deleteKeys fails ks st = (Inr u, st') \<Longrightarrow> ref_keys st' = ref_keys st - set ks"
  by (clarsimp simp: deleteKeys_def split: if_splits)

lemma set_getAllKeys [simp]: "set (getAllKeys prefix st) = {k \<in> ref_keys st. starts_with k prefix}"
  by (auto simp: getAllKeys_def)

text \<open>The keys \<open>getKey\<close> gives to a record in the partitions \<open>ps\<close>.\<close>

definition record_keys :: "part_host \<Rightarrow> part_resource \<Rightarrow> ustring \<Rightarrow> part_value jsobj \<Rightarrow> ustring set \<Rightarrow> ustring set" where
  "record_keys h r i data ps = {k. \<exists>p \<in> ps. ref_key h r i data p = Some k}"

lemma record_keys_insert:
  "record_keys h r i data (insert p ps) = set_option (ref_key h r i data p) \<union> record_keys h r i data ps"
  by (auto simp: record_keys_def)

lemma record_keys_empty [simp]: "record_keys h r i data {} = {}"
  by (simp add: record_keys_def)

lemma create_each_keys:
  assumes "record_ok h r i data" and "set ps \<subseteq> fst ` set (pr_partitions r)"
    and "create_each h fails r data ps st = ([], st')"
  shows "ref_keys st' = ref_keys st \<union> record_keys h r i data (set ps)"
  using assms(2,3)
proof (induction ps arbitrary: st)
  case (Cons p ps)
  have p: "getKey h r p (data_id data) data = Inr (ref_key h r i data p)"
    using getKey_ok [OF assms(1)] assms(1) Cons.prems(1) by (simp add: record_ok_def)
  obtain st1 where "create_each h fails r data ps st1 = ([], st')"
    and "ref_keys st1 = ref_keys st \<union> set_option (ref_key h r i data p)"
    using Cons.prems(2) by (auto simp: p dest!: putReference_keys split: prod.splits option.splits sum.splits)
  then show ?case
    using Cons.IH Cons.prems(1) by (auto simp: record_keys_insert)
qed simp

lemma keys_of_record_set:
  assumes "record_ok h r i data" and "set ps \<subseteq> fst ` set (pr_partitions r)"
  shows "\<exists>ks. keys_of_record h r (Some i) data ps = Inr ks \<and> set ks = record_keys h r i data (set ps)"
  using assms(2)
proof (induction ps)
  case (Cons p ps)
  then show ?case
    using getKey_ok [OF assms(1), of p] by (auto simp: record_keys_insert split: option.split)
qed simp

lemma update_step_keys:
  assumes "record_ok h r i old" and "record_ok h r i new" and "p \<in> fst ` set (pr_partitions r)"
    and "handleReferenceUpdate h fails r p old new st = (Inr u, st')"
  shows "ref_keys st' = ref_keys st - set_option (ref_key h r i old p) \<union> set_option (ref_key h r i new p)"
proof -
  have "truthy_id (data_id new) (data_id old) = Some i"
    using assms(1,2) by (simp add: record_ok_def truthy_id_def)
  then show ?thesis
    using assms(4) getKey_ok [OF assms(1,3)] getKey_ok [OF assms(2,3)]
    by (cases "ref_key h r i old p"; cases "ref_key h r i new p")
      (clarsimp simp: handleReferenceUpdate_def Let_def dest!: putReference_keys deleteReference_keys
        split: if_splits prod.splits sum.splits; simp)+
qed

lemma ref_keys_disjoint:
  assumes "record_ok h r i old" and "record_ok h r i new" and "resource_ok r"
    and "p \<notin> ps"
  shows "set_option (ref_key h r i new p) \<inter> record_keys h r i old ps = {}"
proof -
  have "q = p" if "ref_key h r i new p = Some k" "ref_key h r i old q = Some k" for q k
    using ref_key_place(1,2) [OF assms(1,3) that(2)] ref_key_place(3) [OF assms(2,3) that(1)]
    by (simp add: reference_of_def)
  then show ?thesis
    using assms(4) by (auto simp: record_keys_def)
qed

lemma update_each_keys:
  assumes ok: "record_ok h r i old" "record_ok h r i new" "resource_ok r"
    and "distinct ps" and "set ps \<subseteq> fst ` set (pr_partitions r)"
    and "update_each h fails r old new ps st = ([], st')"
  shows "ref_keys st' = ref_keys st - record_keys h r i old (set ps) \<union> record_keys h r i new (set ps)"
  using assms(4-)
proof (induction ps arbitrary: st)
  case (Cons p ps)
  obtain u st1 where upd: "handleReferenceUpdate h fails r p old new st = (Inr u, st1)"
    and rest: "update_each h fails r old new ps st1 = ([], st')"
    using Cons.prems(3) by (auto split: prod.splits sum.splits)
  have "ref_keys st' = ref_keys st1 - record_keys h r i old (set ps) \<union> record_keys h r i new (set ps)"
    using Cons.prems rest by (intro Cons.IH) auto
  moreover have "ref_keys st1 = ref_keys st - set_option (ref_key h r i old p) \<union> set_option (ref_key h r i new p)"
    using Cons.prems(2) by (intro update_step_keys [OF ok(1,2) _ upd]) simp
  moreover have "set_option (ref_key h r i new p) \<inter> record_keys h r i old (set ps) = {}"
    using Cons.prems(1) by (intro ref_keys_disjoint [OF ok]) simp
  ultimately show ?case
    by (simp only: list.set record_keys_insert) blast
qed simp

lemma cleanup_partition_keys:
  assumes "record_ok h r i new" and "p \<in> fst ` set (pr_partitions r)"
    and "cleanup_partition h fails r (Some i) new p st = (Inr u, st')"
  shows "ref_keys st' = {k \<in> ref_keys st. \<not> (reference_of r i p k \<and> ref_key h r i new p \<noteq> Some k)}"
proof -
  let ?stale = "filter (\<lambda>k. ends_with k (ju ''/id='' @ i) \<and> Some k \<noteq> ref_key h r i new p)
    (getAllKeys (partition_prefix r p) st)"
  have "ref_keys st' = ref_keys st - set ?stale"
    using assms(3) getKey_ok [OF assms(1,2)]
    by (cases "?stale = []") (auto simp: cleanup_partition_def Let_def id_text_def deleteKeys_keys simp del: set_filter
        split: if_splits dest!: deleteKeys_keys)
  also have "\<dots> = {k \<in> ref_keys st. \<not> (reference_of r i p k \<and> ref_key h r i new p \<noteq> Some k)}"
    by (auto simp: reference_of_def)
  finally show ?thesis .
qed

lemma cleanup_each_keys:
  assumes "record_ok h r i new" and "set ps \<subseteq> fst ` set (pr_partitions r)"
    and "cleanup_each h fails r (Some i) new ps st = ([], st')"
  shows "ref_keys st' = {k \<in> ref_keys st. \<forall>p \<in> set ps. reference_of r i p k \<longrightarrow> ref_key h r i new p = Some k}"
  using assms(2,3)
proof (induction ps arbitrary: st)
  case (Cons p ps)
  obtain u st1 where clean: "cleanup_partition h fails r (Some i) new p st = (Inr u, st1)"
    and rest: "cleanup_each h fails r (Some i) new ps st1 = ([], st')"
    using Cons.prems(2) by (auto split: prod.splits sum.splits)
  have "ref_keys st1 = {k \<in> ref_keys st. \<not> (reference_of r i p k \<and> ref_key h r i new p \<noteq> Some k)}"
    using Cons.prems(1) by (intro cleanup_partition_keys [OF assms(1) _ clean]) simp
  moreover have "ref_keys st' = {k \<in> ref_keys st1. \<forall>p \<in> set ps. reference_of r i p k \<longrightarrow> ref_key h r i new p = Some k}"
    using Cons.prems(1) rest by (intro Cons.IH) auto
  ultimately show ?case
    by auto
qed simp

abbreviation partition_names :: "part_resource \<Rightarrow> ustring set" where
  "partition_names r \<equiv> fst ` set (pr_partitions r)"

lemma record_keys_place:
  assumes "record_ok h r i data" and "resource_ok r" and "k \<in> record_keys h r i data ps"
  shows "\<exists>p \<in> partition_names r. reference_of r i p k"
    and "q \<in> partition_names r \<Longrightarrow> reference_of r i q k \<Longrightarrow> ref_key h r i data q = Some k"
proof -
  obtain p where p: "ref_key h r i data p = Some k"
    using assms(3) by (auto simp: record_keys_def)
  note place = ref_key_place [OF assms(1,2) p]
  show "\<exists>p \<in> partition_names r. reference_of r i p k"
    using place(1,2) by blast
  show "ref_key h r i data q = Some k" if "q \<in> partition_names r" "reference_of r i q k"
    using place(3) [OF that(1)] that(2) p by (simp add: reference_of_def)
qed

text \<open>An update that returns, whatever requests fail and whatever is in the store before it.\<close>

lemma updates_keys:
  assumes ok: "record_ok h r i old" "record_ok h r i new" "resource_ok r"
    and res: "handleReferenceUpdates h fails r old new st = (Inr u, st')"
  shows "ref_keys st' = {k \<in> ref_keys st. \<forall>p \<in> partition_names r. \<not> reference_of r i p k} \<union>
    record_keys h r i new (partition_names r)"
proof (cases "pr_partitions r = []")
  case True
  then show ?thesis
    using res by (simp add: handleReferenceUpdates_def obj_keys_def obj_entries_def Let_def)
next
  case False
  let ?names = "obj_keys (pr_partitions r)"
  have names: "?names \<noteq> []" "set ?names = partition_names r" "distinct ?names"
    using False ok(3) by (auto simp: distinct_obj_keys resource_ok_def simp flip: set_empty)
  have old: "old \<noteq> []" and id: "truthy_id (data_id new) (data_id old) = Some i"
    using ok(1,2) by (auto simp: record_ok_def truthy_id_def data_id_def)
  obtain st1 where upd: "update_each h fails r old new ?names st = ([], st1)"
    and clean: "cleanup_each h fails r (Some i) new ?names st1 = ([], st')"
    using res names(1) old by (auto simp: handleReferenceUpdates_def Let_def id split: prod.splits list.splits)
  have keys1: "ref_keys st1 = ref_keys st - record_keys h r i old (partition_names r) \<union> record_keys h r i new (partition_names r)"
    using update_each_keys [OF ok names(3) _ upd] by (simp add: names(2))
  have keys2: "ref_keys st' = {k \<in> ref_keys st1. \<forall>p \<in> partition_names r. reference_of r i p k \<longrightarrow> ref_key h r i new p = Some k}"
    using cleanup_each_keys [OF ok(2) _ clean] by (simp add: names(2))
  have iff: "k \<in> ref_keys st' \<longleftrightarrow> (k \<in> ref_keys st \<and> (\<forall>p \<in> partition_names r. \<not> reference_of r i p k)) \<or>
      k \<in> record_keys h r i new (partition_names r)" for k
  proof (cases "k \<in> record_keys h r i new (partition_names r)")
    case True
    then show ?thesis
      using record_keys_place(2) [OF ok(2,3) True] by (simp add: keys1 keys2)
  next
    case False
    then have "p \<in> partition_names r \<Longrightarrow> ref_key h r i new p \<noteq> Some k" for p
      by (auto simp: record_keys_def)
    moreover have "k \<notin> record_keys h r i old (partition_names r)"
      if "\<forall>p \<in> partition_names r. \<not> reference_of r i p k"
      using record_keys_place(1) [OF ok(1,3)] that by blast
    ultimately show ?thesis
      using False by (simp add: keys1 keys2) blast
  qed
  show ?thesis
    by (rule set_eqI) (simp only: iff Un_iff mem_Collect_eq)
qed

section \<open>Sequences of operations\<close>

text \<open>
  The operations of a resource as the references see them: \<open>insert\<close>, \<open>update\<close> and \<open>delete\<close> of
  \<open>src/core/resource-persistence.class.ts\<close>, with the records that are stored. A write hands the
  references a task, which runs before the operation returns, or, with \<open>asyncPartitions\<close>, waits in the
  queue of \<open>setImmediate\<close> (the default). What a task throws does not undo the write in any of the
  modes, and is swallowed unless \<open>strictPartitions\<close> is set. A task runs to its end before the next starts.
\<close>

datatype part_op = InsertOp "part_value jsobj" | UpdateOp "part_value jsobj" | DeleteOp ustring

datatype part_task =
    TaskCreate "part_value jsobj" | TaskUpdate "part_value jsobj" "part_value jsobj" | TaskDelete "part_value jsobj"

datatype resource_event = WriteEvent part_op | RunEvent

type_synonym part_state = "part_value jsobj jsobj \<times> ref_store"

abbreviation no_failure :: "ref_request \<Rightarrow> bool" where
  "no_failure \<equiv> \<lambda>q. False"

fun write_op :: "part_op \<Rightarrow> part_value jsobj jsobj \<Rightarrow> part_task option \<times> part_value jsobj jsobj" where
  "write_op (InsertOp d) live = (case data_id d of
     None \<Rightarrow> (None, live)
   | Some i \<Rightarrow> if map_of live i \<noteq> None then (None, live) else (Some (TaskCreate d), AList.update i d live))"
| "write_op (UpdateOp d) live = (case data_id d of
     None \<Rightarrow> (None, live)
   | Some i \<Rightarrow> (case map_of live i of
       None \<Rightarrow> (None, live)
     | Some old \<Rightarrow> (Some (TaskUpdate old d), AList.update i d live)))"
| "write_op (DeleteOp i) live = (case map_of live i of
     None \<Rightarrow> (None, live)
   | Some d \<Rightarrow> (Some (TaskDelete d), AList.delete i live))"

fun run_task :: "part_host \<Rightarrow> (ref_request \<Rightarrow> bool) \<Rightarrow> part_resource \<Rightarrow> part_task \<Rightarrow> ref_store \<Rightarrow> ref_store" where
  "run_task h fails r (TaskCreate d) st = snd (createReferences h fails r d st)"
| "run_task h fails r (TaskUpdate old d) st = snd (handleReferenceUpdates h fails r old d st)"
| "run_task h fails r (TaskDelete d) st = snd (deleteReferences h fails r d st)"

fun resource_step :: "part_host \<Rightarrow> (ref_request \<Rightarrow> bool) \<Rightarrow> part_resource \<Rightarrow> bool \<Rightarrow> resource_event \<Rightarrow>
    part_value jsobj jsobj \<times> ref_store \<times> part_task list \<Rightarrow> part_value jsobj jsobj \<times> ref_store \<times> part_task list" where
  "resource_step h fails r async (WriteEvent op) (live, st, ts) = (case write_op op live of
     (None, live) \<Rightarrow> (live, st, ts)
   | (Some t, live) \<Rightarrow> if async then (live, st, ts @ [t]) else (live, run_task h fails r t st, ts))"
| "resource_step h fails r async RunEvent (live, st, []) = (live, st, [])"
| "resource_step h fails r async RunEvent (live, st, t # ts) = (live, run_task h fails r t st, ts)"

fun op_ok :: "part_host \<Rightarrow> part_resource \<Rightarrow> part_op \<Rightarrow> bool" where
  "op_ok h r (InsertOp d) = (case data_id d of None \<Rightarrow> False | Some i \<Rightarrow> record_ok h r i d)"
| "op_ok h r (UpdateOp d) = (case data_id d of None \<Rightarrow> False | Some i \<Rightarrow> record_ok h r i d)"
| "op_ok h r (DeleteOp i) = True"

fun event_ok :: "part_host \<Rightarrow> part_resource \<Rightarrow> resource_event \<Rightarrow> bool" where
  "event_ok h r (WriteEvent op) = op_ok h r op"
| "event_ok h r RunEvent = True"

lemma createReferences_keys:
  assumes "record_ok h r i data"
  shows "ref_keys (snd (createReferences h no_failure r data st)) =
    ref_keys st \<union> record_keys h r i data (partition_names r)"
proof -
  have "fst (create_each h no_failure r data ps st) = []" if "set ps \<subseteq> partition_names r" for ps st
    using that
  proof (induction ps arbitrary: st)
    case (Cons p ps)
    have "getKey h r p (data_id data) data = Inr (ref_key h r i data p)"
      using getKey_ok [OF assms] assms Cons.prems by (simp add: record_ok_def)
    then show ?case
      using Cons by (auto simp: putReference_def Let_def split: prod.splits option.splits)
        (metis fst_conv)+
  qed simp
  then have "create_each h no_failure r data (obj_keys (pr_partitions r)) st =
      ([], snd (createReferences h no_failure r data st))"
    by (simp add: createReferences_def prod_eq_iff)
  from create_each_keys [OF assms _ this] show ?thesis
    by simp
qed

lemma deleteReferences_keys:
  assumes "record_ok h r i data"
  shows "ref_keys (snd (deleteReferences h no_failure r data st)) =
    ref_keys st - record_keys h r i data (partition_names r)"
proof -
  obtain ks where "keys_of_record h r (Some i) data (obj_keys (pr_partitions r)) = Inr ks"
    and "set ks = record_keys h r i data (partition_names r)"
    using keys_of_record_set [OF assms, of "obj_keys (pr_partitions r)"] by auto
  then show ?thesis
    using assms by (auto simp: deleteReferences_def record_ok_def deleteKeys_def)
qed

lemma updates_return:
  assumes ok: "record_ok h r i old" "record_ok h r i new"
  shows "fst (handleReferenceUpdates h no_failure r old new st) = Inr ()"
proof -
  have id: "truthy_id (data_id new) (data_id old) = Some i"
    using ok by (simp add: record_ok_def truthy_id_def)
  have step: "fst (handleReferenceUpdate h no_failure r p old new st) = Inr ()" if "p \<in> partition_names r" for p st
    using getKey_ok [OF ok(1) that] getKey_ok [OF ok(2) that]
    by (simp add: handleReferenceUpdate_def Let_def id putReference_def deleteReference_def split: option.split)
  have clean: "fst (cleanup_partition h no_failure r (Some i) new p st) = Inr ()" if "p \<in> partition_names r" for p st
    using getKey_ok [OF ok(2) that] by (simp add: cleanup_partition_def Let_def deleteKeys_def)
  have all: "fst (update_each h no_failure r old new ps st) = []" if "set ps \<subseteq> partition_names r" for ps st
    using that
  proof (induction ps arbitrary: st)
    case (Cons p ps)
    then have "fst (handleReferenceUpdate h no_failure r p old new st) = Inr ()"
      by (intro step) simp
    with Cons show ?case
      by (simp add: case_prod_unfold)
  qed simp
  have cleaned: "fst (cleanup_each h no_failure r (Some i) new ps st) = []" if "set ps \<subseteq> partition_names r" for ps st
    using that
  proof (induction ps arbitrary: st)
    case (Cons p ps)
    then have "fst (cleanup_partition h no_failure r (Some i) new p st) = Inr ()"
      by (intro clean) simp
    with Cons show ?case
      by (simp add: case_prod_unfold)
  qed simp
  have "fst x = [] \<Longrightarrow> \<exists>y. x = ([], y)" for x :: "part_error list \<times> ref_store"
    by (cases x) simp
  then obtain st1 st2 where "update_each h no_failure r old new (obj_keys (pr_partitions r)) st = ([], st1)"
    and "cleanup_each h no_failure r (Some i) new (obj_keys (pr_partitions r)) st1 = ([], st2)"
    using all cleaned by (metis order_refl set_obj_keys)
  then show ?thesis
    by (simp add: handleReferenceUpdates_def Let_def id)
qed

definition part_inv :: "part_host \<Rightarrow> part_resource \<Rightarrow> part_state \<Rightarrow> bool" where
  "part_inv h r s \<longleftrightarrow> (\<forall>i d. map_of (fst s) i = Some d \<longrightarrow> record_ok h r i d) \<and>
     ref_keys (snd s) = {k. \<exists>i d. map_of (fst s) i = Some d \<and> k \<in> record_keys h r i d (partition_names r)}"

text \<open>The references of one record and those of another have different ids at their ends.\<close>

lemma other_reference:
  assumes "resource_ok r" and "record_ok h r i d" and "record_ok h r j e"
    and "k \<in> record_keys h r i d (partition_names r)" and "p \<in> partition_names r" and "reference_of r j p k"
  shows "i = j"
proof -
  obtain q where "ref_key h r i d q = Some k"
    using assms(4) by (auto simp: record_keys_def)
  moreover have "47 \<notin> set j"
    using assms(3) by (simp add: record_ok_def)
  ultimately show ?thesis
    using ref_key_place(4) [OF assms(2,1)] assms(6) by blast
qed

text \<open>The keys of the records other than \<open>i\<close>.\<close>

definition other_keys :: "part_host \<Rightarrow> part_resource \<Rightarrow> ustring \<Rightarrow> part_value jsobj jsobj \<Rightarrow> ustring set" where
  "other_keys h r i live = {k. \<exists>j e. j \<noteq> i \<and> map_of live j = Some e \<and> k \<in> record_keys h r j e (partition_names r)}"

lemma part_inv_iff:
  "part_inv h r (live, st) \<longleftrightarrow> (\<forall>i d. map_of live i = Some d \<longrightarrow> record_ok h r i d) \<and>
     ref_keys st = other_keys h r i live \<union>
       (case map_of live i of None \<Rightarrow> {} | Some d \<Rightarrow> record_keys h r i d (partition_names r))"
proof -
  have "(\<exists>j e. map_of live j = Some e \<and> k \<in> record_keys h r j e (partition_names r)) \<longleftrightarrow>
      k \<in> other_keys h r i live \<union> (case map_of live i of None \<Rightarrow> {} | Some d \<Rightarrow> record_keys h r i d (partition_names r))" for k
    unfolding other_keys_def by (cases "map_of live i") (simp_all, metis option.distinct(1), metis option.inject)
  then show ?thesis
    by (simp add: part_inv_def Un_def)
qed

lemma other_keys_update [simp]:
  "other_keys h r i (AList.update i d live) = other_keys h r i live"
  "other_keys h r i (AList.delete i live) = other_keys h r i live"
  by (auto simp: other_keys_def map_of_update map_of_delete)

lemma part_inv_insert:
  assumes "part_inv h r (live, st)" and "record_ok h r i d" and "map_of live i = None"
  shows "part_inv h r (AList.update i d live, snd (createReferences h no_failure r d st))"
  using assms unfolding part_inv_iff [of h r _ _ i]
  by (simp add: createReferences_keys map_of_update)

lemma other_keys_apart:
  assumes "part_inv h r (live, st)" and "resource_ok r" and "record_ok h r i d"
  shows "k \<in> other_keys h r i live \<Longrightarrow> p \<in> partition_names r \<Longrightarrow> \<not> reference_of r i p k"
  using other_reference [OF assms(2) _ assms(3)] assms(1)
  unfolding other_keys_def part_inv_def by fastforce

lemma part_inv_update:
  assumes inv: "part_inv h r (live, st)" and r: "resource_ok r" and d: "record_ok h r i d" and old: "map_of live i = Some old"
  shows "part_inv h r (AList.update i d live, snd (handleReferenceUpdates h no_failure r old d st))"
proof -
  have ok: "record_ok h r i old"
    using inv old by (simp add: part_inv_def)
  obtain st' where res: "handleReferenceUpdates h no_failure r old d st = (Inr (), st')"
    using updates_return [OF ok d] by (metis prod.collapse)
  have st: "ref_keys st = other_keys h r i live \<union> record_keys h r i old (partition_names r)"
    using inv old by (simp add: part_inv_iff [of h r live st i])
  have "{k \<in> ref_keys st. \<forall>p \<in> partition_names r. \<not> reference_of r i p k} = other_keys h r i live"
  proof (rule set_eqI)
    fix k
    show "k \<in> {k \<in> ref_keys st. \<forall>p \<in> partition_names r. \<not> reference_of r i p k} \<longleftrightarrow> k \<in> other_keys h r i live"
      using other_keys_apart [OF inv r d, of k] record_keys_place(1) [OF ok r, of k "partition_names r"]
      unfolding st mem_Collect_eq Un_iff by blast
  qed
  then have "ref_keys st' = other_keys h r i live \<union> record_keys h r i d (partition_names r)"
    using updates_keys [OF ok d r res] by simp
  then show ?thesis
    using inv d by (simp add: part_inv_iff [of h r _ _ i] res map_of_update)
qed

lemma part_inv_delete:
  assumes inv: "part_inv h r (live, st)" and r: "resource_ok r" and d: "map_of live i = Some d"
  shows "part_inv h r (AList.delete i live, snd (deleteReferences h no_failure r d st))"
proof -
  have ok: "record_ok h r i d"
    using inv d by (simp add: part_inv_def)
  have st: "ref_keys st = other_keys h r i live \<union> record_keys h r i d (partition_names r)"
    using inv d by (simp add: part_inv_iff [of h r live st i])
  have "other_keys h r i live \<inter> record_keys h r i d (partition_names r) = {}"
    unfolding disjoint_iff
  proof (intro allI impI notI)
    fix k
    assume "k \<in> other_keys h r i live" and "k \<in> record_keys h r i d (partition_names r)"
    then show False
      using other_keys_apart [OF inv r ok, of k] record_keys_place(1) [OF ok r, of k "partition_names r"] by blast
  qed
  then have "ref_keys st - record_keys h r i d (partition_names r) = other_keys h r i live"
    unfolding st by blast
  then show ?thesis
    using inv by (simp add: part_inv_iff [of h r _ _ i] deleteReferences_keys [OF ok] map_of_delete)
qed

text \<open>What a queued task will have made of the records whose references are written.\<close>

fun task_live :: "part_task \<Rightarrow> part_value jsobj jsobj \<Rightarrow> part_value jsobj jsobj" where
  "task_live (TaskCreate d) live = AList.update (the (data_id d)) d live"
| "task_live (TaskUpdate old d) live = AList.update (the (data_id d)) d live"
| "task_live (TaskDelete d) live = AList.delete (the (data_id d)) live"

fun task_ok :: "part_host \<Rightarrow> part_resource \<Rightarrow> part_task \<Rightarrow> part_value jsobj jsobj \<Rightarrow> bool" where
  "task_ok h r (TaskCreate d) live \<longleftrightarrow> (\<exists>i. record_ok h r i d \<and> map_of live i = None)"
| "task_ok h r (TaskUpdate old d) live \<longleftrightarrow> (\<exists>i. record_ok h r i d \<and> map_of live i = Some old)"
| "task_ok h r (TaskDelete d) live \<longleftrightarrow> (\<exists>i. record_ok h r i d \<and> map_of live i = Some d)"

fun tasks_ok :: "part_host \<Rightarrow> part_resource \<Rightarrow> part_task list \<Rightarrow> part_value jsobj jsobj \<Rightarrow> part_value jsobj jsobj \<Rightarrow> bool" where
  "tasks_ok h r [] old live \<longleftrightarrow> old = live"
| "tasks_ok h r (t # ts) old live \<longleftrightarrow> task_ok h r t old \<and> tasks_ok h r ts (task_live t old) live"

lemma tasks_ok_snoc: "tasks_ok h r (ts @ [t]) old live \<longleftrightarrow> (\<exists>mid. tasks_ok h r ts old mid \<and> task_ok h r t mid \<and> task_live t mid = live)"
  by (induction ts arbitrary: old) auto

lemma record_ok_id: "record_ok h r i d \<Longrightarrow> data_id d = Some i"
  by (simp add: record_ok_def)

lemma part_inv_task:
  assumes "resource_ok r" "part_inv h r (live, st)" "task_ok h r t live"
  shows "part_inv h r (task_live t live, run_task h no_failure r t st)"
  using assms by (cases t) (auto simp: record_ok_id intro: part_inv_insert part_inv_update part_inv_delete)

lemma write_task:
  assumes "op_ok h r op" "write_op op live = (Some t, live')" "\<forall>i d. map_of live i = Some d \<longrightarrow> record_ok h r i d"
  shows "task_ok h r t live \<and> task_live t live = live' \<and> (\<forall>i d. map_of live' i = Some d \<longrightarrow> record_ok h r i d)"
proof (cases op)
  case (DeleteOp i)
  then obtain d where d: "map_of live i = Some d" "t = TaskDelete d" "live' = AList.delete i live"
    using assms(2) by (auto split: option.splits)
  then have "data_id d = Some i"
    using assms(3) record_ok_id by blast
  then show ?thesis
    using d assms(3) by (auto simp: map_of_delete)
qed (use assms in \<open>auto simp: record_ok_id map_of_update map_of_delete split: option.splits if_splits\<close>)

lemma write_none: "write_op op live = (None, live') \<Longrightarrow> live' = live"
  by (cases op) (auto split: option.splits if_splits)

definition resource_inv :: "part_host \<Rightarrow> part_resource \<Rightarrow> bool \<Rightarrow> part_value jsobj jsobj \<times> ref_store \<times> part_task list \<Rightarrow> bool" where
  "resource_inv h r async s = (case s of (live, st, ts) \<Rightarrow> (\<not> async \<longrightarrow> ts = []) \<and> distinct (map fst live) \<and>
     (\<forall>i d. map_of live i = Some d \<longrightarrow> record_ok h r i d) \<and> (\<exists>old. part_inv h r (old, st) \<and> tasks_ok h r ts old live))"

lemma task_distinct: "distinct (map fst live) \<Longrightarrow> distinct (map fst (task_live t live))"
  by (cases t) (simp_all add: distinct_update distinct_delete)

lemma resource_inv_step:
  assumes r: "resource_ok r" and ev: "event_ok h r ev" and inv: "resource_inv h r async s"
  shows "resource_inv h r async (resource_step h no_failure r async ev s)"
proof -
  obtain live st ts where s: "s = (live, st, ts)" by (cases s)
  obtain old where I: "async \<or> ts = []" "distinct (map fst live)" "\<forall>i d. map_of live i = Some d \<longrightarrow> record_ok h r i d"
    "part_inv h r (old, st)" "tasks_ok h r ts old live"
    using inv by (auto simp: s resource_inv_def)
  show ?thesis
  proof (cases ev)
    case (WriteEvent op)
    obtain t live' where w: "write_op op live = (t, live')" by fastforce
    show ?thesis
    proof (cases t)
      case None
      then have "live' = live"
        using w write_none by simp
      with None w inv show ?thesis
        by (simp add: WriteEvent s)
    next
      case (Some u)
      with write_task [OF _ _ I(3), of op u live'] w ev
      have u: "task_ok h r u live" "task_live u live = live'" "\<forall>i d. map_of live' i = Some d \<longrightarrow> record_ok h r i d"
        by (simp_all add: WriteEvent)
      have "distinct (map fst live')"
        using task_distinct [OF I(2), of u] u(2) by simp
      moreover have "tasks_ok h r (ts @ [u]) old live'"
        using I(5) u by (auto simp: tasks_ok_snoc)
      moreover have "\<not> async \<Longrightarrow> part_inv h r (live', run_task h no_failure r u st)"
        using part_inv_task [OF r _ u(1)] I u(2) by auto
      ultimately show ?thesis
        using I u(3) w Some by (auto simp: WriteEvent s resource_inv_def)
    qed
  next
    case RunEvent
    show ?thesis
    proof (cases ts)
      case Nil
      with inv show ?thesis by (simp add: RunEvent s)
    next
      case (Cons t ts')
      have "part_inv h r (task_live t old, run_task h no_failure r t st)"
        by (rule part_inv_task [OF r I(4)]) (use I(5) Cons in simp)
      with I Cons show ?thesis
        by (auto simp: RunEvent s resource_inv_def)
    qed
  qed
qed

lemma references_run:
  assumes "resource_ok r" "list_all (event_ok h r) evs"
    and "fold (resource_step h no_failure r async) evs ([], [], []) = (live, st, [])"
  shows "part_inv h r (live, st)" "distinct (map fst live)"
proof -
  have "resource_inv h r async (fold (resource_step h no_failure r async) evs s)" if "resource_inv h r async s" for s
    using assms(2) that by (induction evs arbitrary: s) (simp_all add: resource_inv_step [OF assms(1)])
  moreover have "resource_inv h r async ([], [], [])"
    by (simp add: resource_inv_def part_inv_def)
  ultimately have "resource_inv h r async (live, st, [])"
    using assms(3) by metis
  then show "part_inv h r (live, st)" "distinct (map fst live)"
    by (auto simp: resource_inv_def)
qed

section \<open>Sample resources\<close>

definition sample_host :: part_host where
  "sample_host = \<lparr>ph_collate = map unat, ph_parseDate = (\<lambda>s. None)\<rparr>"

definition sample_resource :: "part_fields jsobj \<Rightarrow> part_resource" where
  "sample_resource partitions = \<lparr>pr_name = ju ''orders'', pr_version = ju ''v1'', pr_partitions = partitions,
     pr_attributes = [(ju ''region'', VStr (ju ''string'')), (ju ''country'', VStr (ju ''string''))],
     pr_strict = True\<rparr>"

definition by_region :: "ustring \<times> part_fields" where
  "by_region = (ju ''byRegion'', [(ju ''region'', ju ''string'')])"

definition by_region_country :: "ustring \<times> part_fields" where
  "by_region_country = (ju ''byRegionCountry'', [(ju ''region'', ju ''string''), (ju ''country'', ju ''string'')])"

definition sample_order :: "string \<Rightarrow> string \<Rightarrow> part_value jsobj" where
  "sample_order i region = [(ju ''id'', Js (VStr (ju i))), (ju ''region'', Js (VStr (ju region))),
     (ju ''country'', Js (VStr (ju ''CA'')))]"

section \<open>Theorems\<close>


definition queued_events :: "resource_event list" where
  "queued_events = [WriteEvent (InsertOp (sample_order ''o1'' ''US'')), WriteEvent (UpdateOp (sample_order ''o1'' ''BR'')),
     RunEvent, WriteEvent (InsertOp (sample_order ''o2'' ''US'')), RunEvent, WriteEvent (DeleteOp (ju ''o2'')), RunEvent, RunEvent]"




text \<open>
  C25 (partition names). When the name of a partition begins with the name of another, no update leaves the
  reference of the longer-named partition: the cleanup of the other one lists its keys too and deletes
  the valid one. An update that returns, of any record without slashes that has a key in the
  longer-named partition, ends without that key.
\<close>
theorem cleanup_deletes_other_partition:
  assumes r: "slash_free r" and ok: "record_ok h r i newData" and p: "p \<in> partition_names r"
    and names: "starts_with q p" "q \<noteq> p" and k: "q \<in> partition_names r" "getKey h r q (Some i) newData = Inr (Some k)"
    and res: "oldData \<noteq> []" "handleReferenceUpdates h fails r oldData newData st = (Inr (), st')"
  shows "k \<notin> ref_keys st'"
proof -
  have key: "ref_key h r i newData q = Some k"
    using k by (simp add: ref_key_def)
  have form: "\<exists>ss. split_on 47 k = part_root r x @ ss \<and> starts_with k (partition_prefix r x) \<and> ends_with k (ju ''/id='' @ i)"
    if x: "ref_key h r i newData x = Some k" for x
  proof -
    obtain ss where ss: "list_all plain_segment ss" "ss \<noteq> []" "plain_segment (ju ''id='' @ i)" "list_all plain_segment (part_root r x)"
      and eq: "k = join [47] (part_root r x @ ss @ [ju ''id='' @ i])"
      using ref_key_segments [OF ok r x] by blast
    have "split_on 47 k = part_root r x @ ss @ [ju ''id='' @ i]"
      unfolding eq by (rule split_on_join) (use ss in \<open>auto simp: list_all_iff plain_segment_def\<close>)
    moreover have "k = partition_prefix r x @ 47 # join [47] (ss @ [ju ''id='' @ i])"
      using ss(2) by (cases ss) (simp_all add: eq part_root_def partition_prefix_def)
    moreover have "k = join [47] (part_root r x @ ss) @ ju ''/id='' @ i"
      using join_snoc [of "part_root r x @ ss" "[47]" "ju ''id='' @ i"] by (simp add: eq part_root_def js_simps)
    ultimately show ?thesis
      unfolding ends_with_iff starts_with_iff by blast
  qed
  have other: "ref_key h r i newData p \<noteq> Some k"
    using form [of p] form [OF key] names(2) by (auto simp: part_root_def)
  obtain x where x: "partition_prefix r q = partition_prefix r p @ x"
    using names(1) by (auto simp: starts_with_iff partition_prefix_def part_root_def)
  obtain y where "k = partition_prefix r q @ y"
    using form [OF key] by (auto simp: starts_with_iff)
  then have "reference_of r i p k"
    using form [OF key] by (auto simp: reference_of_def x starts_with_iff)
  moreover have id: "truthy_id (data_id newData) (data_id oldData) = Some i"
    using ok by (simp add: record_ok_def truthy_id_def)
  have "obj_keys (pr_partitions r) \<noteq> []"
    using p by (metis empty_iff empty_set image_is_empty set_obj_keys)
  then obtain st1 where clean: "cleanup_each h fails r (Some i) newData (obj_keys (pr_partitions r)) st1 = ([], st')"
    using res by (auto simp: handleReferenceUpdates_def Let_def id split: prod.splits list.splits)
  have "ref_keys st' = {k \<in> ref_keys st1. \<forall>p \<in> partition_names r. reference_of r i p k \<longrightarrow> ref_key h r i newData p = Some k}"
    using cleanup_each_keys [OF ok _ clean] unfolding set_obj_keys by blast
  ultimately show ?thesis
    using p other by blast
qed

lemma cleanup_deletes_other_partition_witness:
  "let r = sample_resource [by_region, by_region_country]; d = sample_order ''o1'' ''US'';
       st = snd (createReferences sample_host no_failure r d [])
   in map_of st (ju ''resource=orders/partition=byRegionCountry/country=CA/region=US/id=o1'') = Some (ju ''v1'') \<and>
      ju ''resource=orders/partition=byRegionCountry/country=CA/region=US/id=o1'' \<notin>
        ref_keys (snd (handleReferenceUpdates sample_host no_failure r d d st))"
  unfolding Let_def
proof
  show "ju ''resource=orders/partition=byRegionCountry/country=CA/region=US/id=o1'' \<notin> ref_keys (snd (handleReferenceUpdates
      sample_host no_failure (sample_resource [by_region, by_region_country]) (sample_order ''o1'' ''US'') (sample_order ''o1'' ''US'')
      (snd (createReferences sample_host no_failure (sample_resource [by_region, by_region_country]) (sample_order ''o1'' ''US'') []))))"
    by (rule cleanup_deletes_other_partition [where p = "ju ''byRegion''" and q = "ju ''byRegionCountry''" and i = "ju ''o1''"
          and fails = no_failure and oldData = "sample_order ''o1'' ''US''" and newData = "sample_order ''o1'' ''US''"
          and h = sample_host and r = "sample_resource [by_region, by_region_country]" and st = "snd (createReferences sample_host
            no_failure (sample_resource [by_region, by_region_country]) (sample_order ''o1'' ''US'') [])"],
        code_simp, code_simp, code_simp, code_simp, code_simp, code_simp, code_simp, code_simp,
        simp only: prod_eq_iff fst_conv snd_conv simp_thms, code_simp)
qed code_simp

text \<open>
  Partition escape. A field value with \<open>..\<close> leaves the partition: inserting an order whose region
  is \<open>x/../../../resource=users/data\<close> writes the reference over the key of the user with its id.
\<close>
theorem partition_key_escapes:
  "map_of (snd (createReferences sample_host no_failure (sample_resource [by_region])
     (sample_order ''7'' ''x/../../../resource=users/data'') [])) (ju ''resource=users/data/id=7'') = Some (ju ''v1'')"
  by code_simp

text \<open>
  Stale listing. \<open>replace\<close> gives an empty old record to the reference updates, so the reference of
  the values before stays, and the old partition lists the record; the listing of \<open>US\<close> has the
  orders of \<open>US2\<close> too, because the prefix does not end at the value.
\<close>
theorem listing_has_other_values:
  "let r = sample_resource [by_region]; p = ju ''byRegion''; US = [(ju ''region'', Js (VStr (ju ''US'')))];
       st = snd (createReferences sample_host no_failure r (sample_order ''o1'' ''US'') []);
       replaced = handleReferenceUpdates sample_host no_failure r [] (sample_order ''o1'' ''BR'') st;
       st2 = snd (createReferences sample_host no_failure r (sample_order ''o2'' ''US2'') [])
   in fst replaced = Inr () \<and>
      listIds sample_host r (Some p) US 0 0 (snd replaced) = Inr [ju ''o1''] \<and>
      listIds sample_host r (Some p) US 0 0 st2 = Inr [ju ''o2'']"
  by code_simp

section \<open>Reading a key\<close>

definition field_names_ok :: "part_fields \<Rightarrow> bool" where
  "field_names_ok flds \<longleftrightarrow> distinct (map fst flds) \<and> list_all (\<lambda>f. 61 \<notin> set f \<and>
     f \<noteq> ju ''resource'' \<and> f \<noteq> ju ''partition'' \<and> f \<noteq> ju ''id'') (map fst flds)"

definition rule_value :: "part_host \<Rightarrow> part_value jsobj \<Rightarrow> ustring \<times> ustring \<Rightarrow> part_value" where
  "rule_value h data = (\<lambda>(f, rule). case applyRule h (getNestedFieldValue data f) rule of
     Inl e \<Rightarrow> Js VUndef | Inr v \<Rightarrow> v)"

lemma key_segments_map:
  assumes "key_segments h data fs = Inr (Some ss)"
  shows "ss = map (\<lambda>p. field_segment (fst p) (rule_value h data p)) fs \<and>
    (\<forall>p \<in> set fs. applyRule h (getNestedFieldValue data (fst p)) (snd p) = Inr (rule_value h data p))"
  using assms
proof (induction fs arbitrary: ss)
  case (Cons p fs)
  obtain f rule where p: "p = (f, rule)"
    by (cases p)
  then obtain v rest where v: "applyRule h (getNestedFieldValue data f) rule = Inr v"
    and "key_segments h data fs = Inr (Some rest)" and "ss = field_segment f v # rest"
    using Cons.prems by (cases "key_segments h data fs") (auto split: sum.splits if_splits)
  moreover from v have "rule_value h data p = v"
    by (simp add: rule_value_def p)
  ultimately show ?case
    using Cons.IH [of rest] by (simp add: p)
qed simp

lemma find_unique: "x \<in> set xs \<Longrightarrow> P x \<Longrightarrow> \<forall>y \<in> set xs. y \<noteq> x \<longrightarrow> \<not> P y \<Longrightarrow> find P xs = Some x"
proof (induction xs)
  case (Cons a xs)
  show ?case
  proof (cases "P a")
    case False
    with Cons show ?thesis
      by auto
  qed (use Cons.prems(3) in auto)
qed simp

lemma first_part_eq: "x @ c # a = y @ c # b \<Longrightarrow> c \<notin> set x \<Longrightarrow> c \<notin> set y \<Longrightarrow> x = y"
  by (auto simp: append_eq_append_conv2 Cons_eq_append_conv append_eq_Cons_conv)

lemma extract_fields_map:
  assumes "distinct (map fst fs)" and "fst ` set fs \<inter> fst ` set acc = {}"
    and "\<forall>p \<in> set fs. find (\<lambda>part. starts_with part (fst p @ [61])) parts = Some (fst p @ 61 # txt p)"
  shows "extract_fields parts fs acc = acc @ map (\<lambda>p. (fst p, txt p)) fs"
  using assms
proof (induction fs arbitrary: acc)
  case (Cons p fs)
  have "AList.update (fst p) (txt p) acc = acc @ [(fst p, txt p)]"
    using Cons.prems(2) by (intro update_fresh) auto
  moreover have "extract_fields parts fs (acc @ [(fst p, txt p)]) =
      (acc @ [(fst p, txt p)]) @ map (\<lambda>p. (fst p, txt p)) fs"
    using Cons.prems by (intro Cons.IH) auto
  ultimately show ?case
    using Cons.prems(3) by (cases p) simp
qed simp


lemma partition_fields_mset: "mset (partition_sorted_fields h flds) = mset flds"
  by (simp add: partition_sorted_fields_def mset_obj_entries)

lemma partition_fields_facts:
  "set (partition_sorted_fields h flds) = set flds" "distinct (map fst (partition_sorted_fields h flds)) = distinct (map fst flds)"
  using partition_fields_mset [of h flds] by (metis set_mset_mset, metis mset_map mset_eq_imp_distinct_iff)

text \<open>The parts of a key: only the segment of \<open>f\<close> begins with \<open>f=\<close>.\<close>

lemma find_field:
  assumes names: "field_names_ok flds" and fs: "set fs = set flds" and p: "p \<in> set fs"
    and root: "\<forall>s \<in> set root. \<exists>n \<in> {ju ''resource'', ju ''partition'', ju ''id''}. \<exists>t. s = n @ 61 # t"
  shows "find (\<lambda>part. starts_with part (fst p @ [61])) (take 2 root @ map (\<lambda>p. fst p @ 61 # txt p) fs @ drop 2 root) =
    Some (fst p @ 61 # txt p)"
proof (rule find_unique)
  have fp: "61 \<notin> set (fst q)" "fst q \<notin> {ju ''resource'', ju ''partition'', ju ''id''}" if "q \<in> set fs" for q
    using names that fs by (auto simp: field_names_ok_def list_all_iff)
  have starts: "s = n @ 61 # t \<Longrightarrow> starts_with s (fst p @ [61]) \<Longrightarrow> 61 \<notin> set n \<Longrightarrow> n = fst p" for s n t
    using fp(1) [OF p] by (auto simp: starts_with_iff dest: first_part_eq)
  show "\<forall>y \<in> set (take 2 root @ map (\<lambda>p. fst p @ 61 # txt p) fs @ drop 2 root).
      y \<noteq> fst p @ 61 # txt p \<longrightarrow> \<not> starts_with y (fst p @ [61])"
  proof (intro ballI impI notI)
    fix y
    assume y: "y \<in> set (take 2 root @ map (\<lambda>p. fst p @ 61 # txt p) fs @ drop 2 root)"
      "y \<noteq> fst p @ 61 # txt p" "starts_with y (fst p @ [61])"
    then consider "y \<in> set root" | q where "q \<in> set fs" "y = fst q @ 61 # txt q"
      by (auto dest: in_set_takeD in_set_dropD)
    then show False
    proof cases
      case 1
      then obtain n t where n: "n \<in> {ju ''resource'', ju ''partition'', ju ''id''}" "y = n @ 61 # t"
        using root by blast
      moreover have "61 \<notin> set n"
        using n(1) by (auto simp: js_simps)
      ultimately show False
        using starts [OF n(2) y(3)] fp(2) [OF p] by metis
    next
      case 2
      then have "fst q = fst p"
        using starts y(3) fp(1) by blast
      then have "q = p"
        using names p 2(1) unfolding field_names_ok_def distinct_map fs by (auto dest: inj_onD)
      then show False
        using 2 y(2) by blast
    qed
  qed
qed (use p in \<open>auto simp: starts_with_iff\<close>)

text \<open>
  C26 (partition values). The values of a record read back from its partition key: extracting from it
  gives every field the text of its transformed value. The values have no slash, the partition
  names are free of slashes and of each other's prefixes, and the names of the fields are distinct, without
  an equals sign and not those of the segments that every key has.
\<close>
theorem partition_values_roundtrip:
  assumes "record_ok h r i data" and "resource_ok r" and flds: "map_of (pr_partitions r) p = Some flds"
    and names: "field_names_ok flds" and k: "getKey h r p (Some i) data = Inr (Some k)"
    and f: "(f, rule) \<in> set flds"
  shows "\<exists>v vals. applyRule h (getNestedFieldValue data f) rule = Inr v \<and>
    extractValuesFromKey i [k] (partition_sorted_fields h flds) = Inr vals \<and> map_of vals f = Some (part_text v)"
proof -
  let ?fs = "partition_sorted_fields h flds"
  let ?txt = "\<lambda>q. part_text (rule_value h data q)"
  let ?root = "[ju ''resource='' @ pr_name r, ju ''partition='' @ p, ju ''id='' @ i]"
  have fs: "set ?fs = set flds" "distinct (map fst ?fs)"
    using names by (simp_all add: partition_fields_facts field_names_ok_def)
  from assms(1) flds obtain ss where ss: "key_segments h data ?fs = Inr (Some ss)" "list_all plain_segment ss"
    and k': "k = path_join (part_root r p @ ss @ [ju ''id='' @ i])"
    by (cases rule: record_segments)
      (use assms(1) flds k in \<open>auto simp: getKey_def truthy_id_def record_ok_def split: if_splits\<close>)
  have p: "p \<in> partition_names r"
    using map_of_SomeD [OF flds] by (force simp: image_iff)
  then have plain: "list_all plain_segment (part_root r p @ ss @ [ju ''id='' @ i])"
    using assms(1,2) ss(2)
    by (auto simp: resource_ok_def record_ok_def list_all_iff part_root_def plain_segment_def js_simps)
  then have "k = join [47] (part_root r p @ ss @ [ju ''id='' @ i])"
    unfolding k' by (rule path_join_plain) simp
  moreover have "split_on 47 (join [47] (part_root r p @ ss @ [ju ''id='' @ i])) = part_root r p @ ss @ [ju ''id='' @ i]"
    by (rule split_on_join) (use plain in \<open>auto simp: plain_segment_def list_all_iff\<close>)
  moreover have "ss = map (\<lambda>q. fst q @ 61 # ?txt q) ?fs"
    using key_segments_map [OF ss(1)] by (simp add: field_segment_def)
  ultimately have parts: "split_on 47 k = take 2 ?root @ map (\<lambda>q. fst q @ 61 # ?txt q) ?fs @ drop 2 ?root"
    by (simp add: part_root_def)
  have "extract_fields (split_on 47 k) ?fs [] = [] @ map (\<lambda>q. (fst q, ?txt q)) ?fs"
  proof (rule extract_fields_map [OF fs(2)])
    show "\<forall>q \<in> set ?fs. find (\<lambda>part. starts_with part (fst q @ [61])) (split_on 47 k) = Some (fst q @ 61 # ?txt q)"
      unfolding parts by (intro ballI find_field [OF names fs(1)]) (auto simp: js_simps)
  qed simp
  then have vals: "extractValuesFromKey i [k] ?fs = Inr (map (\<lambda>q. (fst q, ?txt q)) ?fs)"
    by (simp add: extractValuesFromKey_def parts)
  have "map_of (map (\<lambda>q. (fst q, ?txt q)) ?fs) f = Some (?txt (f, rule))"
    using f fs by (intro map_of_is_SomeI) (force simp: comp_def)+
  moreover have "applyRule h (getNestedFieldValue data f) rule = Inr (rule_value h data (f, rule))"
    using key_segments_map [OF ss(1)] f fs(1) by fastforce
  ultimately show ?thesis
    using vals by blast
qed

lemma partition_values_roundtrip_witness:
  "\<exists>v vals. applyRule sample_host (getNestedFieldValue (sample_order ''o1'' ''US'') (ju ''region'')) (ju ''string'') = Inr v \<and>
    extractValuesFromKey (ju ''o1'') [ju ''resource=orders/partition=byRegion/region=US/id=o1'']
      (partition_sorted_fields sample_host (snd by_region)) = Inr vals \<and> map_of vals (ju ''region'') = Some (part_text v)"
  by (rule partition_values_roundtrip [where r = "sample_resource [by_region]" and p = "ju ''byRegion''"]) code_simp+

section \<open>Orphaned partitions\<close>

abbreviation fields_exist :: "part_resource \<Rightarrow> part_fields \<Rightarrow> bool" where
  "fields_exist r flds \<equiv> list_all (fieldExistsInAttributes (pr_attributes r)) (map fst flds)"

lemma findOrphaned_keys:
  "fst ` set (findOrphaned r) = {p. \<exists>flds. (p, flds) \<in> set (pr_partitions r) \<and> \<not> fields_exist r flds}"
proof -
  have "fst ` set (fold (\<lambda>(p, flds) orphaned.
        let missing = filter (\<lambda>f. \<not> fieldExistsInAttributes (pr_attributes r) f) (obj_keys flds) in
        if missing \<noteq> [] then AList.update p \<lparr>op_missingFields = missing, op_definition = flds,
          op_allFields = obj_keys flds\<rparr> orphaned else orphaned) es acc) =
      fst ` set acc \<union> {p. \<exists>flds. (p, flds) \<in> set es \<and> \<not> fields_exist r flds}" for es acc
  proof (induction es arbitrary: acc)
    case (Cons e es)
    have "(filter (\<lambda>f. \<not> fieldExistsInAttributes (pr_attributes r) f) (obj_keys (snd e)) \<noteq> []) \<longleftrightarrow> \<not> fields_exist r (snd e)"
      by (auto simp: filter_empty_conv list_all_iff)
    then show ?case
      using Cons by (cases e) (auto simp: Let_def)
  qed simp
  from this [of "obj_entries (pr_partitions r)" "[]"] show ?thesis
    unfolding findOrphaned_def set_obj_entries by simp
qed

lemma fold_delete_filter: "fold AList.delete ks al = filter (\<lambda>p. fst p \<notin> set ks) al"
proof (induction ks arbitrary: al)
  case (Cons k ks)
  then show ?case
    by (auto simp: AList.delete_eq intro!: filter_cong)
qed simp

lemma first_missing_ok: "first_missing at p fs = Inr () \<longleftrightarrow> list_all (fieldExistsInAttributes at) fs"
  by (induction fs) auto

lemma validate_entries_ok:
  "validate_entries at es = Inr () \<longleftrightarrow> list_all (\<lambda>e. first_missing at (fst e) (obj_keys (snd e)) = Inr ()) es"
  by (induction es rule: validate_entries.induct) (auto split: sum.split)

text \<open>
  Orphaned partitions. Removing the orphaned partitions keeps exactly the partitions whose fields
  all exist in the attributes, in their order, and what is left passes the validation.
\<close>
theorem removeOrphaned_valid:
  assumes "distinct (map fst (pr_partitions r))"
  shows "pr_partitions (snd (removeOrphaned False r)) = filter (\<lambda>(p, flds). fields_exist r flds) (pr_partitions r) \<and>
    part_validate (snd (removeOrphaned False r)) = Inr ()"
proof -
  let ?r = "snd (removeOrphaned False r)"
  have keys: "p \<notin> fst ` set (findOrphaned r) \<longleftrightarrow> fields_exist r flds" if "(p, flds) \<in> set (pr_partitions r)" for p flds
    using that assms unfolding findOrphaned_keys by (auto dest: eq_key_imp_eq_value)
  have "pr_partitions ?r = filter (\<lambda>p. fst p \<notin> fst ` set (findOrphaned r)) (pr_partitions r)"
    by (simp add: removeOrphaned_def Let_def fold_delete_filter filter_True)
  also have "\<dots> = filter (\<lambda>(p, flds). fields_exist r flds) (pr_partitions r)"
  proof (rule filter_cong)
    show "fst q \<notin> fst ` set (findOrphaned r) \<longleftrightarrow> (case q of (p, flds) \<Rightarrow> fields_exist r flds)"
      if "q \<in> set (pr_partitions r)" for q
      using keys [of "fst q" "snd q"] that by (simp only: prod.collapse case_prod_unfold)
  qed (rule refl)
  finally have kept: "pr_partitions ?r = filter (\<lambda>(p, flds). fields_exist r flds) (pr_partitions r)" .
  have at: "pr_attributes ?r = pr_attributes r"
    by (simp add: removeOrphaned_def Let_def)
  have "part_validate ?r = Inr ()"
    unfolding part_validate_def validate_entries_ok kept at
    by (auto simp: validate_entries_ok first_missing_ok list_all_iff)
  with kept show ?thesis
    by simp
qed

lemma removeOrphaned_valid_witness:
  "pr_partitions (snd (removeOrphaned False (sample_resource [by_region, (ju ''byZip'', [(ju ''zip'', ju ''string'')])]))) =
     filter (\<lambda>(p, flds). fields_exist (sample_resource [by_region, (ju ''byZip'', [(ju ''zip'', ju ''string'')])]) flds)
       (pr_partitions (sample_resource [by_region, (ju ''byZip'', [(ju ''zip'', ju ''string'')])])) \<and>
   part_validate (snd (removeOrphaned False (sample_resource [by_region, (ju ''byZip'', [(ju ''zip'', ju ''string'')])]))) = Inr ()"
  by (rule removeOrphaned_valid) code_simp

end
