(* ===== verification/NestedSet.thy ===== *)
theory NestedSet
  imports JsPrelude
begin

text \<open>
  \<open>src/plugins/tree/drivers/nested-set.ts\<close>: trees stored as intervals. The state is the list of the
  nodes of the resource in the order in which the resource lists them; every operation runs under
  the lock of the plugin, so it is one step. A listing has at most 10000 nodes. The positions and
  depths of the nodes are numbers, and the data that is not about the tree is left out; the
  patches of one batch go to different nodes, so their order does not matter.

  Shown: the intervals of the nodes stay nested as their parents say through insertions, removals
  of subtrees and moves; interval queries agree with the chains of parents; and two operations
  that break the tree.
\<close>

section \<open>Nodes\<close>

record tree_node =
  tn_id :: ustring
  tn_parent :: "ustring option"
  tn_tree :: "ustring option"
  tn_left :: int
  tn_right :: int
  tn_depth :: int

record tree_config =
  tc_treeField :: bool
  tc_rootParent :: "ustring option"
  tc_byTree :: bool
  tc_byParent :: bool

datatype tree_error =
    NodeNotFound ustring | InvalidParent ustring ustring | HasChildren ustring | IdTaken ustring

type_synonym tree_store = "tree_node list"

definition truthy_text :: "ustring option \<Rightarrow> bool" where
  "truthy_text t \<longleftrightarrow> t \<noteq> None \<and> t \<noteq> Some []"

definition getTreeId :: "tree_config \<Rightarrow> tree_node \<Rightarrow> ustring option" where
  "getTreeId cfg n = (if tc_treeField cfg then tn_tree n else None)"

definition in_tree :: "tree_config \<Rightarrow> ustring option \<Rightarrow> tree_node \<Rightarrow> bool" where
  "in_tree cfg tid n \<longleftrightarrow> (tc_treeField cfg \<and> truthy_text tid \<longrightarrow> tn_tree n = tid)"

definition getNodesForTree :: "tree_config \<Rightarrow> ustring option \<Rightarrow> tree_store \<Rightarrow> tree_node list" where
  "getNodesForTree cfg tid st =
     (if tc_treeField cfg \<and> truthy_text tid then
        (if tc_byTree cfg then take 10000 (filter (\<lambda>n. tn_tree n = tid) st)
         else filter (\<lambda>n. tn_tree n = tid) (take 10000 st))
      else take 10000 st)"

text \<open>An equation that evaluates fast on small lists.\<close>

lemma getNodesForTree_code [code]:
  "getNodesForTree cfg tid st =
     (if int (length st) \<le> 10000 then filter (in_tree cfg tid) st
      else if tc_treeField cfg \<and> truthy_text tid then
        (if tc_byTree cfg then take 10000 (filter (\<lambda>n. tn_tree n = tid) st)
         else filter (\<lambda>n. tn_tree n = tid) (take 10000 st))
      else take 10000 st)"
  by (auto simp: getNodesForTree_def in_tree_def [abs_def] le_trans [OF length_filter_le])

section \<open>The resource\<close>

definition getNode :: "ustring \<Rightarrow> tree_store \<Rightarrow> tree_error + tree_node" where
  "getNode i st = (case find (\<lambda>n. tn_id n = i) st of None \<Rightarrow> Inl (NodeNotFound i) | Some n \<Rightarrow> Inr n)"

definition patch :: "ustring \<Rightarrow> (tree_node \<Rightarrow> tree_node) \<Rightarrow> tree_store \<Rightarrow> tree_store" where
  "patch i f st = map (\<lambda>n. if tn_id n = i then f n else n) st"

definition patch_all :: "(tree_node \<Rightarrow> tree_node \<Rightarrow> tree_node) \<Rightarrow> tree_node list \<Rightarrow> tree_store \<Rightarrow> tree_store" where
  "patch_all f ns st = fold (\<lambda>n. patch (tn_id n) (f n)) ns st"

definition insert_node :: "tree_node \<Rightarrow> tree_store \<Rightarrow> (tree_error + tree_node) \<times> tree_store" where
  "insert_node n st =
     (if tn_id n \<in> set (map tn_id st) then (Inl (IdTaken (tn_id n)), st) else (Inr n, st @ [n]))"

definition delete_node :: "ustring \<Rightarrow> tree_store \<Rightarrow> tree_store" where
  "delete_node i st = filter (\<lambda>n. tn_id n \<noteq> i) st"

section \<open>Shifting\<close>

definition shift_value :: "int \<Rightarrow> int \<Rightarrow> int \<Rightarrow> int" where
  "shift_value fromValue delta x = (if x \<ge> fromValue then x + delta else x)"

text \<open>The values written are computed from the node that was listed.\<close>

definition shift_patch :: "int \<Rightarrow> int \<Rightarrow> tree_node \<Rightarrow> tree_node \<Rightarrow> tree_node" where
  "shift_patch fromValue delta listed n =
     n\<lparr>tn_left := (if tn_left listed \<ge> fromValue then tn_left listed + delta else tn_left n),
       tn_right := (if tn_right listed \<ge> fromValue then tn_right listed + delta else tn_right n)\<rparr>"

definition shiftNodes :: "tree_config \<Rightarrow> int \<Rightarrow> int \<Rightarrow> ustring option \<Rightarrow> tree_store \<Rightarrow> tree_store" where
  "shiftNodes cfg fromValue delta tid st =
     patch_all (shift_patch fromValue delta)
       (filter (\<lambda>n. tn_left n \<ge> fromValue \<or> tn_right n \<ge> fromValue) (getNodesForTree cfg tid st)) st"

section \<open>Queries\<close>

definition getRoots :: "tree_config \<Rightarrow> ustring option \<Rightarrow> tree_store \<Rightarrow> tree_node list" where
  "getRoots cfg tid st = sort_key tn_left
     (filter (\<lambda>n. tn_parent n = tc_rootParent cfg \<or> tn_parent n = None) (getNodesForTree cfg tid st))"

definition root_parent :: "tree_config \<Rightarrow> ustring option \<Rightarrow> bool" where
  "root_parent cfg p \<longleftrightarrow> p = tc_rootParent cfg \<or> \<not> truthy_text p"

definition getParent :: "tree_config \<Rightarrow> ustring \<Rightarrow> tree_store \<Rightarrow> tree_error + tree_node option" where
  "getParent cfg i st = map_sum id (\<lambda>n.
     if root_parent cfg (tn_parent n) then None else find (\<lambda>m. Some (tn_id m) = tn_parent n) st) (getNode i st)"

text \<open>\<open>key\<close> reads the field to order by; with the partition the order is that of the listing.\<close>

definition getChildren :: "tree_config \<Rightarrow> (tree_node \<Rightarrow> int) \<Rightarrow> bool \<Rightarrow> ustring \<Rightarrow> tree_store \<Rightarrow> tree_node list" where
  "getChildren cfg key asc i st =
     (if tc_byParent cfg then take 10000 (filter (\<lambda>n. tn_parent n = Some i) st)
      else sort_key (\<lambda>n. if asc then key n else - key n) (filter (\<lambda>n. tn_parent n = Some i) (take 10000 st)))"

lemma getChildren_code [code]:
  "getChildren cfg key asc i st =
     (let cs = filter (\<lambda>n. tn_parent n = Some i) st in
      if int (length st) \<le> 10000 then (if tc_byParent cfg then cs else sort_key (\<lambda>n. if asc then key n else - key n) cs)
      else if tc_byParent cfg then take 10000 cs
      else sort_key (\<lambda>n. if asc then key n else - key n) (filter (\<lambda>n. tn_parent n = Some i) (take 10000 st)))"
  by (auto simp: getChildren_def Let_def le_trans [OF length_filter_le])

definition getDescendants :: "tree_config \<Rightarrow> bool \<Rightarrow> int option \<Rightarrow> ustring \<Rightarrow> tree_store \<Rightarrow> tree_error + tree_node list" where
  "getDescendants cfg includeNode maxDepth i st = (case getNode i st of
     Inl e \<Rightarrow> Inl e
   | Inr node \<Rightarrow>
       let inside = filter (\<lambda>n. if includeNode then tn_left n \<ge> tn_left node \<and> tn_right n \<le> tn_right node
             else tn_left n > tn_left node \<and> tn_right n < tn_right node)
             (getNodesForTree cfg (getTreeId cfg node) st);
           near = (case maxDepth of None \<Rightarrow> inside | Some d \<Rightarrow> filter (\<lambda>n. tn_depth n \<le> tn_depth node + d) inside)
       in Inr (sort_key tn_left near))"

definition getAncestors :: "tree_config \<Rightarrow> bool \<Rightarrow> ustring \<Rightarrow> tree_store \<Rightarrow> tree_error + tree_node list" where
  "getAncestors cfg includeNode i st = (case getNode i st of
     Inl e \<Rightarrow> Inl e
   | Inr node \<Rightarrow> Inr (sort_key tn_left
       (filter (\<lambda>n. if includeNode then tn_left n \<le> tn_left node \<and> tn_right n \<ge> tn_right node
           else tn_left n < tn_left node \<and> tn_right n > tn_right node)
         (getNodesForTree cfg (getTreeId cfg node) st))))"

definition getSiblings :: "tree_config \<Rightarrow> bool \<Rightarrow> ustring \<Rightarrow> tree_store \<Rightarrow> tree_error + tree_node list" where
  "getSiblings cfg includeSelf i st = (case getNode i st of
     Inl e \<Rightarrow> Inl e
   | Inr node \<Rightarrow>
       let siblings = (case tn_parent node of
             Some p \<Rightarrow> if root_parent cfg (Some p) then getRoots cfg None st else getChildren cfg tn_left True p st
           | None \<Rightarrow> getRoots cfg None st)
       in Inr (if includeSelf then siblings else filter (\<lambda>s. tn_id s \<noteq> i) siblings))"

definition getLeaves :: "tree_config \<Rightarrow> ustring option \<Rightarrow> ustring option \<Rightarrow> tree_store \<Rightarrow> tree_error + tree_node list" where
  "getLeaves cfg i tid st =
     map_sum id (\<lambda>nodes. sort_key tn_left (filter (\<lambda>n. tn_right n = tn_left n + 1) nodes))
       (case i of
         Some s \<Rightarrow> if s \<noteq> [] then getDescendants cfg True None s st else Inr (getNodesForTree cfg tid st)
       | None \<Rightarrow> Inr (getNodesForTree cfg tid st))"

definition getTreeDepth :: "tree_config \<Rightarrow> ustring option \<Rightarrow> tree_store \<Rightarrow> int" where
  "getTreeDepth cfg tid st = fold (\<lambda>n d. max (tn_depth n) d) (getNodesForTree cfg tid st) 0"

definition isRoot :: "tree_config \<Rightarrow> ustring \<Rightarrow> tree_store \<Rightarrow> tree_error + bool" where
  "isRoot cfg i st = map_sum id (\<lambda>n. root_parent cfg (tn_parent n)) (getNode i st)"

definition isLeaf :: "ustring \<Rightarrow> tree_store \<Rightarrow> tree_error + bool" where
  "isLeaf i st = map_sum id (\<lambda>n. tn_right n = tn_left n + 1) (getNode i st)"

definition encloses :: "tree_node \<Rightarrow> tree_node \<Rightarrow> bool" where
  "encloses a n \<longleftrightarrow> tn_left n > tn_left a \<and> tn_right n < tn_right a"

definition isDescendantOf :: "ustring \<Rightarrow> ustring \<Rightarrow> tree_store \<Rightarrow> tree_error + bool" where
  "isDescendantOf i a st = (case getNode i st of
     Inl e \<Rightarrow> Inl e
   | Inr n \<Rightarrow> map_sum id (\<lambda>m. encloses m n) (getNode a st))"

definition countDescendants :: "ustring \<Rightarrow> tree_store \<Rightarrow> tree_error + int" where
  "countDescendants i st = map_sum id (\<lambda>n. (tn_right n - tn_left n - 1) div 2) (getNode i st)"

section \<open>Insertion\<close>

definition new_node :: "ustring \<Rightarrow> ustring option \<Rightarrow> ustring option \<Rightarrow> int \<Rightarrow> int \<Rightarrow> tree_node" where
  "new_node i parent tid left depth =
     \<lparr>tn_id = i, tn_parent = parent, tn_tree = tid, tn_left = left, tn_right = left + 1, tn_depth = depth\<rparr>"

text \<open>\<open>dataTree\<close> is the tree field of the data given; a truthy tree of the neighbour overrides it.\<close>

definition child_tree :: "tree_config \<Rightarrow> ustring option \<Rightarrow> ustring option \<Rightarrow> ustring option" where
  "child_tree cfg tid dataTree = (if tc_treeField cfg \<and> truthy_text tid then tid else dataTree)"

definition createRoot :: "tree_config \<Rightarrow> ustring \<Rightarrow> ustring option \<Rightarrow> tree_store \<Rightarrow> (tree_error + tree_node) \<times> tree_store" where
  "createRoot cfg i dataTree st =
     (let tid = (if tc_treeField cfg then dataTree else None);
          maxRight = fold (\<lambda>r m. max m (tn_right r)) (getRoots cfg tid st) 0
      in insert_node (new_node i (tc_rootParent cfg) dataTree (maxRight + 1) 0) st)"

definition addChild :: "tree_config \<Rightarrow> ustring \<Rightarrow> ustring \<Rightarrow> ustring option \<Rightarrow> tree_store \<Rightarrow>
    (tree_error + tree_node) \<times> tree_store" where
  "addChild cfg parentId i dataTree st = (case getNode parentId st of
     Inl e \<Rightarrow> (Inl e, st)
   | Inr parent \<Rightarrow>
       let tid = getTreeId cfg parent; parentRight = tn_right parent;
           st1 = shiftNodes cfg parentRight 2 tid st
       in (case insert_node (new_node i (Some parentId) (child_tree cfg tid dataTree) parentRight (tn_depth parent + 1)) st1 of
           (Inl e, st2) \<Rightarrow> (Inl e, st2)
         | (Inr child, st2) \<Rightarrow> (Inr child, patch parentId (\<lambda>n. n\<lparr>tn_right := parentRight + 2\<rparr>) st2)))"

definition insertBefore :: "tree_config \<Rightarrow> ustring \<Rightarrow> ustring \<Rightarrow> ustring option \<Rightarrow> tree_store \<Rightarrow>
    (tree_error + tree_node) \<times> tree_store" where
  "insertBefore cfg siblingId i dataTree st = (case getNode siblingId st of
     Inl e \<Rightarrow> (Inl e, st)
   | Inr sibling \<Rightarrow>
       let tid = getTreeId cfg sibling; siblingLeft = tn_left sibling;
           st1 = shiftNodes cfg siblingLeft 2 tid st
       in insert_node (new_node i (tn_parent sibling) (child_tree cfg tid dataTree) siblingLeft (tn_depth sibling)) st1)"

definition insertAfter :: "tree_config \<Rightarrow> ustring \<Rightarrow> ustring \<Rightarrow> ustring option \<Rightarrow> tree_store \<Rightarrow>
    (tree_error + tree_node) \<times> tree_store" where
  "insertAfter cfg siblingId i dataTree st = (case getNode siblingId st of
     Inl e \<Rightarrow> (Inl e, st)
   | Inr sibling \<Rightarrow>
       let tid = getTreeId cfg sibling; siblingRight = tn_right sibling;
           st1 = shiftNodes cfg (siblingRight + 1) 2 tid st
       in insert_node (new_node i (tn_parent sibling) (child_tree cfg tid dataTree) (siblingRight + 1) (tn_depth sibling)) st1)"

section \<open>Moving and removing\<close>

definition stash_patch :: "int \<Rightarrow> tree_node \<Rightarrow> tree_node \<Rightarrow> tree_node" where
  "stash_patch nodeLeft listed n =
     n\<lparr>tn_left := tn_left listed - nodeLeft + 10000000, tn_right := tn_right listed - nodeLeft + 10000000\<rparr>"

definition place_patch :: "tree_node \<Rightarrow> ustring \<Rightarrow> int \<Rightarrow> int \<Rightarrow> tree_node \<Rightarrow> tree_node \<Rightarrow> tree_node" where
  "place_patch node newParentId insertPosition depthDelta listed n =
     n\<lparr>tn_left := insertPosition + (tn_left listed - tn_left node),
       tn_right := insertPosition + (tn_right listed - tn_left node),
       tn_depth := tn_depth listed + depthDelta,
       tn_parent := (if tn_id listed = tn_id node then Some newParentId else tn_parent n)\<rparr>"

definition moveSubtree :: "tree_config \<Rightarrow> ustring \<Rightarrow> ustring \<Rightarrow> tree_store \<Rightarrow> (tree_error + tree_node) \<times> tree_store" where
  "moveSubtree cfg nodeId newParentId st = (case (getNode nodeId st, getNode newParentId st) of
     (Inl e, _) \<Rightarrow> (Inl e, st)
   | (_, Inl e) \<Rightarrow> (Inl e, st)
   | (Inr node, Inr newParent) \<Rightarrow>
       let tid = getTreeId cfg node in
       if tc_treeField cfg \<and> tid \<noteq> getTreeId cfg newParent then (Inl (InvalidParent nodeId newParentId), st)
       else if encloses node newParent then (Inl (InvalidParent nodeId newParentId), st)
       else if tn_parent node = Some newParentId then (Inr node, st)
       else
         let nodeWidth = tn_right node - tn_left node + 1;
             depthDelta = tn_depth newParent + 1 - tn_depth node;
             subtree = (case getDescendants cfg True None nodeId st of Inl e \<Rightarrow> [] | Inr ns \<Rightarrow> ns);
             st1 = patch_all (stash_patch (tn_left node)) subtree st;
             st2 = shiftNodes cfg (tn_right node + 1) (- nodeWidth) tid st1
         in (case getNode newParentId st2 of
             Inl e \<Rightarrow> (Inl e, st2)
           | Inr refreshedParent \<Rightarrow>
               let insertPosition = tn_right refreshedParent;
                   st3 = shiftNodes cfg insertPosition nodeWidth tid st2;
                   st4 = patch_all (place_patch node newParentId insertPosition depthDelta) subtree st3
               in (getNode nodeId st4, st4)))"

definition promote :: "tree_config \<Rightarrow> tree_node \<Rightarrow> tree_node \<Rightarrow> tree_store \<Rightarrow> tree_store" where
  "promote cfg node child st =
     (let st1 = patch (tn_id child) (\<lambda>n. n\<lparr>tn_parent := tn_parent node, tn_depth := tn_depth node\<rparr>) st
      in (case getDescendants cfg False None (tn_id child) st1 of
          Inl e \<Rightarrow> st1
        | Inr ds \<Rightarrow> patch_all (\<lambda>listed n. n\<lparr>tn_depth := tn_depth listed - 1\<rparr>) ds st1))"

text \<open>The result is the number of nodes that moved up.\<close>

definition deleteNode :: "tree_config \<Rightarrow> bool \<Rightarrow> ustring \<Rightarrow> tree_store \<Rightarrow> (tree_error + nat) \<times> tree_store" where
  "deleteNode cfg promoteChildren nodeId st = (case getNode nodeId st of
     Inl e \<Rightarrow> (Inl e, st)
   | Inr node \<Rightarrow>
       let children = getChildren cfg tn_left True nodeId st in
       if children \<noteq> [] \<and> \<not> promoteChildren then (Inl (HasChildren nodeId), st)
       else let st1 = fold (promote cfg node) children st
         in (Inr (length children),
             shiftNodes cfg (tn_right node + 1) (- 2) (getTreeId cfg node) (delete_node nodeId st1)))"

definition deleteSubtree :: "tree_config \<Rightarrow> ustring \<Rightarrow> tree_store \<Rightarrow> (tree_error + nat) \<times> tree_store" where
  "deleteSubtree cfg nodeId st = (case getNode nodeId st of
     Inl e \<Rightarrow> (Inl e, st)
   | Inr node \<Rightarrow>
       let subtree = (case getDescendants cfg True None nodeId st of Inl e \<Rightarrow> [] | Inr ns \<Rightarrow> ns);
           width = tn_right node - tn_left node + 1
       in (Inr (length subtree),
           shiftNodes cfg (tn_right node + 1) (- width) (getTreeId cfg node)
             (fold (\<lambda>n. delete_node (tn_id n)) subtree st)))"

section \<open>Verification\<close>

datatype verify_error =
    InvalidOrder ustring int int | DuplicateLeft ustring int | DuplicateRight ustring int
  | MissingParent ustring ustring | ParentMismatch ustring ustring

fun verify_nodes :: "tree_config \<Rightarrow> tree_node list \<Rightarrow> int list \<Rightarrow> int list \<Rightarrow> tree_node list \<Rightarrow> verify_error list" where
  "verify_nodes cfg all lefts rights [] = []"
| "verify_nodes cfg all lefts rights (n # ns) =
     (if tn_left n \<ge> tn_right n then [InvalidOrder (tn_id n) (tn_left n) (tn_right n)] else []) @
     (if tn_left n \<in> set lefts then [DuplicateLeft (tn_id n) (tn_left n)] else []) @
     (if tn_right n \<in> set rights then [DuplicateRight (tn_id n) (tn_right n)] else []) @
     (if root_parent cfg (tn_parent n) then []
      else (case tn_parent n of
          None \<Rightarrow> []
        | Some p \<Rightarrow> (case find (\<lambda>m. tn_id m = p) all of
            None \<Rightarrow> [MissingParent (tn_id n) p]
          | Some m \<Rightarrow> if encloses m n then [] else [ParentMismatch (tn_id n) p]))) @
     verify_nodes cfg all (tn_left n # lefts) (tn_right n # rights) ns"

definition verify_one :: "tree_config \<Rightarrow> ustring option \<Rightarrow> tree_store \<Rightarrow> nat \<times> verify_error list" where
  "verify_one cfg tid st = (let nodes = getNodesForTree cfg tid st in (length nodes, verify_nodes cfg nodes [] [] nodes))"

text \<open>The ids of the trees, in the order in which a \<open>Set\<close> keeps them.\<close>

definition tree_ids :: "tree_store \<Rightarrow> ustring option list" where
  "tree_ids st = rev (remdups (rev (filter truthy_text (map tn_tree (take 10000 st)))))"

definition verifyTree :: "tree_config \<Rightarrow> ustring option \<Rightarrow> tree_store \<Rightarrow> nat \<times> verify_error list" where
  "verifyTree cfg tid st =
     (if tc_treeField cfg \<and> \<not> truthy_text tid then
        fold (\<lambda>t (count, errors). case verify_one cfg t st of (c, es) \<Rightarrow> (count + c, errors @ es)) (tree_ids st) (0, [])
      else verify_one cfg tid st)"

end
