(* ===== verification/TreeInvariant.thy ===== *)
theory TreeInvariant
  imports NestedSet
begin

text \<open>
  What makes the intervals of \<open>NestedSet\<close> a tree, and that the operations keep it. The first part is
  about sets of nodes: renumbering by a monotone map, removing a subtree, grafting a block of nodes
  in a gap. The second part carries it to the stored list and the operations.
\<close>

section \<open>Trees as sets of intervals\<close>

definition apart :: "tree_node \<Rightarrow> tree_node \<Rightarrow> bool" where
  "apart n m \<longleftrightarrow> tn_right n < tn_left m \<or> tn_right m < tn_left n \<or> encloses n m \<or> encloses m n"

definition root_link :: "tree_config \<Rightarrow> ustring option \<Rightarrow> bool" where
  "root_link cfg p \<longleftrightarrow> p = tc_rootParent cfg \<or> p = None"

definition valid_id :: "tree_config \<Rightarrow> ustring \<Rightarrow> bool" where
  "valid_id cfg i \<longleftrightarrow> i \<noteq> [] \<and> Some i \<noteq> tc_rootParent cfg"

text \<open>The parent of \<open>n\<close> is the innermost node of \<open>N\<close> around it.\<close>

definition child_of :: "tree_node set \<Rightarrow> tree_node \<Rightarrow> tree_node \<Rightarrow> bool" where
  "child_of N m n \<longleftrightarrow> tn_parent n = Some (tn_id m) \<and> encloses m n \<and> tn_depth n = tn_depth m + 1 \<and>
     (\<forall>k \<in> N. encloses k n \<longrightarrow> k = m \<or> encloses k m)"

definition parent_ok :: "tree_config \<Rightarrow> tree_node set \<Rightarrow> tree_node \<Rightarrow> bool" where
  "parent_ok cfg N n \<longleftrightarrow>
     (if root_link cfg (tn_parent n) then tn_depth n = 0 \<and> (\<forall>m \<in> N. \<not> encloses m n)
      else \<exists>m \<in> N. child_of N m n)"

definition tree_inv :: "tree_config \<Rightarrow> tree_node set \<Rightarrow> bool" where
  "tree_inv cfg N \<longleftrightarrow> finite N \<and> inj_on tn_id N \<and>
     (\<forall>n \<in> N. tn_left n < tn_right n \<and> valid_id cfg (tn_id n)) \<and>
     (\<forall>n \<in> N. \<forall>m \<in> N. n \<noteq> m \<longrightarrow> apart n m) \<and>
     (\<forall>n \<in> N. parent_ok cfg N n)"

lemma tree_inv_parent: "tree_inv cfg N \<Longrightarrow> n \<in> N \<Longrightarrow> parent_ok cfg N n"
  by (simp add: tree_inv_def)

lemma tree_inv_apart: "tree_inv cfg N \<Longrightarrow> n \<in> N \<Longrightarrow> m \<in> N \<Longrightarrow> n \<noteq> m \<Longrightarrow> apart n m"
  by (simp add: tree_inv_def)

lemma tree_inv_order: "tree_inv cfg N \<Longrightarrow> n \<in> N \<Longrightarrow> tn_left n < tn_right n"
  by (simp add: tree_inv_def)

lemma tree_inv_inj: "tree_inv cfg N \<Longrightarrow> n \<in> N \<Longrightarrow> m \<in> N \<Longrightarrow> tn_id n = tn_id m \<Longrightarrow> n = m"
  by (simp add: tree_inv_def inj_on_def)

lemma parent_ok_child: "parent_ok cfg N n \<Longrightarrow> \<not> root_link cfg (tn_parent n) \<Longrightarrow> \<exists>m \<in> N. child_of N m n"
  by (simp add: parent_ok_def)

lemma parent_ok_root: "parent_ok cfg N n \<Longrightarrow> root_link cfg (tn_parent n) \<Longrightarrow> tn_depth n = 0 \<and> (\<forall>m \<in> N. \<not> encloses m n)"
  by (simp add: parent_ok_def)

lemma encloses_trans: "encloses a b \<Longrightarrow> encloses b c \<Longrightarrow> encloses a c"
  by (auto simp: encloses_def)

lemma encloses_irrefl [simp]: "\<not> encloses a a"
  by (simp add: encloses_def)

lemma encloses_asym: "encloses a b \<Longrightarrow> \<not> encloses b a"
  by (auto simp: encloses_def)

section \<open>Renumbering\<close>

definition renumber :: "(int \<Rightarrow> int) \<Rightarrow> tree_node \<Rightarrow> tree_node" where
  "renumber s n = n\<lparr>tn_left := s (tn_left n), tn_right := s (tn_right n)\<rparr>"

lemma renumber_simps [simp]:
  "tn_id (renumber s n) = tn_id n" "tn_parent (renumber s n) = tn_parent n" "tn_tree (renumber s n) = tn_tree n"
  "tn_left (renumber s n) = s (tn_left n)" "tn_right (renumber s n) = s (tn_right n)" "tn_depth (renumber s n) = tn_depth n"
  by (simp_all add: renumber_def)

definition over :: "int set \<Rightarrow> tree_node \<Rightarrow> bool" where
  "over E n \<longleftrightarrow> tn_left n \<in> E \<and> tn_right n \<in> E"

locale renumbering =
  fixes s :: "int \<Rightarrow> int" and E :: "int set"
  assumes strict: "x \<in> E \<Longrightarrow> y \<in> E \<Longrightarrow> x < y \<Longrightarrow> s x < s y"
begin

lemma less_iff: "x \<in> E \<Longrightarrow> y \<in> E \<Longrightarrow> s x < s y \<longleftrightarrow> x < y"
  using strict [of x y] strict [of y x] by (cases x y rule: linorder_cases) auto

lemma encloses_renumber: "over E a \<Longrightarrow> over E n \<Longrightarrow> encloses (renumber s a) (renumber s n) \<longleftrightarrow> encloses a n"
  by (simp add: encloses_def over_def less_iff)

lemma apart_renumber: "over E a \<Longrightarrow> over E n \<Longrightarrow> apart a n \<Longrightarrow> apart (renumber s a) (renumber s n)"
  by (simp add: apart_def encloses_renumber) (auto simp: over_def less_iff)

lemma child_renumber:
  assumes "\<And>n. n \<in> N \<Longrightarrow> over E n" and "m \<in> N" and "n \<in> N" and inj: "inj_on tn_id N"
    and child: "child_of N m n"
  shows "child_of (renumber s ` N) (renumber s m) (renumber s n)"
  using assms(1-3) child unfolding child_of_def
  by (auto simp: encloses_renumber)

theorem tree_inv_renumber:
  assumes inv: "tree_inv cfg N" and over: "\<And>n. n \<in> N \<Longrightarrow> over E n"
  shows "tree_inv cfg (renumber s ` N)"
proof -
  have inj: "inj_on tn_id N"
    using inv by (simp add: tree_inv_def)
  then have inj': "inj_on tn_id (renumber s ` N)"
    by (auto simp: inj_on_def)
  have ends: "\<forall>n \<in> renumber s ` N. tn_left n < tn_right n \<and> valid_id cfg (tn_id n)"
    using inv over by (auto simp: tree_inv_def less_iff over_def)
  have aparts: "\<forall>n \<in> renumber s ` N. \<forall>m \<in> renumber s ` N. n \<noteq> m \<longrightarrow> apart n m"
    using inv over by (auto simp: tree_inv_def intro!: apart_renumber)
  have "parent_ok cfg (renumber s ` N) (renumber s n)" if n: "n \<in> N" for n
  proof (cases "root_link cfg (tn_parent n)")
    case True
    then show ?thesis
      using inv n over by (auto simp: tree_inv_def parent_ok_def encloses_renumber)
  next
    case False
    then obtain m where "m \<in> N" "child_of N m n"
      using parent_ok_child [OF tree_inv_parent [OF inv n]] by blast
    then have "child_of (renumber s ` N) (renumber s m) (renumber s n)"
      by (intro child_renumber over n inj)
    then show ?thesis
      using False \<open>m \<in> N\<close> by (auto simp: parent_ok_def)
  qed
  with inj' ends aparts show ?thesis
    using inv by (auto simp: tree_inv_def)
qed

end

text \<open>Opening a gap of width \<open>w\<close> at \<open>p\<close>, and closing one in the \<open>w + e\<close> numbers from \<open>a\<close>.\<close>

interpretation gap: renumbering "shift_value p (int w)" UNIV for p w
  by unfold_locales (auto simp: shift_value_def)

interpretation closing: renumbering "shift_value (a + int (w + e)) (- int w)" "{x. x < a \<or> a + int (w + e) \<le> x}" for a w e
  by unfold_locales (auto simp: shift_value_def)

lemma tree_inv_gap: "tree_inv cfg N \<Longrightarrow> 0 \<le> w \<Longrightarrow> tree_inv cfg (renumber (shift_value p w) ` N)"
  using gap.tree_inv_renumber [of cfg N p "nat w"] by (simp add: over_def)

lemma tree_inv_closing:
  assumes "tree_inv cfg N" and "0 \<le> w" and "w \<le> b - a"
    and "\<And>n x. n \<in> N \<Longrightarrow> x \<in> {tn_left n, tn_right n} \<Longrightarrow> x < a \<or> b \<le> x"
  shows "tree_inv cfg (renumber (shift_value b (- w)) ` N)"
  using assms closing.tree_inv_renumber [of cfg N a "nat w" "nat (b - a - w)"]
  by (simp add: over_def)

section \<open>Removing\<close>

lemma tree_inv_remove:
  assumes inv: "tree_inv cfg N" and closed: "\<And>m n. m \<in> N \<inter> D \<Longrightarrow> n \<in> N \<Longrightarrow> encloses m n \<Longrightarrow> n \<in> D"
  shows "tree_inv cfg (N - D)"
proof -
  have "parent_ok cfg (N - D) n" if n: "n \<in> N - D" for n
  proof (cases "root_link cfg (tn_parent n)")
    case True
    then show ?thesis
      using inv n by (auto simp: tree_inv_def parent_ok_def)
  next
    case False
    then obtain m where m: "m \<in> N" "child_of N m n"
      using parent_ok_child [OF tree_inv_parent [OF inv]] n by blast
    then have "m \<notin> D"
      using closed [of m n] n by (auto simp: child_of_def)
    with m False show ?thesis
      by (auto simp: parent_ok_def child_of_def)
  qed
  then show ?thesis
    using inv by (auto simp: tree_inv_def inj_on_def)
qed

section \<open>Blocks\<close>

text \<open>A block is a tree whose root is \<open>d\<close>, wherever the parent of \<open>d\<close> is.\<close>

definition block :: "tree_config \<Rightarrow> tree_node set \<Rightarrow> tree_node \<Rightarrow> bool" where
  "block cfg D d \<longleftrightarrow> finite D \<and> d \<in> D \<and> inj_on tn_id D \<and>
     (\<forall>n \<in> D. tn_left n < tn_right n \<and> valid_id cfg (tn_id n)) \<and>
     (\<forall>n \<in> D. \<forall>m \<in> D. n \<noteq> m \<longrightarrow> apart n m) \<and>
     (\<forall>n \<in> D. n \<noteq> d \<longrightarrow> encloses d n \<and> \<not> root_link cfg (tn_parent n) \<and> (\<exists>m \<in> D. child_of D m n))"

text \<open>The place of a block in \<open>N\<close>: \<open>R m\<close> says that the node \<open>m\<close> is around it.\<close>

definition host_ok :: "tree_config \<Rightarrow> tree_node set \<Rightarrow> (tree_node \<Rightarrow> bool) \<Rightarrow> tree_node \<Rightarrow> bool" where
  "host_ok cfg N R d \<longleftrightarrow>
     (if root_link cfg (tn_parent d) then tn_depth d = 0 \<and> (\<forall>m \<in> N. \<not> R m)
      else \<exists>m \<in> N. tn_parent d = Some (tn_id m) \<and> R m \<and> tn_depth d = tn_depth m + 1 \<and>
        (\<forall>k \<in> N. R k \<longrightarrow> k = m \<or> encloses k m))"

lemma tree_inv_graft:
  assumes inv: "tree_inv cfg N" and blk: "block cfg D d" and ids: "tn_id ` N \<inter> tn_id ` D = {}"
    and place: "\<And>n. n \<in> N \<Longrightarrow> tn_right n < tn_left d \<or> tn_right d < tn_left n \<or> encloses n d"
    and host: "host_ok cfg N (\<lambda>m. encloses m d) d"
  shows "tree_inv cfg (N \<union> D)"
proof -
  have d: "d \<in> D" and inD: "n \<in> D \<Longrightarrow> n \<noteq> d \<Longrightarrow> encloses d n" for n
    using blk by (auto simp: block_def)
  have ordN: "n \<in> N \<Longrightarrow> tn_left n < tn_right n" and ordD: "n \<in> D \<Longrightarrow> tn_left n < tn_right n" for n
    using inv blk by (auto simp: tree_inv_def block_def)
  have around: "encloses m n \<longleftrightarrow> encloses m d" and below: "\<not> encloses n m" and apart': "apart m n"
    if "m \<in> N" "n \<in> D" for m n
    using place [OF that(1)] inD [OF that(2)] ordN [OF that(1)] ordD [OF that(2)] ordD [OF d]
    by (cases "n = d"; auto simp: encloses_def apart_def)+
  have parents: "parent_ok cfg (N \<union> D) n" if n: "n \<in> N" for n
  proof (cases "root_link cfg (tn_parent n)")
    case True
    then show ?thesis
      using parent_ok_root [OF tree_inv_parent [OF inv n]] below [OF n] by (auto simp: parent_ok_def)
  next
    case False
    then obtain m where "m \<in> N" "child_of N m n"
      using parent_ok_child [OF tree_inv_parent [OF inv n]] by blast
    then have "m \<in> N \<union> D" "child_of (N \<union> D) m n"
      using below [OF n] by (auto simp: child_of_def)
    with False show ?thesis
      by (auto simp: parent_ok_def)
  qed
  have parents': "parent_ok cfg (N \<union> D) n" if n: "n \<in> D" "n \<noteq> d" for n
  proof -
    obtain m where m: "m \<in> D" "child_of D m n"
      using blk n by (auto simp: block_def)
    have "k = m \<or> encloses k m" if "k \<in> N \<union> D" "encloses k n" for k
      using that m around [of k n] around [of k m] n by (auto simp: child_of_def)
    then show ?thesis
      using m n blk by (auto simp: parent_ok_def child_of_def block_def)
  qed
  have noD: "\<not> encloses n d" if "n \<in> D" for n
    using inD [OF that] encloses_asym by (cases "n = d") auto
  have "parent_ok cfg (N \<union> D) d"
    using host noD by (auto simp: parent_ok_def host_ok_def child_of_def split: if_splits)
  moreover have "inj_on tn_id (N \<union> D)"
    using inv blk ids by (auto simp: tree_inv_def block_def inj_on_Un)
  moreover have "\<forall>n \<in> N \<union> D. \<forall>m \<in> N \<union> D. n \<noteq> m \<longrightarrow> apart n m"
    using inv blk apart' by (auto simp: tree_inv_def block_def) (auto simp: apart_def)
  ultimately show ?thesis
    using inv blk parents parents' by (auto simp: tree_inv_def block_def)
qed

lemma block_single: "tn_left d < tn_right d \<Longrightarrow> valid_id cfg (tn_id d) \<Longrightarrow> block cfg {d} d"
  by (simp add: block_def)

text \<open>The nodes that \<open>getDescendants\<close> lists, with the node itself.\<close>

definition subtree_of :: "tree_node set \<Rightarrow> tree_node \<Rightarrow> tree_node set" where
  "subtree_of N d = {n \<in> N. tn_left d \<le> tn_left n \<and> tn_right n \<le> tn_right d}"

lemma subtree_encloses:
  assumes "tree_inv cfg N" and "d \<in> N"
  shows "subtree_of N d = {n \<in> N. n = d \<or> encloses d n}"
  using tree_inv_apart [OF assms] tree_inv_order [OF assms] tree_inv_order [OF assms(1)]
  by (force simp: subtree_of_def apart_def encloses_def)

lemma subtree_block:
  assumes inv: "tree_inv cfg N" and d: "d \<in> N"
  shows "block cfg (subtree_of N d) d"
proof -
  have "\<not> root_link cfg (tn_parent n) \<and> (\<exists>m \<in> subtree_of N d. child_of (subtree_of N d) m n)"
    if n: "n \<in> N" "encloses d n" for n
  proof -
    have link: "\<not> root_link cfg (tn_parent n)"
      using parent_ok_root [OF tree_inv_parent [OF inv n(1)]] n d by blast
    then obtain m where m: "m \<in> N" "child_of N m n"
      using parent_ok_child [OF tree_inv_parent [OF inv n(1)]] by blast
    then have "m = d \<or> encloses d m"
      using d n by (auto simp: child_of_def)
    then show ?thesis
      using link m by (auto simp: subtree_encloses [OF assms] child_of_def)
  qed
  then show ?thesis
    using inv d unfolding block_def
    by (auto simp: subtree_encloses [OF assms] tree_inv_def inj_on_def)
qed

lemma tree_inv_remove_subtree:
  assumes "tree_inv cfg N" and "d \<in> N"
  shows "tree_inv cfg (N - subtree_of N d)"
  using assms(1) by (rule tree_inv_remove) (auto simp: subtree_encloses [OF assms] dest: encloses_trans)

text \<open>What is left after removing a subtree has no number in its interval.\<close>

lemma outside_subtree:
  assumes inv: "tree_inv cfg N" and d: "d \<in> N" and n: "n \<in> N - subtree_of N d"
    and "x \<in> {tn_left n, tn_right n}"
  shows "x < tn_left d \<or> tn_right d + 1 \<le> x"
  using tree_inv_apart [OF inv d, of n] tree_inv_order [OF inv d] tree_inv_order [OF inv, of n] n assms(4)
  by (auto simp: subtree_encloses [OF inv d] apart_def encloses_def)

section \<open>Parents and intervals\<close>

definition parent_rel :: "tree_node set \<Rightarrow> (tree_node \<times> tree_node) set" where
  "parent_rel N = {(n, m). n \<in> N \<and> m \<in> N \<and> tn_parent n = Some (tn_id m)}"

lemma parent_child_of:
  assumes inv: "tree_inv cfg N" and "(n, m) \<in> parent_rel N"
  shows "child_of N m n"
proof -
  have nm: "n \<in> N" "m \<in> N" "tn_parent n = Some (tn_id m)"
    using assms(2) by (auto simp: parent_rel_def)
  then have "\<not> root_link cfg (tn_parent n)"
    using inv by (auto simp: tree_inv_def root_link_def valid_id_def)
  then obtain m' where "m' \<in> N" "child_of N m' n"
    using parent_ok_child [OF tree_inv_parent [OF inv nm(1)]] by blast
  moreover from this have "m' = m"
    using nm tree_inv_inj [OF inv] by (auto simp: child_of_def)
  ultimately show ?thesis
    by simp
qed

lemma chain_encloses: "(n, m) \<in> (parent_rel N)\<^sup>+ \<Longrightarrow> tree_inv cfg N \<Longrightarrow> encloses m n"
proof (induction rule: trancl_induct)
  case (base y)
  show ?case
    using parent_child_of [OF base.prems base.hyps] by (simp add: child_of_def)
next
  case (step y z)
  then have "encloses z y"
    using parent_child_of [OF step.prems step.hyps(2)] by (simp add: child_of_def)
  with step show ?case
    by (auto intro: encloses_trans)
qed

lemma encloses_chain:
  assumes inv: "tree_inv cfg N" and m: "m \<in> N"
  shows "n \<in> N \<Longrightarrow> encloses m n \<Longrightarrow> (n, m) \<in> (parent_rel N)\<^sup>+"
proof (induction "nat (tn_left n - tn_left m)" arbitrary: n rule: less_induct)
  case less
  have "\<not> root_link cfg (tn_parent n)"
    using parent_ok_root [OF tree_inv_parent [OF inv less.prems(1)]] less.prems m by blast
  then obtain k where k: "k \<in> N" "child_of N k n"
    using parent_ok_child [OF tree_inv_parent [OF inv less.prems(1)]] by blast
  then have step: "(n, k) \<in> parent_rel N"
    using less.prems by (simp add: parent_rel_def child_of_def)
  consider "m = k" | "encloses m k"
    using k less.prems m by (auto simp: child_of_def)
  then show ?case
  proof cases
    case 2
    then have "(k, m) \<in> (parent_rel N)\<^sup>+"
      using k by (intro less.hyps) (auto simp: child_of_def encloses_def)
    with step show ?thesis
      by (rule trancl_into_trancl2)
  qed (use step in simp)
qed

text \<open>Every node is a root or inside one.\<close>

lemma root_around:
  assumes inv: "tree_inv cfg N"
  shows "n \<in> N \<Longrightarrow> \<exists>r \<in> N. root_link cfg (tn_parent r) \<and> tn_right n \<le> tn_right r"
proof (induction "card {k \<in> N. encloses k n}" arbitrary: n rule: less_induct)
  case less
  show ?case
  proof (cases "root_link cfg (tn_parent n)")
    case False
    then obtain m where m: "m \<in> N" "child_of N m n"
      using parent_ok_child [OF tree_inv_parent [OF inv less.prems]] by blast
    have "{k \<in> N. encloses k m} \<subset> {k \<in> N. encloses k n}"
    proof
      show "{k \<in> N. encloses k m} \<noteq> {k \<in> N. encloses k n}"
      proof
        assume "{k \<in> N. encloses k m} = {k \<in> N. encloses k n}"
        moreover have "m \<in> {k \<in> N. encloses k n}"
          using m by (simp add: child_of_def)
        ultimately have "encloses m m"
          by blast
        then show False
          by simp
      qed
    qed (use m in \<open>auto simp: child_of_def intro: encloses_trans\<close>)
    then have "card {k \<in> N. encloses k m} < card {k \<in> N. encloses k n}"
      using inv by (intro psubset_card_mono) (auto simp: tree_inv_def)
    from less.hyps [OF this m(1)] m(2) show ?thesis
      by (force simp: child_of_def encloses_def)
  qed (use less.prems in auto)
qed

section \<open>The stored list\<close>

definition members :: "tree_config \<Rightarrow> ustring option \<Rightarrow> tree_store \<Rightarrow> tree_node set" where
  "members cfg tid st = {n \<in> set st. in_tree cfg tid n}"

definition tree_id_ok :: "tree_config \<Rightarrow> ustring option \<Rightarrow> bool" where
  "tree_id_ok cfg tid \<longleftrightarrow> (tc_treeField cfg \<longrightarrow> truthy_text tid)"

definition store_inv :: "tree_config \<Rightarrow> tree_store \<Rightarrow> bool" where
  "store_inv cfg st \<longleftrightarrow> distinct (map tn_id st) \<and> (\<forall>n \<in> set st. tree_id_ok cfg (tn_tree n)) \<and>
     (\<forall>tid. tree_id_ok cfg tid \<longrightarrow> tree_inv cfg (members cfg tid st))"

lemma listing_complete: "length st \<le> 10000 \<Longrightarrow> getNodesForTree cfg tid st = filter (in_tree cfg tid) st"
  by (auto simp: getNodesForTree_def in_tree_def [abs_def] le_trans [OF length_filter_le])

lemma find_id: "distinct (map tn_id st) \<Longrightarrow> n \<in> set st \<Longrightarrow> find (\<lambda>m. tn_id m = tn_id n) st = Some n"
  by (induction st) (auto simp: image_iff)

lemma getNode_Inr:
  assumes d: "distinct (map tn_id st)"
  shows "getNode i st = Inr n \<longleftrightarrow> n \<in> set st \<and> tn_id n = i"
proof
  assume "getNode i st = Inr n"
  then have "find (\<lambda>n. tn_id n = i) st = Some n"
    by (auto simp: getNode_def split: option.splits)
  then show "n \<in> set st \<and> tn_id n = i"
    by (auto simp: find_Some_iff)
next
  assume "n \<in> set st \<and> tn_id n = i"
  then show "getNode i st = Inr n"
    using find_id [OF d] by (auto simp: getNode_def)
qed

text \<open>The effect of a batch of patches on one node.\<close>

definition patched :: "(tree_node \<Rightarrow> tree_node \<Rightarrow> tree_node) \<Rightarrow> tree_node list \<Rightarrow> tree_node \<Rightarrow> tree_node" where
  "patched f ns n = (case find (\<lambda>m. tn_id m = tn_id n) ns of None \<Rightarrow> n | Some m \<Rightarrow> f m n)"

lemma patch_all_map:
  assumes "\<And>m n. tn_id (f m n) = tn_id n" and "distinct (map tn_id ns)"
  shows "patch_all f ns st = map (patched f ns) st"
  using assms(2)
proof (induction ns arbitrary: st)
  case Nil
  show ?case
    by (simp add: patch_all_def patched_def map_idI)
next
  case (Cons m ns)
  have "find (\<lambda>k. tn_id k = tn_id m) ns = None"
    using Cons.prems by (auto simp: find_None_iff image_iff)
  then have "patched f ns (if tn_id n = tn_id m then f m n else n) = patched f (m # ns) n" for n
    by (auto simp: patched_def assms(1))
  then show ?case
    using Cons by (simp add: patch_all_def patch_def comp_def)
qed

lemma patched_listed:
  assumes "distinct (map tn_id st)" and "n \<in> set st"
  shows "patched f (filter P st) n = (if P n then f n n else n)"
proof (cases "P n")
  case True
  then have "find (\<lambda>m. tn_id m = tn_id n) (filter P st) = Some n"
    using assms by (intro find_id) (auto simp: distinct_map_filter)
  with True show ?thesis
    by (simp add: patched_def)
next
  case False
  then have "find (\<lambda>m. tn_id m = tn_id n) (filter P st) = None"
    using assms by (auto simp: find_None_iff distinct_map dest: inj_onD)
  with False show ?thesis
    by (simp add: patched_def)
qed

lemma shiftNodes_map:
  assumes "distinct (map tn_id st)" and "length st \<le> 10000"
  shows "shiftNodes cfg p d tid st = map (\<lambda>n. if in_tree cfg tid n then renumber (shift_value p d) n else n) st"
proof -
  let ?ns = "filter (\<lambda>n. in_tree cfg tid n \<and> (tn_left n \<ge> p \<or> tn_right n \<ge> p)) st"
  have "shiftNodes cfg p d tid st = map (patched (shift_patch p d) ?ns) st"
    unfolding shiftNodes_def listing_complete [OF assms(2)] filter_filter
    using assms(1) by (subst patch_all_map) (auto simp: shift_patch_def distinct_map_filter conj_commute)
  also have "\<dots> = map (\<lambda>n. if in_tree cfg tid n then renumber (shift_value p d) n else n) st"
    using assms(1) by (intro map_cong refl)
      (auto simp: patched_listed shift_patch_def renumber_def shift_value_def)
  finally show ?thesis .
qed

lemma store_inv_step:
  assumes inv: "store_inv cfg st" and ids: "distinct (map tn_id st')" and tid: "tree_id_ok cfg tid"
    and others: "\<And>n. \<not> in_tree cfg tid n \<Longrightarrow> n \<in> set st' \<longleftrightarrow> n \<in> set st"
    and trees: "\<And>n. n \<in> set st' \<Longrightarrow> tree_id_ok cfg (tn_tree n)"
    and new: "tree_inv cfg (members cfg tid st')"
  shows "store_inv cfg st'"
proof -
  have "tree_inv cfg (members cfg t st')" if t: "tree_id_ok cfg t" for t
  proof (cases "tc_treeField cfg \<and> t \<noteq> tid")
    case True
    then have "in_tree cfg t n \<Longrightarrow> \<not> in_tree cfg tid n" for n
      using t tid by (auto simp: in_tree_def tree_id_ok_def)
    then have "members cfg t st' = members cfg t st"
      using others by (auto simp: members_def)
    then show ?thesis
      using inv t by (simp add: store_inv_def)
  next
    case False
    then have "members cfg t st' = members cfg tid st'"
      by (auto simp: members_def in_tree_def)
    with new show ?thesis
      by simp
  qed
  then show ?thesis
    using ids trees by (simp add: store_inv_def)
qed

text \<open>Applying \<open>g\<close> to the nodes of one tree.\<close>

definition map_tree :: "tree_config \<Rightarrow> ustring option \<Rightarrow> (tree_node \<Rightarrow> tree_node) \<Rightarrow> tree_store \<Rightarrow> tree_store" where
  "map_tree cfg tid g st = map (\<lambda>n. if in_tree cfg tid n then g n else n) st"

lemma in_tree_cong: "tn_tree n = tn_tree m \<Longrightarrow> in_tree cfg tid n = in_tree cfg tid m"
  by (simp add: in_tree_def)

lemma map_tree_facts:
  assumes "\<And>n. tn_id (g n) = tn_id n" and "\<And>n. tn_tree (g n) = tn_tree n"
  shows "map tn_id (map_tree cfg tid g st) = map tn_id st"
    and "members cfg tid (map_tree cfg tid g st) = g ` members cfg tid st"
    and "\<not> in_tree cfg tid n \<Longrightarrow> n \<in> set (map_tree cfg tid g st) \<longleftrightarrow> n \<in> set st"
    and "n \<in> set (map_tree cfg tid g st) \<Longrightarrow> \<exists>m \<in> set st. tn_tree n = tn_tree m"
    and "length (map_tree cfg tid g st) = length st"
proof -
  have g: "in_tree cfg tid (g m) = in_tree cfg tid m" for m
    by (rule in_tree_cong) (rule assms(2))
  show "map tn_id (map_tree cfg tid g st) = map tn_id st"
    by (simp add: map_tree_def assms(1))
  show "members cfg tid (map_tree cfg tid g st) = g ` members cfg tid st"
    using g by (auto simp: members_def map_tree_def image_iff)
  show "\<not> in_tree cfg tid n \<Longrightarrow> n \<in> set (map_tree cfg tid g st) \<longleftrightarrow> n \<in> set st"
    using g by (auto simp: map_tree_def)
  show "n \<in> set (map_tree cfg tid g st) \<Longrightarrow> \<exists>m \<in> set st. tn_tree n = tn_tree m"
    using assms(2) by (auto simp: map_tree_def)
  show "length (map_tree cfg tid g st) = length st"
    by (simp add: map_tree_def)
qed

lemma store_inv_map_tree:
  assumes inv: "store_inv cfg st" and tid: "tree_id_ok cfg tid"
    and g: "\<And>n. tn_id (g n) = tn_id n" "\<And>n. tn_tree (g n) = tn_tree n"
    and new: "tree_inv cfg (g ` members cfg tid st)"
  shows "store_inv cfg (map_tree cfg tid g st)"
proof (rule store_inv_step [OF inv _ tid])
  note facts = map_tree_facts [of g, OF g]
  show "distinct (map tn_id (map_tree cfg tid g st))"
    using inv by (simp add: facts(1) store_inv_def)
  show "n \<in> set (map_tree cfg tid g st) \<longleftrightarrow> n \<in> set st" if "\<not> in_tree cfg tid n" for n
    by (rule facts(3) [OF that])
  show "tree_id_ok cfg (tn_tree n)" if "n \<in> set (map_tree cfg tid g st)" for n
    using facts(4) [OF that] inv by (auto simp: store_inv_def)
  show "tree_inv cfg (members cfg tid (map_tree cfg tid g st))"
    using new by (simp add: facts(2))
qed

lemma shiftNodes_tree:
  assumes "store_inv cfg st" and "length st \<le> 10000"
  shows "shiftNodes cfg p d tid st = map_tree cfg tid (renumber (shift_value p d)) st"
  using assms by (simp add: shiftNodes_map map_tree_def store_inv_def)

lemma store_inv_members: "store_inv cfg st \<Longrightarrow> tree_id_ok cfg tid \<Longrightarrow> tree_inv cfg (members cfg tid st)"
  by (simp add: store_inv_def)

text \<open>A new node in a gap of two numbers.\<close>

lemma store_inv_insert:
  assumes inv: "store_inv cfg st" and len: "length st \<le> 10000" and tid: "tree_id_ok cfg tid"
    and x: "tn_left x = p" "tn_right x = p + 1" "valid_id cfg (tn_id x)" "tree_id_ok cfg (tn_tree x)" "in_tree cfg tid x"
    and host: "host_ok cfg (members cfg tid st) (\<lambda>m. tn_left m < p \<and> p \<le> tn_right m) x"
  shows "store_inv cfg (snd (insert_node x (shiftNodes cfg p 2 tid st)))"
proof -
  let ?s = "renumber (shift_value p 2)"
  let ?st = "map_tree cfg tid ?s st" and ?N = "members cfg tid st"
  note facts = map_tree_facts [of ?s, OF renumber_simps(1,3)]
  have N: "tree_inv cfg ?N"
    using inv tid by (rule store_inv_members)
  have N': "tree_inv cfg (?s ` ?N)"
    by (rule tree_inv_gap [OF N]) simp
  have st: "store_inv cfg ?st"
    by (rule store_inv_map_tree [OF inv tid]) (simp_all add: N')
  show ?thesis
  proof (cases "tn_id x \<in> tn_id ` set ?st")
    case True
    then show ?thesis
      using st by (simp add: insert_node_def shiftNodes_tree [OF inv len])
  next
    case fresh: False
    have enc: "encloses (?s m) x \<longleftrightarrow> tn_left m < p \<and> p \<le> tn_right m" for m
      by (auto simp: encloses_def x shift_value_def)
    have encs: "encloses (?s k) (?s m) \<longleftrightarrow> encloses k m" for k m
      using gap.encloses_renumber [of k m p 2] by (simp add: over_def)
    have host': "host_ok cfg (?s ` ?N) (\<lambda>m. encloses m x) x"
      using host by (auto simp: host_ok_def enc encs split: if_splits)
    have "tree_inv cfg (?s ` ?N \<union> {x})"
    proof (rule tree_inv_graft [OF N' block_single])
      show "tn_left x < tn_right x" "valid_id cfg (tn_id x)"
        using x by simp_all
      show "tn_id ` ?s ` ?N \<inter> tn_id ` {x} = {}"
        using fresh unfolding facts(2) [symmetric] by (auto simp: members_def)
      show "tn_right n < tn_left x \<or> tn_right x < tn_left n \<or> encloses n x" if n: "n \<in> ?s ` ?N" for n
      proof -
        obtain m where "m \<in> ?N" "n = ?s m"
          using n by blast
        then show ?thesis
          using x(1,2) tree_inv_order [OF N, of m] by (auto simp: encloses_def shift_value_def)
      qed
    qed (rule host')
    moreover have "members cfg tid (?st @ [x]) = members cfg tid ?st \<union> {x}"
      using x(5) by (auto simp: members_def)
    ultimately have "tree_inv cfg (members cfg tid (?st @ [x]))"
      by (simp add: facts(2))
    moreover have "distinct (map tn_id (?st @ [x]))"
      using st fresh by (auto simp: store_inv_def)
    ultimately have "store_inv cfg (?st @ [x])"
      using x(4,5) facts(3) st by (intro store_inv_step [OF inv _ tid]) (auto simp: store_inv_def)
    then show ?thesis
      using fresh by (simp add: insert_node_def shiftNodes_tree [OF inv len])
  qed
qed

section \<open>Insertions keep the tree\<close>

lemma node_tree:
  assumes "store_inv cfg st" and "n \<in> set st"
  shows "tree_id_ok cfg (getTreeId cfg n)" and "n \<in> members cfg (getTreeId cfg n) st"
  using assms by (auto simp: store_inv_def tree_id_ok_def getTreeId_def members_def in_tree_def)

lemma new_node_simps [simp]:
  "tn_id (new_node i p t l d) = i" "tn_parent (new_node i p t l d) = p" "tn_tree (new_node i p t l d) = t"
  "tn_left (new_node i p t l d) = l" "tn_right (new_node i p t l d) = l + 1" "tn_depth (new_node i p t l d) = d"
  by (simp_all add: new_node_def)

lemma child_tree_ok:
  assumes "tree_id_ok cfg tid"
  shows "tree_id_ok cfg (child_tree cfg tid t)" and "in_tree cfg tid (new_node i p (child_tree cfg tid t) l d)"
  using assms by (auto simp: tree_id_ok_def child_tree_def in_tree_def)

lemma host_sibling:
  assumes "parent_ok cfg N s" and "tn_parent x = tn_parent s" and "tn_depth x = tn_depth s"
    and "\<And>k. k \<in> N \<Longrightarrow> R k \<longleftrightarrow> encloses k s"
  shows "host_ok cfg N R x"
  using assms by (auto simp: host_ok_def parent_ok_def child_of_def split: if_splits)

lemma store_inv_insertBefore:
  assumes inv: "store_inv cfg st" and len: "length st \<le> 10000" and i: "valid_id cfg i"
  shows "store_inv cfg (snd (insertBefore cfg sib i t st))"
proof (cases "getNode sib st")
  case (Inr s)
  then have s: "s \<in> set st"
    using inv by (simp add: getNode_Inr store_inv_def)
  note tid = node_tree [OF inv s] and N = store_inv_members [OF inv node_tree(1) [OF inv s]]
  have R: "tn_left k < tn_left s \<and> tn_left s \<le> tn_right k \<longleftrightarrow> encloses k s"
    if "k \<in> members cfg (getTreeId cfg s) st" for k
    using tree_inv_apart [OF N that tid(2)] tree_inv_order [OF N tid(2)] tree_inv_order [OF N that]
    by (cases "k = s") (auto simp: apart_def encloses_def)
  have "store_inv cfg (snd (insert_node
      (new_node i (tn_parent s) (child_tree cfg (getTreeId cfg s) t) (tn_left s) (tn_depth s))
      (shiftNodes cfg (tn_left s) 2 (getTreeId cfg s) st)))"
    by (rule store_inv_insert [OF inv len tid(1) _ _ _ _ _ host_sibling [OF tree_inv_parent [OF N tid(2)] _ _ R]])
      (simp_all add: i child_tree_ok [OF tid(1)])
  then show ?thesis
    by (simp add: insertBefore_def Inr Let_def)
qed (simp add: insertBefore_def inv)

lemma store_inv_insertAfter:
  assumes inv: "store_inv cfg st" and len: "length st \<le> 10000" and i: "valid_id cfg i"
  shows "store_inv cfg (snd (insertAfter cfg sib i t st))"
proof (cases "getNode sib st")
  case (Inr s)
  then have s: "s \<in> set st"
    using inv by (simp add: getNode_Inr store_inv_def)
  note tid = node_tree [OF inv s] and N = store_inv_members [OF inv node_tree(1) [OF inv s]]
  have R: "tn_left k < tn_right s + 1 \<and> tn_right s + 1 \<le> tn_right k \<longleftrightarrow> encloses k s"
    if "k \<in> members cfg (getTreeId cfg s) st" for k
    using tree_inv_apart [OF N that tid(2)] tree_inv_order [OF N tid(2)] tree_inv_order [OF N that]
    by (cases "k = s") (auto simp: apart_def encloses_def)
  have "store_inv cfg (snd (insert_node
      (new_node i (tn_parent s) (child_tree cfg (getTreeId cfg s) t) (tn_right s + 1) (tn_depth s))
      (shiftNodes cfg (tn_right s + 1) 2 (getTreeId cfg s) st)))"
    by (rule store_inv_insert [OF inv len tid(1) _ _ _ _ _ host_sibling [OF tree_inv_parent [OF N tid(2)] _ _ R]])
      (simp_all add: i child_tree_ok [OF tid(1)])
  then show ?thesis
    by (simp add: insertAfter_def Inr Let_def)
qed (simp add: insertAfter_def inv)

lemma store_inv_addChild:
  assumes inv: "store_inv cfg st" and len: "length st \<le> 10000" and i: "valid_id cfg i"
  shows "store_inv cfg (snd (addChild cfg par i t st))"
proof (cases "getNode par st")
  case (Inr m)
  then have m: "m \<in> set st" "tn_id m = par"
    using inv by (simp_all add: getNode_Inr store_inv_def)
  note tid = node_tree [OF inv m(1)] and N = store_inv_members [OF inv node_tree(1) [OF inv m(1)]]
  let ?tid = "getTreeId cfg m"
  let ?x = "new_node i (Some par) (child_tree cfg ?tid t) (tn_right m) (tn_depth m + 1)"
  let ?st = "shiftNodes cfg (tn_right m) 2 ?tid st"
  have no_root: "\<not> root_link cfg (Some par)"
    using N tid(2) m(2) by (auto simp: tree_inv_def root_link_def valid_id_def)
  have "k = m \<or> encloses k m" if "k \<in> members cfg ?tid st" "tn_left k < tn_right m" "tn_right m \<le> tn_right k" for k
    using tree_inv_apart [OF N that(1) tid(2)] tree_inv_order [OF N that(1)] tree_inv_order [OF N tid(2)] that(2,3)
    by (auto simp: apart_def encloses_def)
  then have host: "host_ok cfg (members cfg ?tid st) (\<lambda>k. tn_left k < tn_right m \<and> tn_right m \<le> tn_right k) ?x"
    using no_root tid(2) m(2) tree_inv_order [OF N tid(2)] by (auto simp: host_ok_def)
  have ins: "store_inv cfg (snd (insert_node ?x ?st))"
    by (rule store_inv_insert [OF inv len tid(1)]) (simp_all add: i child_tree_ok [OF tid(1)] host)
  have "patch par (\<lambda>n. n\<lparr>tn_right := tn_right m + 2\<rparr>) (snd (insert_node ?x ?st)) = snd (insert_node ?x ?st)"
    if "fst (insert_node ?x ?st) = Inr ?x"
  proof -
    have fresh: "tn_id ?x \<notin> set (map tn_id ?st)"
      using that by (auto simp: insert_node_def split: if_splits)
    have "n = renumber (shift_value (tn_right m) 2) m" if "n \<in> set ?st" "tn_id n = par" for n
      using that m inv tid(2) unfolding shiftNodes_tree [OF inv len]
      by (auto simp: map_tree_def members_def store_inv_def distinct_map dest: inj_onD split: if_splits)
    then have same: "n\<lparr>tn_right := tn_right m + 2\<rparr> = n" if "n \<in> set ?st" "tn_id n = par" for n
      using that by (force simp: renumber_def shift_value_def)
    have "par \<in> set (map tn_id ?st)"
      using m unfolding shiftNodes_tree [OF inv len] by (force simp: map_tree_def)
    then have "i \<noteq> par"
      using fresh by auto
    with same fresh show ?thesis
      by (auto simp: patch_def insert_node_def intro!: map_idI)
  qed
  then show ?thesis
    using ins by (auto simp: addChild_def Inr Let_def split: prod.splits sum.splits)
      (auto simp: insert_node_def split: if_splits)
qed (simp add: addChild_def inv)

lemma fold_max_right: "r \<in> set rs \<or> tn_right r \<le> m \<Longrightarrow> tn_right r \<le> fold (\<lambda>r m. max m (tn_right r)) rs m"
proof (induction rs arbitrary: m)
  case (Cons q rs)
  have "r \<in> set rs \<or> tn_right r \<le> max m (tn_right q)"
    using Cons.prems by (auto simp: le_max_iff_disj)
  from Cons.IH [OF this] show ?case
    unfolding fold_simps comp_apply .
qed simp

lemma map_tree_id: "(\<And>n. n \<in> members cfg tid st \<Longrightarrow> g n = n) \<Longrightarrow> map_tree cfg tid g st = st"
  unfolding map_tree_def members_def by (rule map_idI) (metis (mono_tags, lifting) mem_Collect_eq)

lemma store_inv_createRoot:
  assumes inv: "store_inv cfg st" and len: "length st \<le> 10000" and i: "valid_id cfg i" and t: "tree_id_ok cfg t"
  shows "store_inv cfg (snd (createRoot cfg i t st))"
proof -
  let ?tid = "if tc_treeField cfg then t else None"
  define mx where "mx = fold (\<lambda>r m. max m (tn_right r)) (getRoots cfg ?tid st) 0"
  let ?x = "new_node i (tc_rootParent cfg) t (mx + 1) 0"
  have tid: "tree_id_ok cfg ?tid"
    using t by (simp add: tree_id_ok_def)
  have N: "tree_inv cfg (members cfg ?tid st)"
    using inv tid by (rule store_inv_members)
  have max: "tn_right n \<le> mx" if n: "n \<in> members cfg ?tid st" for n
  proof -
    obtain r where "r \<in> members cfg ?tid st" "root_link cfg (tn_parent r)" "tn_right n \<le> tn_right r"
      using root_around [OF N n] by blast
    moreover from this have "r \<in> set (getRoots cfg ?tid st)"
      by (auto simp: getRoots_def listing_complete [OF len] members_def root_link_def)
    ultimately show ?thesis
      using fold_max_right [of r "getRoots cfg ?tid st" 0] by (simp add: mx_def)
  qed
  have "renumber (shift_value (mx + 1) 2) n = n" if "n \<in> members cfg ?tid st" for n
    using max [OF that] tree_inv_order [OF N that] by (simp add: renumber_def shift_value_def)
  then have "shiftNodes cfg (mx + 1) 2 ?tid st = st"
    unfolding shiftNodes_tree [OF inv len] by (rule map_tree_id)
  moreover have "host_ok cfg (members cfg ?tid st) (\<lambda>m. tn_left m < mx + 1 \<and> mx + 1 \<le> tn_right m) ?x"
    using max by (simp add: host_ok_def root_link_def not_le zle_add1_eq_le)
  then have "store_inv cfg (snd (insert_node ?x (shiftNodes cfg (mx + 1) 2 ?tid st)))"
    by (rule store_inv_insert [OF inv len tid, rotated 5]) (simp_all add: i t in_tree_def)
  ultimately show ?thesis
    by (simp add: createRoot_def Let_def flip: mx_def)
qed

section \<open>Removals keep the tree\<close>

lemma members_subset: "members cfg tid st \<subseteq> set st"
  by (auto simp: members_def)

text \<open>The subtree that \<open>getDescendants\<close> lists, with the node.\<close>

lemma subtree_listed:
  assumes inv: "store_inv cfg st" and len: "length st \<le> 10000" and d: "d \<in> set st"
  shows "\<exists>ns. getDescendants cfg True None (tn_id d) st = Inr ns \<and> distinct (map tn_id ns) \<and>
    set ns = subtree_of (members cfg (getTreeId cfg d) st) d"
proof -
  have "getNode (tn_id d) st = Inr d"
    using inv d by (simp add: getNode_Inr store_inv_def)
  moreover have "distinct (map tn_id (sort_key tn_left (filter P st)))" for P
  proof -
    have "distinct (map tn_id (filter P st))"
      using inv by (simp add: store_inv_def distinct_map_filter)
    then show ?thesis
      by (simp add: distinct_map)
  qed
  ultimately show ?thesis
    by (auto simp: getDescendants_def listing_complete [OF len] subtree_of_def members_def)
qed

lemma fold_delete_node:
  "fold (\<lambda>n. delete_node (tn_id n)) ns st = filter (\<lambda>n. tn_id n \<notin> tn_id ` set ns) st"
  by (induction ns arbitrary: st) (auto simp: delete_node_def intro!: filter_cong)

lemma ids_of_subset:
  assumes "distinct (map tn_id st)" and "S \<subseteq> set st" and "n \<in> set st"
  shows "tn_id n \<in> tn_id ` S \<longleftrightarrow> n \<in> S"
  using assms by (auto simp: distinct_map inj_on_def)

lemma store_inv_filter:
  assumes inv: "store_inv cfg st" and d: "d \<in> set st"
  shows "store_inv cfg (filter (\<lambda>n. n \<notin> subtree_of (members cfg (getTreeId cfg d) st) d) st)"
proof -
  let ?N = "members cfg (getTreeId cfg d) st"
  note tid = node_tree [OF inv d]
  have "members cfg (getTreeId cfg d) (filter (\<lambda>n. n \<notin> subtree_of ?N d) st) = ?N - subtree_of ?N d"
    by (auto simp: members_def)
  then have "tree_inv cfg (members cfg (getTreeId cfg d) (filter (\<lambda>n. n \<notin> subtree_of ?N d) st))"
    using tree_inv_remove_subtree [OF store_inv_members [OF inv tid(1)] tid(2)] by simp
  then show ?thesis
    using inv by (intro store_inv_step [OF inv _ tid(1)])
      (auto simp: store_inv_def distinct_map_filter subtree_of_def members_def)
qed

lemma store_inv_cut:
  assumes inv: "store_inv cfg st" and len: "length st \<le> 10000" and d: "d \<in> set st"
    and w: "0 \<le> w" "w \<le> tn_right d - tn_left d + 1"
  shows "store_inv cfg (shiftNodes cfg (tn_right d + 1) (- w) (getTreeId cfg d)
    (filter (\<lambda>n. n \<notin> subtree_of (members cfg (getTreeId cfg d) st) d) st))"
proof -
  let ?N = "members cfg (getTreeId cfg d) st"
  let ?st = "filter (\<lambda>n. n \<notin> subtree_of ?N d) st"
  note tid = node_tree [OF inv d]
  have N: "tree_inv cfg ?N"
    using inv tid(1) by (rule store_inv_members)
  have st: "store_inv cfg ?st"
    using inv d by (rule store_inv_filter)
  have members: "members cfg (getTreeId cfg d) ?st = ?N - subtree_of ?N d"
    by (auto simp: members_def)
  have "tree_inv cfg (renumber (shift_value (tn_right d + 1) (- w)) ` (?N - subtree_of ?N d))"
    by (rule tree_inv_closing [where a = "tn_left d"])
      (use tree_inv_remove_subtree [OF N tid(2)] w outside_subtree [OF N tid(2)] in auto)
  then have "store_inv cfg (map_tree cfg (getTreeId cfg d) (renumber (shift_value (tn_right d + 1) (- w))) ?st)"
    by (intro store_inv_map_tree [OF st tid(1)]) (simp_all add: members)
  moreover have "length ?st \<le> 10000"
    using len by (rule order_trans [OF length_filter_le])
  ultimately show ?thesis
    using st by (simp add: shiftNodes_tree)
qed

lemma store_inv_deleteSubtree:
  assumes inv: "store_inv cfg st" and len: "length st \<le> 10000"
  shows "store_inv cfg (snd (deleteSubtree cfg i st))"
proof (cases "getNode i st")
  case (Inr d)
  then have d: "d \<in> set st" "tn_id d = i"
    using inv by (simp_all add: getNode_Inr store_inv_def)
  let ?S = "subtree_of (members cfg (getTreeId cfg d) st) d"
  obtain ns where ns: "getDescendants cfg True None i st = Inr ns" "set ns = ?S"
    using subtree_listed [OF inv len d(1)] d(2) by blast
  have "?S \<subseteq> set st"
    by (auto simp: subtree_of_def members_def)
  then have "tn_id n \<in> tn_id ` ?S \<longleftrightarrow> n \<in> ?S" if "n \<in> set st" for n
    using inv that by (intro ids_of_subset) (auto simp: store_inv_def)
  then have "fold (\<lambda>n. delete_node (tn_id n)) ns st = filter (\<lambda>n. n \<notin> ?S) st"
    unfolding fold_delete_node ns(2) by (intro filter_cong refl) simp
  moreover have "tn_left d < tn_right d"
    using tree_inv_order [OF store_inv_members [OF inv]] node_tree [OF inv d(1)] by blast
  ultimately show ?thesis
    using store_inv_cut [OF inv len d(1), of "tn_right d - tn_left d + 1"]
    by (simp add: deleteSubtree_def Inr Let_def ns)
qed (simp add: deleteSubtree_def inv)

lemma store_inv_deleteNode:
  assumes inv: "store_inv cfg st" and len: "length st \<le> 10000"
  shows "store_inv cfg (snd (deleteNode cfg False i st))"
proof (cases "getNode i st")
  case (Inr d)
  then have d: "d \<in> set st" "tn_id d = i"
    using inv by (simp_all add: getNode_Inr store_inv_def)
  let ?N = "members cfg (getTreeId cfg d) st"
  note tid = node_tree [OF inv d(1)]
  have N: "tree_inv cfg ?N"
    using inv tid(1) by (rule store_inv_members)
  show ?thesis
  proof (cases "getChildren cfg tn_left True i st = []")
    case True
    have "\<not> encloses d n" if "n \<in> ?N" for n
    proof
      assume "encloses d n"
      then have "(n, d) \<in> (parent_rel ?N)\<^sup>+"
        using encloses_chain [OF N tid(2)] that by blast
      then obtain c where "(c, d) \<in> parent_rel ?N"
        by (auto dest: tranclD2)
      then have "c \<in> set (getChildren cfg tn_left True i st)"
        using len d(2) by (auto simp: getChildren_def parent_rel_def members_def le_trans [OF length_filter_le])
      with True show False
        by simp
    qed
    then have "subtree_of ?N d = {d}"
      using tid(2) by (auto simp: subtree_encloses [OF N tid(2)])
    then have "filter (\<lambda>n. n \<notin> subtree_of ?N d) st = delete_node i st"
      unfolding delete_node_def using inv d
      by (intro filter_cong refl) (auto simp: store_inv_def distinct_map dest: inj_onD)
    then show ?thesis
      using store_inv_cut [OF inv len d(1), of 2] tree_inv_order [OF N tid(2)] True
      by (simp add: deleteNode_def Inr Let_def)
  qed (simp add: deleteNode_def Inr Let_def inv)
qed (simp add: deleteNode_def inv)

section \<open>Moves keep the tree\<close>

lemma host_at_right:
  assumes N: "tree_inv cfg N" and m: "m \<in> N" and x: "tn_parent x = Some (tn_id m)" "tn_depth x = tn_depth m + 1"
  shows "host_ok cfg N (\<lambda>k. tn_left k < tn_right m \<and> tn_right m \<le> tn_right k) x"
proof -
  have "\<not> root_link cfg (tn_parent x)"
    using N m x(1) by (auto simp: tree_inv_def root_link_def valid_id_def)
  moreover have "k = m \<or> encloses k m" if "k \<in> N" "tn_left k < tn_right m" "tn_right m \<le> tn_right k" for k
    using tree_inv_apart [OF N that(1) m] tree_inv_order [OF N that(1)] tree_inv_order [OF N m] that(2,3)
    by (auto simp: apart_def encloses_def)
  ultimately show ?thesis
    using m x tree_inv_order [OF N m] by (auto simp: host_ok_def)
qed

text \<open>A block as wide as the gap, in the gap.\<close>

lemma tree_inv_fill:
  assumes N: "tree_inv cfg N" and blk: "block cfg D x" and ids: "tn_id ` N \<inter> tn_id ` D = {}"
    and x: "tn_left x = p" "tn_right x = p + w - 1"
    and host: "host_ok cfg N (\<lambda>m. tn_left m < p \<and> p \<le> tn_right m) x"
  shows "tree_inv cfg (renumber (shift_value p w) ` N \<union> D)"
proof -
  let ?s = "renumber (shift_value p w)"
  have w: "0 < w"
    using blk x by (auto simp: block_def)
  have N': "tree_inv cfg (?s ` N)"
    using w by (intro tree_inv_gap [OF N]) simp
  have enc: "encloses (?s m) x \<longleftrightarrow> tn_left m < p \<and> p \<le> tn_right m" for m
    using w by (auto simp: encloses_def x shift_value_def)
  have encs: "encloses (?s k) (?s m) \<longleftrightarrow> encloses k m" for k m
    using gap.encloses_renumber [of k m p "nat w"] w by (simp add: over_def)
  have host': "host_ok cfg (?s ` N) (\<lambda>m. encloses m x) x"
    using host by (auto simp: host_ok_def enc encs split: if_splits)
  show ?thesis
  proof (rule tree_inv_graft [OF N' blk])
    show "tn_id ` ?s ` N \<inter> tn_id ` D = {}"
      using ids by (simp add: image_image)
    show "tn_right n < tn_left x \<or> tn_right x < tn_left n \<or> encloses n x" if n: "n \<in> ?s ` N" for n
    proof -
      obtain m where "m \<in> N" "n = ?s m"
        using n by blast
      then show ?thesis
        using x tree_inv_order [OF N, of m] by (auto simp: encloses_def shift_value_def)
    qed
  qed (rule host')
qed

definition placed :: "tree_node \<Rightarrow> ustring \<Rightarrow> int \<Rightarrow> int \<Rightarrow> tree_node \<Rightarrow> tree_node" where
  "placed d newParentId p delta n = place_patch d newParentId p delta n n"

lemma placed_simps [simp]:
  "tn_id (placed d q p delta n) = tn_id n" "tn_tree (placed d q p delta n) = tn_tree n"
  "tn_left (placed d q p delta n) = p + (tn_left n - tn_left d)"
  "tn_right (placed d q p delta n) = p + (tn_right n - tn_left d)"
  "tn_depth (placed d q p delta n) = tn_depth n + delta"
  "tn_parent (placed d q p delta n) = (if tn_id n = tn_id d then Some q else tn_parent n)"
  by (simp_all add: placed_def place_patch_def)

lemma block_placed:
  assumes blk: "block cfg D d"
  shows "block cfg (placed d q p delta ` D) (placed d q p delta d)"
proof -
  let ?f = "placed d q p delta"
  have enc: "encloses (?f a) (?f b) \<longleftrightarrow> encloses a b" for a b
    by (auto simp: encloses_def)
  have ap: "apart a b \<Longrightarrow> apart (?f a) (?f b)" for a b
    unfolding apart_def enc by auto
  have d: "d \<in> D" and inj: "n \<in> D \<Longrightarrow> m \<in> D \<Longrightarrow> tn_id n = tn_id m \<Longrightarrow> n = m" for n m
    using blk by (auto simp: block_def inj_on_def)
  have "encloses (?f d) (?f n) \<and> \<not> root_link cfg (tn_parent (?f n)) \<and> (\<exists>m \<in> ?f ` D. child_of (?f ` D) m (?f n))"
    if n: "n \<in> D" "n \<noteq> d" for n
  proof -
    have nd: "tn_id n \<noteq> tn_id d"
      using inj [OF n(1) d] n(2) by blast
    obtain m where m: "m \<in> D" "child_of D m n" and "encloses d n" "\<not> root_link cfg (tn_parent n)"
      using blk n by (auto simp: block_def)
    moreover have "child_of (?f ` D) (?f m) (?f n)"
      using m nd by (auto simp: child_of_def enc)
    ultimately show ?thesis
      using nd enc by auto
  qed
  moreover have "finite (?f ` D) \<and> ?f d \<in> ?f ` D \<and> inj_on tn_id (?f ` D)"
    using blk by (auto simp: block_def inj_on_def)
  moreover have "\<forall>n \<in> ?f ` D. tn_left n < tn_right n \<and> valid_id cfg (tn_id n)"
    using blk by (auto simp: block_def)
  moreover have "\<forall>n \<in> ?f ` D. \<forall>m \<in> ?f ` D. n \<noteq> m \<longrightarrow> apart n m"
    using blk by (auto simp: block_def intro!: ap)
  ultimately show ?thesis
    unfolding block_def by blast
qed

text \<open>The node sets of a move.\<close>

lemma tree_inv_move:
  assumes N: "tree_inv cfg N" and d: "d \<in> N" and m: "m \<in> N - subtree_of N d"
    and w: "w = tn_right d - tn_left d + 1" and p: "p = shift_value (tn_right d + 1) (- w) (tn_right m)"
  shows "tree_inv cfg (renumber (shift_value p w) ` renumber (shift_value (tn_right d + 1) (- w)) ` (N - subtree_of N d) \<union>
    placed d (tn_id m) p (tn_depth m + 1 - tn_depth d) ` subtree_of N d)"
proof -
  let ?S = "subtree_of N d" and ?c = "renumber (shift_value (tn_right d + 1) (- w))"
  let ?f = "placed d (tn_id m) p (tn_depth m + 1 - tn_depth d)"
  have w0: "0 < w"
    using tree_inv_order [OF N d] w by simp
  have N1: "tree_inv cfg (?c ` (N - ?S))"
    by (rule tree_inv_closing [where a = "tn_left d"])
      (use tree_inv_remove_subtree [OF N d] w w0 outside_subtree [OF N d] in auto)
  have ids: "tn_id ` ?c ` (N - ?S) \<inter> tn_id ` ?f ` ?S = {}"
  proof -
    have "tn_id a \<noteq> tn_id b" if "a \<in> N - ?S" "b \<in> ?S" for a b
      using tree_inv_inj [OF N, of a b] that by (auto simp: subtree_of_def)
    then show ?thesis
      by (auto simp: image_image)
  qed
  have "host_ok cfg (?c ` (N - ?S)) (\<lambda>k. tn_left k < tn_right (?c m) \<and> tn_right (?c m) \<le> tn_right k) (?f d)"
    by (rule host_at_right [OF N1]) (use m in auto)
  then show ?thesis
    by (intro tree_inv_fill [OF N1 block_placed [OF subtree_block [OF N d]] ids]) (simp_all add: p w)
qed

text \<open>What the four batches of \<open>moveSubtree\<close> do to a node, when the subtree is \<open>S\<close>.\<close>

definition moved :: "tree_config \<Rightarrow> ustring option \<Rightarrow> tree_node set \<Rightarrow> tree_node \<Rightarrow> ustring \<Rightarrow> int \<Rightarrow> int \<Rightarrow> int \<Rightarrow>
    tree_node \<Rightarrow> tree_node" where
  "moved cfg tid S d q w p delta n =
     (if n \<in> S then placed d q p delta n
      else if in_tree cfg tid n then renumber (shift_value p w) (renumber (shift_value (tn_right d + 1) (- w)) n)
      else n)"

lemma find_in_set:
  assumes "distinct (map tn_id st)" and "distinct (map tn_id ns)" and "set ns \<subseteq> set st" and "n \<in> set st" and "tn_id k = tn_id n"
  shows "find (\<lambda>m. tn_id m = tn_id k) ns = (if n \<in> set ns then Some n else None)"
proof (cases "n \<in> set ns")
  case True
  then show ?thesis
    using find_id [OF assms(2) True] assms(5) by simp
next
  case False
  have "inj_on tn_id (set st)"
    using assms(1) by (simp add: distinct_map)
  then have "tn_id m \<noteq> tn_id n" if "m \<in> set ns" for m
    using assms(3,4) that False by (metis inj_onD subsetD)
  then have "find (\<lambda>m. tn_id m = tn_id k) ns = None"
    unfolding find_None_iff assms(5) by blast
  with False show ?thesis
    by simp
qed

lemma patched_in:
  assumes "distinct (map tn_id st)" and "distinct (map tn_id ns)" and "set ns \<subseteq> set st" and "n \<in> set st" and "tn_id k = tn_id n"
  shows "patched f ns k = (if n \<in> set ns then f n k else k)"
  by (simp add: patched_def find_in_set [OF assms])

lemma shiftNodes_map':
  assumes "map tn_id st' = map tn_id st" and "distinct (map tn_id st)" and "length st \<le> 10000"
  shows "shiftNodes cfg p d tid st' = map (\<lambda>n. if in_tree cfg tid n then renumber (shift_value p d) n else n) st'"
proof (rule shiftNodes_map)
  show "distinct (map tn_id st')"
    unfolding assms(1) by (rule assms(2))
  show "length st' \<le> 10000"
    using map_eq_imp_length_eq [OF assms(1)] assms(3) by simp
qed

lemma batch_ids [simp]:
  "tn_id (stash_patch x l n) = tn_id n" "tn_tree (stash_patch x l n) = tn_tree n" "tn_parent (stash_patch x l n) = tn_parent n"
  "tn_id (place_patch d q p delta l n) = tn_id n" "tn_tree (place_patch d q p delta l n) = tn_tree n"
  by (simp_all add: stash_patch_def place_patch_def)

lemma moveSubtree_map:
  assumes ids: "distinct (map tn_id st)" and len: "length st \<le> 10000"
    and d: "d \<in> set st" and m: "m \<in> set st" and q: "tn_id m = q"
    and ns: "getDescendants cfg True None (tn_id d) st = Inr ns" "distinct (map tn_id ns)" "set ns = S"
    and S: "S \<subseteq> members cfg tid st" "m \<notin> S" "in_tree cfg tid m"
    and ok: "tid = getTreeId cfg d" "tc_treeField cfg \<longrightarrow> getTreeId cfg m = tid"
    and go: "\<not> encloses d m" "tn_parent d \<noteq> Some q"
    and w: "w = tn_right d - tn_left d + 1" and p: "p = shift_value (tn_right d + 1) (- w) (tn_right m)"
  shows "snd (moveSubtree cfg (tn_id d) q st) = map (moved cfg tid S d q w p (tn_depth m + 1 - tn_depth d)) st"
proof -
  let ?delta = "tn_depth m + 1 - tn_depth d"
  define g1 where "g1 = (\<lambda>n. if n \<in> S then stash_patch (tn_left d) n n else n)"
  define g2 where "g2 = (\<lambda>n. if in_tree cfg tid (g1 n) then renumber (shift_value (tn_right d + 1) (- w)) (g1 n) else g1 n)"
  define g3 where "g3 = (\<lambda>n. if in_tree cfg tid (g2 n) then renumber (shift_value p w) (g2 n) else g2 n)"
  have same [simp]: "tn_id (g1 n) = tn_id n" "tn_id (g2 n) = tn_id n" "tn_id (g3 n) = tn_id n" for n
    by (simp_all add: g1_def g2_def g3_def)
  have tree [simp]: "in_tree cfg tid (g1 n) = in_tree cfg tid n" "in_tree cfg tid (g2 n) = in_tree cfg tid n" for n
    by (simp_all add: g1_def g2_def in_tree_def)
  have sub: "set ns \<subseteq> set st"
    using ns(3) S(1) by (auto simp: members_def)
  note pin = patched_in [OF ids ns(2) sub]
  have st1: "patch_all (stash_patch (tn_left d)) ns st = map g1 st"
    using pin [OF _ refl] by (subst patch_all_map [OF _ ns(2)]) (simp_all add: ns(3) g1_def)
  have st2: "shiftNodes cfg (tn_right d + 1) (- w) tid (map g1 st) = map g2 st"
    by (subst shiftNodes_map' [OF _ ids len]) (simp_all add: comp_def g2_def)
  have st3: "shiftNodes cfg p w tid (map g2 st) = map g3 st"
    by (subst shiftNodes_map' [OF _ ids len]) (simp_all add: comp_def g3_def)
  have m2: "g2 m = renumber (shift_value (tn_right d + 1) (- w)) m"
    using S(2,3) by (simp add: g1_def g2_def)
  have node2: "getNode q (map g2 st) = Inr (renumber (shift_value (tn_right d + 1) (- w)) m)"
    using ids m q by (subst getNode_Inr) (auto simp: comp_def m2 [symmetric])
  have "place_patch d q p ?delta n (g3 n) = placed d q p ?delta n" if "n \<in> S" for n
    using that by (simp add: placed_def place_patch_def stash_patch_def renumber_def g1_def g2_def g3_def)
  moreover have "g3 n = (if in_tree cfg tid n then renumber (shift_value p w) (renumber (shift_value (tn_right d + 1) (- w)) n) else n)"
    if "n \<notin> S" for n
    using that by (simp add: g3_def, simp add: g2_def g1_def)
  ultimately have st4: "patch_all (place_patch d q p ?delta) ns (map g3 st) = map (moved cfg tid S d q w p ?delta) st"
    using pin [of _ "g3 n" for n] by (subst patch_all_map [OF _ ns(2)]) (simp_all add: ns(3) moved_def pin)
  have nodes: "getNode (tn_id d) st = Inr d" "getNode q st = Inr m"
    using d m q by (simp_all add: getNode_Inr [OF ids])
  have "snd (moveSubtree cfg (tn_id d) q st) = patch_all (place_patch d q p ?delta) ns
      (shiftNodes cfg p w tid (map g2 st))"
    using ok(2) go
    by (auto simp: moveSubtree_def nodes Let_def ns(1) st1 st2 node2 ok(1) [symmetric] w [symmetric] p [symmetric])
  then show ?thesis
    by (simp only: st1 st2 st3 st4)
qed

lemma moved_simps:
  "tn_id (moved cfg tid S d q w p delta n) = tn_id n" "tn_tree (moved cfg tid S d q w p delta n) = tn_tree n"
  by (simp_all add: moved_def)

lemma store_inv_moved:
  assumes inv: "store_inv cfg st" and tid: "tree_id_ok cfg tid" and d: "d \<in> members cfg tid st"
    and m: "m \<in> members cfg tid st - subtree_of (members cfg tid st) d"
    and w: "w = tn_right d - tn_left d + 1" and p: "p = shift_value (tn_right d + 1) (- w) (tn_right m)"
  shows "store_inv cfg (map (moved cfg tid (subtree_of (members cfg tid st) d) d (tn_id m) w p
    (tn_depth m + 1 - tn_depth d)) st)"
proof -
  let ?N = "members cfg tid st"
  let ?S = "subtree_of ?N d"
  let ?f = "moved cfg tid ?S d (tn_id m) w p (tn_depth m + 1 - tn_depth d)"
  have S: "n \<in> ?S \<Longrightarrow> in_tree cfg tid n" for n
    by (simp add: subtree_of_def members_def)
  have "map ?f st = map_tree cfg tid ?f st"
    using S by (auto simp: map_tree_def moved_def)
  moreover have "?f ` ?N = renumber (shift_value p w) ` renumber (shift_value (tn_right d + 1) (- w)) ` (?N - ?S) \<union>
      placed d (tn_id m) p (tn_depth m + 1 - tn_depth d) ` ?S"
  proof -
    have "?f ` ?N = ?f ` (?N - ?S) \<union> ?f ` ?S"
      using image_Un [of ?f "?N - ?S" ?S] by (simp add: subtree_of_def Un_absorb2 Un_commute Collect_subset)
    moreover have "?f ` (?N - ?S) = renumber (shift_value p w) ` renumber (shift_value (tn_right d + 1) (- w)) ` (?N - ?S)"
      unfolding image_image by (intro image_cong refl) (auto simp: moved_def members_def)
    moreover have "?f ` ?S = placed d (tn_id m) p (tn_depth m + 1 - tn_depth d) ` ?S"
      by (intro image_cong refl) (simp add: moved_def)
    ultimately show ?thesis
      by simp
  qed
  ultimately show ?thesis
    using tree_inv_move [OF store_inv_members [OF inv tid] d m w p]
    by (simp add: store_inv_map_tree [OF inv tid] moved_simps)
qed

lemma store_inv_moveSubtree:
  assumes inv: "store_inv cfg st" and len: "length st \<le> 10000" and iq: "i \<noteq> q"
  shows "store_inv cfg (snd (moveSubtree cfg i q st))"
proof -
  have ids: "distinct (map tn_id st)"
    using inv by (simp add: store_inv_def)
  consider d m where "getNode i st = Inr d" "getNode q st = Inr m"
      "\<not> (tc_treeField cfg \<and> getTreeId cfg d \<noteq> getTreeId cfg m)" "\<not> encloses d m" "tn_parent d \<noteq> Some q"
    | "snd (moveSubtree cfg i q st) = st"
  proof (cases "\<exists>d m. getNode i st = Inr d \<and> getNode q st = Inr m \<and> \<not> (tc_treeField cfg \<and> getTreeId cfg d \<noteq> getTreeId cfg m) \<and>
      \<not> encloses d m \<and> tn_parent d \<noteq> Some q")
    case False
    then have "snd (moveSubtree cfg i q st) = st"
      by (cases "getNode i st"; cases "getNode q st") (auto simp: moveSubtree_def Let_def)
    then show thesis
      by (rule that(2))
  qed (use that(1) in blast)
  then show ?thesis
  proof cases
    case (1 d m)
    then have d: "d \<in> set st" "tn_id d = i" and m: "m \<in> set st" "tn_id m = q"
      by (simp_all add: getNode_Inr [OF ids])
    note tid = node_tree [OF inv d(1)]
    let ?N = "members cfg (getTreeId cfg d) st"
    have mN: "m \<in> ?N"
      using m(1) 1(3) by (auto simp: members_def in_tree_def getTreeId_def)
    have "m \<notin> subtree_of ?N d"
      using 1(4) iq d(2) m(2) by (auto simp: subtree_encloses [OF store_inv_members [OF inv tid(1)] tid(2)])
    obtain ns where ns: "getDescendants cfg True None (tn_id d) st = Inr ns" "distinct (map tn_id ns)" "set ns = subtree_of ?N d"
      using subtree_listed [OF inv len d(1)] by blast
    have "snd (moveSubtree cfg (tn_id d) q st) = map (moved cfg (getTreeId cfg d) (subtree_of ?N d) d q
        (tn_right d - tn_left d + 1) (shift_value (tn_right d + 1) (- (tn_right d - tn_left d + 1)) (tn_right m))
        (tn_depth m + 1 - tn_depth d)) st"
      by (rule moveSubtree_map [OF ids len d(1) m ns _ _ _ refl _ _ _ refl refl])
        (use 1 mN \<open>m \<notin> subtree_of ?N d\<close> in \<open>auto simp: members_def subtree_of_def\<close>)
    then show ?thesis
      using store_inv_moved [OF inv tid _ refl refl, of m] mN \<open>m \<notin> subtree_of ?N d\<close> d(2) m(2) by simp
  qed (simp add: inv)
qed

section \<open>Sequences of operations\<close>

datatype tree_op =
    CreateRoot ustring "ustring option" | AddChild ustring ustring "ustring option"
  | InsertBefore ustring ustring "ustring option" | InsertAfter ustring ustring "ustring option"
  | MoveSubtree ustring ustring | DeleteNode ustring bool | DeleteSubtree ustring

text \<open>
  The flag of \<open>DeleteNode\<close> is \<open>promoteChildren\<close>, true by default. The operations that keep the tree
  do not promote (without promotion a node with children is refused, see \<open>promotion_breaks_tree\<close>) and
  do not move a node into itself (\<open>move_into_itself\<close>).
\<close>

fun tree_step :: "tree_config \<Rightarrow> tree_op \<Rightarrow> tree_store \<Rightarrow> tree_store" where
  "tree_step cfg (CreateRoot i t) st = snd (createRoot cfg i t st)"
| "tree_step cfg (AddChild p i t) st = snd (addChild cfg p i t st)"
| "tree_step cfg (InsertBefore s i t) st = snd (insertBefore cfg s i t st)"
| "tree_step cfg (InsertAfter s i t) st = snd (insertAfter cfg s i t st)"
| "tree_step cfg (MoveSubtree i p) st = snd (moveSubtree cfg i p st)"
| "tree_step cfg (DeleteNode i promoteChildren) st = snd (deleteNode cfg promoteChildren i st)"
| "tree_step cfg (DeleteSubtree i) st = snd (deleteSubtree cfg i st)"

fun tree_op_ok :: "tree_config \<Rightarrow> tree_op \<Rightarrow> bool" where
  "tree_op_ok cfg (CreateRoot i t) \<longleftrightarrow> valid_id cfg i \<and> tree_id_ok cfg t"
| "tree_op_ok cfg (AddChild p i t) \<longleftrightarrow> valid_id cfg i"
| "tree_op_ok cfg (InsertBefore s i t) \<longleftrightarrow> valid_id cfg i"
| "tree_op_ok cfg (InsertAfter s i t) \<longleftrightarrow> valid_id cfg i"
| "tree_op_ok cfg (MoveSubtree i p) \<longleftrightarrow> i \<noteq> p"
| "tree_op_ok cfg (DeleteNode i promoteChildren) \<longleftrightarrow> \<not> promoteChildren"
| "tree_op_ok cfg (DeleteSubtree i) \<longleftrightarrow> True"

lemma store_inv_tree_step:
  "store_inv cfg st \<Longrightarrow> length st \<le> 10000 \<Longrightarrow> tree_op_ok cfg op \<Longrightarrow> store_inv cfg (tree_step cfg op st)"
  by (cases op) (auto intro: store_inv_createRoot store_inv_addChild store_inv_insertBefore store_inv_insertAfter
      store_inv_moveSubtree store_inv_deleteNode store_inv_deleteSubtree)

lemma length_patch [simp]: "length (patch i f st) = length st"
  by (simp add: patch_def)

lemma length_patch_all [simp]: "length (patch_all f ns st) = length st"
  by (induction ns arbitrary: st) (simp_all add: patch_all_def)

lemma length_shiftNodes [simp]: "length (shiftNodes cfg p d tid st) = length st"
  by (simp add: shiftNodes_def)

lemma length_insert_node: "length (snd (insert_node n st)) \<le> Suc (length st)"
  by (simp add: insert_node_def)

lemma length_promote: "length (fold (promote cfg d) cs st) = length st"
  by (induction cs arbitrary: st) (simp_all add: promote_def Let_def split: sum.split)

lemma length_tree_step: "length (tree_step cfg op st) \<le> Suc (length st)"
proof (cases op)
  case (AddChild p i t)
  have "length (snd (addChild cfg p i t st)) \<le> Suc (length st)"
    using length_insert_node
    by (force simp: addChild_def Let_def insert_node_def split: sum.splits prod.splits)
  then show ?thesis
    using AddChild by simp
next
  case (DeleteSubtree i)
  have "length (filter P st) \<le> Suc (length st)" for P
    by (rule le_SucI) (rule length_filter_le)
  then show ?thesis
    using DeleteSubtree by (simp add: deleteSubtree_def Let_def fold_delete_node split: sum.split)
next
  case (DeleteNode i b)
  have le: "length (delete_node i st') \<le> length st'" for st'
    by (simp add: delete_node_def)
  have "length (delete_node i (fold (promote cfg d) cs st)) \<le> Suc (length st)" for d cs
    using le [of "fold (promote cfg d) cs st"] by (simp add: length_promote)
  then show ?thesis
    using DeleteNode le by (simp add: deleteNode_def Let_def le_SucI split: sum.split)
qed (simp_all add: createRoot_def insertBefore_def insertAfter_def moveSubtree_def Let_def insert_node_def split: sum.split)

lemma store_inv_run:
  "store_inv cfg st \<Longrightarrow> list_all (tree_op_ok cfg) ops \<Longrightarrow> length st + length ops \<le> 10000 \<Longrightarrow>
   store_inv cfg (fold (tree_step cfg) ops st)"
proof (induction ops arbitrary: st)
  case (Cons op ops)
  have "store_inv cfg (tree_step cfg op st)"
    using Cons.prems by (intro store_inv_tree_step) auto
  moreover have "length (tree_step cfg op st) + length ops \<le> 10000"
    using length_tree_step [of cfg op st] Cons.prems(3) by simp
  ultimately show ?case
    using Cons by simp
qed simp

lemma store_inv_Nil: "store_inv cfg []"
  by (simp add: store_inv_def members_def tree_inv_def)

section \<open>Theorems\<close>

text \<open>
  C6 (nested sets). From the empty resource, through at most 10000 creations, insertions, moves of a node to
  another node, deletions without promotion and deletions of subtrees, calls that fail included, the
  intervals of every tree stay disjoint or nested, the parent of a node is the innermost node around it
  and its depth one more than the parent's. The ids given to new nodes are not empty nor the root marker,
  and 10000 is the number of nodes that a listing returns; every write succeeds.
\<close>
theorem tree_stays_nested:
  assumes "list_all (tree_op_ok cfg) ops" and "length ops \<le> 10000"
  shows "store_inv cfg (fold (tree_step cfg) ops [])"
  using assms by (simp add: store_inv_run store_inv_Nil)

definition plain_config :: tree_config where
  "plain_config = \<lparr>tc_treeField = False, tc_rootParent = None, tc_byTree = False, tc_byParent = False\<rparr>"

lemma tree_stays_nested_witness:
  "store_inv plain_config (fold (tree_step plain_config)
    [CreateRoot (ju ''a'') None, AddChild (ju ''a'') (ju ''b'') None, AddChild (ju ''b'') (ju ''c'') None,
     MoveSubtree (ju ''c'') (ju ''a''), DeleteNode (ju ''b'') False] [])"
  by (rule tree_stays_nested) code_simp+

text \<open>
  C28 (interval queries). In a resource of at most 10000 nodes that satisfies the invariant of \<open>tree_stays_nested\<close>
  the nodes that \<open>getDescendants\<close> finds inside the interval of a node are exactly those whose chain of
  parents reaches it, in the order of their left numbers.
\<close>
theorem descendants_are_chains:
  assumes "store_inv cfg st" and "length st \<le> 10000" and "n \<in> set st"
  shows "\<exists>ds. getDescendants cfg False None (tn_id n) st = Inr ds \<and> sorted (map tn_left ds) \<and>
    set ds = {k. (k, n) \<in> (parent_rel (members cfg (getTreeId cfg n) st))\<^sup>+}"
proof -
  let ?N = "members cfg (getTreeId cfg n) st"
  note tid = node_tree [OF assms(1,3)]
  have N: "tree_inv cfg ?N"
    using assms(1) tid(1) by (rule store_inv_members)
  have "(k, n) \<in> (parent_rel ?N)\<^sup>+ \<longleftrightarrow> k \<in> ?N \<and> encloses n k" for k
    using chain_encloses [OF _ N, of k n] encloses_chain [OF N tid(2), of k] tranclD [of k n "parent_rel ?N"]
    by (auto simp: parent_rel_def)
  moreover have "getNode (tn_id n) st = Inr n"
    using assms(1,3) by (simp add: getNode_Inr store_inv_def)
  ultimately show ?thesis
    by (auto simp: getDescendants_def listing_complete [OF assms(2)] members_def encloses_def)
qed

definition small_tree :: tree_store where
  "small_tree = fold (tree_step plain_config)
    [CreateRoot (ju ''a'') None, AddChild (ju ''a'') (ju ''b'') None, AddChild (ju ''b'') (ju ''c'') None] []"

lemma descendants_are_chains_witness:
  "\<exists>ds. getDescendants plain_config False None (tn_id (hd small_tree)) small_tree = Inr ds \<and> sorted (map tn_left ds) \<and>
    set ds = {k. (k, hd small_tree) \<in> (parent_rel (members plain_config (getTreeId plain_config (hd small_tree)) small_tree))\<^sup>+}"
proof (rule descendants_are_chains)
  show "store_inv plain_config small_tree"
    unfolding small_tree_def by (rule store_inv_run [OF store_inv_Nil]) code_simp+
qed code_simp+

lemma verify_nodes_ok:
  assumes N: "tree_inv cfg (set all)" and ids: "distinct (map tn_id all)"
  shows "set ns \<subseteq> set all \<Longrightarrow> distinct ns \<Longrightarrow> \<forall>n \<in> set ns. tn_left n \<notin> set lefts \<and> tn_right n \<notin> set rights \<Longrightarrow>
    verify_nodes cfg all lefts rights ns = []"
proof (induction ns arbitrary: lefts rights)
  case (Cons n ns)
  have n: "n \<in> set all"
    using Cons.prems(1) by simp
  have "tn_left m \<noteq> tn_left n \<and> tn_right m \<noteq> tn_right n" if "m \<in> set ns" for m
  proof -
    have "m \<in> set all" "m \<noteq> n"
      using Cons.prems(1,2) that by auto
    then show ?thesis
      using tree_inv_apart [OF N, of m n] tree_inv_order [OF N n] tree_inv_order [OF N, of m] n
      by (auto simp: apart_def encloses_def)
  qed
  then have "verify_nodes cfg all (tn_left n # lefts) (tn_right n # rights) ns = []"
    using Cons.prems by (intro Cons.IH) auto
  moreover have "\<exists>m. find (\<lambda>m. tn_id m = p) all = Some m \<and> encloses m n"
    if "tn_parent n = Some p" "\<not> root_parent cfg (Some p)" for p
  proof -
    have "\<not> root_link cfg (tn_parent n)"
      using that by (auto simp: root_link_def root_parent_def)
    then obtain m where "m \<in> set all" "child_of (set all) m n"
      using parent_ok_child [OF tree_inv_parent [OF N n]] by blast
    then show ?thesis
      using find_id [OF ids, of m] that(1) by (auto simp: child_of_def)
  qed
  then have "(if root_parent cfg (tn_parent n) then [] else case tn_parent n of None \<Rightarrow> []
      | Some p \<Rightarrow> (case find (\<lambda>m. tn_id m = p) all of None \<Rightarrow> [MissingParent (tn_id n) p]
        | Some m \<Rightarrow> if encloses m n then [] else [ParentMismatch (tn_id n) p])) = []"
    by (cases "tn_parent n") fastforce+
  ultimately show ?case
    using Cons.prems(3) tree_inv_order [OF N n] by simp
qed simp

text \<open>
  Tree verification. \<open>verifyTree\<close> has no complaint about a tree kept by these operations.
\<close>
theorem verify_accepts:
  assumes "store_inv cfg st" and "length st \<le> 10000" and "tree_id_ok cfg tid"
  shows "verifyTree cfg tid st = (length (filter (in_tree cfg tid) st), [])"
proof -
  have "distinct (map tn_id (filter (in_tree cfg tid) st))"
    using assms(1) by (simp add: store_inv_def distinct_map_filter)
  then have "verify_nodes cfg (filter (in_tree cfg tid) st) [] [] (filter (in_tree cfg tid) st) = []"
    using store_inv_members [OF assms(1,3)]
    by (intro verify_nodes_ok) (auto simp: members_def distinct_map)
  moreover have one: "(tc_treeField cfg \<and> \<not> truthy_text tid) = False"
    using assms(3) by (simp add: tree_id_ok_def)
  ultimately show ?thesis
    unfolding verifyTree_def one verify_one_def listing_complete [OF assms(2)] by simp
qed

lemma verify_accepts_witness:
  "verifyTree plain_config None small_tree = (length (filter (in_tree plain_config None) small_tree), [])"
proof (rule verify_accepts)
  show "store_inv plain_config small_tree"
    unfolding small_tree_def by (rule store_inv_run [OF store_inv_Nil]) code_simp+
qed code_simp+

text \<open>
  Promotion. Deleting the middle one of three nested nodes with its child promoted gives the child
  and its new parent the same right number: the numbers after the node are lowered by two, those of
  the promoted nodes are not lowered by one.
\<close>
theorem promotion_breaks_tree:
  "let st = snd (deleteNode plain_config True (ju ''b'') small_tree)
   in snd (verifyTree plain_config None small_tree) = [] \<and>
      map (\<lambda>n. (tn_id n, tn_left n, tn_right n)) st = [(ju ''a'', 1, 4), (ju ''c'', 3, 4)] \<and>
      snd (verifyTree plain_config None st) = [DuplicateRight (ju ''c'') 4, ParentMismatch (ju ''c'') (ju ''a'')]"
  by code_simp

text \<open>
  Moving into itself. A node can be moved under itself, which \<open>moveSubtree\<close> only refuses for its
  descendants: it becomes its own parent.
\<close>
theorem move_into_itself:
  "let (res, st) = moveSubtree plain_config (ju ''b'') (ju ''b'') small_tree
   in map_sum id tn_parent res = Inr (Some (ju ''b'')) \<and> snd (verifyTree plain_config None st) \<noteq> []"
  by code_simp

end
