(* ===== verification/Tournament.thy ===== *)
theory Tournament
  imports JsPrelude
begin

text \<open>
  The data and the generators of the tournament plugin:
  \<open>src/plugins/tournament/types.ts\<close>, \<open>seeding-strategies.ts\<close> and \<open>bracket-generator.ts\<close>.

  A bracket is a list of rounds of matches; matches are named by texts such as \<open>R2M1\<close>, which
  later steps parse again (\<open>match_ref\<close> is the unanchored regular expression). The missing
  participant, \<open>null\<close>, is \<open>None\<close>, and the empty name is as false as it is in JavaScript
  (\<open>present\<close>). Scores and points are integers. What is shown of the schedules and
  the brackets is in the theories of the formats.
\<close>

section \<open>Types\<close>

text \<open>\<open>MatchStatus\<close>, and the three statuses that only \<open>match-manager.ts\<close> writes.\<close>

datatype match_status = Pending | Scheduled | In_Progress | Completed | Bye | Cancelled | Waiting | Vacant | Walkover

record bracket_match =
  bm_id :: ustring
  bm_round :: nat
  bm_number :: nat
  bm_participant1 :: "ustring option"
  bm_participant2 :: "ustring option"
  bm_winner :: "ustring option"
  bm_loser :: "ustring option"
  bm_status :: match_status
  bm_bestOf :: nat
  bm_next :: "ustring option"
  bm_loserNext :: "ustring option"
  bm_score1 :: "int option"
  bm_score2 :: "int option"

type_synonym rounds = "bracket_match list list"

text \<open>\<open>!p\<close> and \<open>p || q\<close> on an identifier or \<open>null\<close>.\<close>

definition present :: "ustring option \<Rightarrow> bool" where
  "present p \<longleftrightarrow> (case p of None \<Rightarrow> False | Some s \<Rightarrow> s \<noteq> [])"

lemma present_None [simp]: "\<not> present None"
  by (simp add: present_def)

definition or_else :: "ustring option \<Rightarrow> ustring option \<Rightarrow> ustring option" where
  "or_else p q = (if present p then p else q)"

definition element :: "'a list \<Rightarrow> nat \<Rightarrow> 'a option" where
  "element xs i = (if i < length xs then Some (xs ! i) else None)"

section \<open>Seeding\<close>

function power_from :: "nat \<Rightarrow> nat \<Rightarrow> nat" where
  "power_from p n = (if 0 < p \<and> p < n then power_from (p * 2) n else p)"
  by pat_completeness auto
termination
  by (relation "measure (\<lambda>(p, n). n - p)") auto

declare power_from.simps [simp del]

definition nextPowerOf2 :: "nat \<Rightarrow> nat" where
  "nextPowerOf2 n = power_from 1 n"

lemma power_from_power: "\<exists>k. power_from (2 ^ j) n = 2 ^ k \<and> n \<le> 2 ^ k \<and> (k = j \<or> 2 ^ k < 2 * n)"
proof (induction "n - 2 ^ j" arbitrary: j rule: less_induct)
  case less
  show ?case
  proof (cases "(2 :: nat) ^ j < n")
    case True
    moreover have "(0 :: nat) < 2 ^ j"
      by simp
    ultimately have "n - 2 ^ Suc j < n - 2 ^ j"
      unfolding power_Suc by linarith
    from less [OF this] obtain k where "power_from (2 ^ Suc j) n = 2 ^ k" "n \<le> 2 ^ k" "k = Suc j \<or> 2 ^ k < 2 * n"
      by blast
    then show ?thesis
      using True by (subst power_from.simps) (auto simp: mult.commute)
  next
    case False
    then show ?thesis
      by (subst power_from.simps) auto
  qed
qed

lemma nextPowerOf2_power: "\<exists>k. nextPowerOf2 n = 2 ^ k \<and> n \<le> 2 ^ k \<and> (k = 0 \<or> 2 ^ k < 2 * n)"
  using power_from_power [of 0 n] by (simp add: nextPowerOf2_def)

definition calculateByes :: "nat \<Rightarrow> nat" where
  "calculateByes n = nextPowerOf2 n - n"

text \<open>The loop of \<open>randomSeeding\<close>; \<open>draw i\<close> is \<open>Math.floor(Math.random() * (i + 1))\<close>.\<close>

fun shuffle_from :: "(nat \<Rightarrow> nat) \<Rightarrow> nat \<Rightarrow> 'a list \<Rightarrow> 'a list" where
  "shuffle_from draw 0 xs = xs"
| "shuffle_from draw (Suc i) xs =
     (let j = draw (Suc i) in shuffle_from draw i (xs[Suc i := xs ! j, j := xs ! Suc i]))"

definition randomSeeding :: "(nat \<Rightarrow> nat) \<Rightarrow> ustring list \<Rightarrow> ustring list" where
  "randomSeeding draw participants = shuffle_from draw (length participants - 1) participants"

definition manualSeeding :: "ustring list \<Rightarrow> ustring list \<Rightarrow> ustring list" where
  "manualSeeding participants seeds =
     (let (result, remaining) = fold (\<lambda>seed (result, remaining).
        if seed \<in> set remaining then (result @ [seed], filter (\<lambda>p. p \<noteq> seed) remaining) else (result, remaining))
        seeds ([], rev (remdups (rev participants)))
      in result @ remaining)"

text \<open>One participant of \<open>snakeSeeding\<close>: the groups, the index and whether it is rising.\<close>

definition snake_step :: "nat \<Rightarrow> 'a \<Rightarrow> 'a list list \<times> nat \<times> bool \<Rightarrow> 'a list list \<times> nat \<times> bool" where
  "snake_step groupCount p st = (case st of (groups, i, rising) \<Rightarrow>
     let groups = groups[i := groups ! i @ [p]] in
     if rising then (if i + 1 \<ge> groupCount then (groups, groupCount - 1, False) else (groups, i + 1, True))
     else if i = 0 then (groups, 0, True) else (groups, i - 1, False))"

definition snakeSeeding :: "'a list \<Rightarrow> nat \<Rightarrow> 'a list list option" where
  "snakeSeeding participants groupCount =
     (if groupCount = 0 \<and> participants \<noteq> [] then None
      else Some (fst (fold (snake_step groupCount) participants (replicate groupCount [], 0, True))))"

text \<open>The first occurrence of every element.\<close>

fun remdups_first :: "'a list \<Rightarrow> 'a list" where
  "remdups_first [] = []"
| "remdups_first (x # xs) = x # filter (\<lambda>y. y \<noteq> x) (remdups_first xs)"

lemma remdups_first_filter: "remdups_first (filter P xs) = filter P (remdups_first xs)"
  by (induction xs) (auto intro: filter_cong)

fun every_from :: "nat \<Rightarrow> nat \<Rightarrow> nat \<Rightarrow> nat \<Rightarrow> nat list" where
  "every_from 0 i stride sz = []"
| "every_from (Suc k) i stride sz = (if i < sz then i # every_from k (i + stride) stride sz else [])"

fun position_steps :: "nat \<Rightarrow> nat \<Rightarrow> nat list \<Rightarrow> nat list" where
  "position_steps sz step positions =
     (if step \<ge> 1
      then position_steps sz (step div 2) (positions @
             concat (map (\<lambda>i. (if i \<in> set positions then [] else [i]) @
                              (if sz - 1 - i \<in> set positions then [] else [sz - 1 - i]))
                         (every_from sz step (step * 2) sz)))
      else positions)"

declare position_steps.simps [simp del]

definition generateBracketPositions :: "nat \<Rightarrow> nat list" where
  "generateBracketPositions sz =
     position_steps sz (sz div 4) ([0, sz - 1] @ (if sz \<ge> 4 then [sz div 2, sz div 2 - 1] else []))"

text \<open>\<open>participants[i] || null\<close>\<close>

definition name_at :: "ustring list \<Rightarrow> nat \<Rightarrow> ustring option" where
  "name_at participants i = or_else (element participants i) None"

definition bracketSeeding :: "ustring list \<Rightarrow> ustring list" where
  "bracketSeeding participants =
     (let n = length participants; sz = nextPowerOf2 n; mid = sz div 2;
          seeded = (replicate sz None)[0 := name_at participants 0];
          seeded = (if n > 1 then seeded[sz - 1 := name_at participants 1] else seeded);
          seeded = (if n > 2 then seeded[mid := name_at participants 2] else seeded);
          seeded = (if n > 3 then seeded[mid - 1 := name_at participants 3] else seeded);
          positions = generateBracketPositions sz
      in map the (filter (\<lambda>p. p \<noteq> None)
           (fold (\<lambda>i seeded. seeded[positions ! i := Some (participants ! i)])
             [min 4 n..<min n (length positions)] seeded)))"

text \<open>\<open>applySeeding\<close>: one list of participants, or one for every group.\<close>

datatype seeding_strategy = Random_Seeding | Manual_Seeding | Snake_Seeding | Bracket_Seeding | Other_Seeding

definition applySeeding :: "(nat \<Rightarrow> nat) \<Rightarrow> ustring list \<Rightarrow> seeding_strategy \<Rightarrow> ustring list option \<Rightarrow> nat option \<Rightarrow>
    (ustring list + ustring list list) option" where
  "applySeeding draw participants strategy seeds groupCount = (case strategy of
     Random_Seeding \<Rightarrow> Some (Inl (randomSeeding draw participants))
   | Manual_Seeding \<Rightarrow> Some (Inl (manualSeeding participants (case seeds of None \<Rightarrow> [] | Some s \<Rightarrow> s)))
   | Snake_Seeding \<Rightarrow> map_option Inr (snakeSeeding participants
       (case groupCount of None \<Rightarrow> 4 | Some k \<Rightarrow> if k = 0 then 4 else k))
   | Bracket_Seeding \<Rightarrow> Some (Inl (bracketSeeding participants))
   | Other_Seeding \<Rightarrow> Some (Inl participants))"

lemma mset_shuffle_from:
  "\<forall>i. draw i \<le> i \<Longrightarrow> k < length xs \<or> k = 0 \<Longrightarrow> mset (shuffle_from draw k xs) = mset xs"
proof (induction k arbitrary: xs)
  case (Suc k)
  then have "draw (Suc k) < length xs" "Suc k < length xs"
    by (auto intro: le_less_trans)
  then show ?case
    using Suc by (simp add: Let_def mset_swap)
qed simp

text \<open>
  Seeding. The random order is a permutation of the participants, and the manual one puts
  the seeds among the participants first and keeps the others in order.
\<close>
theorem seeding_permutes:
  assumes "\<forall>i. draw i \<le> i" "distinct participants"
  shows "mset (randomSeeding draw participants) = mset participants \<and>
    manualSeeding participants seeds = remdups_first (filter (\<lambda>s. s \<in> set participants) seeds) @
      filter (\<lambda>p. p \<notin> set seeds) participants"
proof -
  have "fold (\<lambda>seed (result, remaining). if seed \<in> set remaining
        then (result @ [seed], filter (\<lambda>p. p \<noteq> seed) remaining) else (result, remaining)) seeds (acc, rest) =
      (acc @ remdups_first (filter (\<lambda>s. s \<in> set rest) seeds), filter (\<lambda>p. p \<notin> set seeds) rest)" for seeds acc and rest :: "ustring list"
  proof (induction seeds arbitrary: acc rest)
    case (Cons s seeds)
    show ?case
      by (auto simp add: Cons remdups_first_filter [symmetric] conj_commute intro!: filter_cong)
  qed simp
  moreover have "rev (remdups (rev participants)) = participants"
    using assms(2) by (simp add: distinct_remdups_id)
  moreover have "length participants - 1 < length participants \<or> length participants - 1 = 0"
    by (cases participants) simp_all
  then have "mset (shuffle_from draw (length participants - 1) participants) = mset participants"
    by (rule mset_shuffle_from [OF assms(1)])
  ultimately show ?thesis
    by (simp add: randomSeeding_def manualSeeding_def)
qed

lemma seeding_permutes_witness:
  "manualSeeding [ju ''a'', ju ''b'', ju ''c''] [ju ''c'', ju ''x'', ju ''a'', ju ''c''] = [ju ''c'', ju ''a'', ju ''b'']"
  using seeding_permutes [of "\<lambda>i. 0" "[ju ''a'', ju ''b'', ju ''c'']" "[ju ''c'', ju ''x'', ju ''a'', ju ''c'']"]
  by (simp add: ju_inject)

section \<open>Names of matches\<close>

definition match_name :: "string \<Rightarrow> nat \<Rightarrow> nat \<Rightarrow> ustring" where
  "match_name side round number = ju side @ decimal_text round @ [77] @ decimal_text number"

definition ref_at :: "ustring \<Rightarrow> ustring \<Rightarrow> (nat \<times> nat) option" where
  "ref_at side s =
     (if starts_with s side
      then (let rest = drop (length side) s; round = takeWhile is_digit rest; tail = dropWhile is_digit rest;
                number = takeWhile is_digit (tl tail)
            in if round \<noteq> [] \<and> tail \<noteq> [] \<and> hd tail = 77 \<and> number \<noteq> []
               then Some (decimal_value round, decimal_value number) else None)
      else None)"

fun match_ref :: "ustring \<Rightarrow> ustring \<Rightarrow> (nat \<times> nat) option" where
  "match_ref side [] = ref_at side []"
| "match_ref side (u # s) = (case ref_at side (u # s) of Some p \<Rightarrow> Some p | None \<Rightarrow> match_ref side s)"

text \<open>\<open>matches[round - 1][number - 1]\<close>, read and written.\<close>

definition match_at :: "rounds \<Rightarrow> nat \<times> nat \<Rightarrow> bracket_match option" where
  "match_at ms p = (case p of (round, number) \<Rightarrow>
     if 1 \<le> round \<and> round \<le> length ms \<and> 1 \<le> number then element (ms ! (round - 1)) (number - 1) else None)"

definition set_match :: "rounds \<Rightarrow> nat \<times> nat \<Rightarrow> bracket_match \<Rightarrow> rounds" where
  "set_match ms p m = (case p of (round, number) \<Rightarrow> ms[round - 1 := (ms ! (round - 1))[number - 1 := m]])"

text \<open>The first free place of a match.\<close>

definition fill_place :: "ustring \<Rightarrow> bracket_match \<Rightarrow> bracket_match" where
  "fill_place p m =
     (if \<not> present (bm_participant1 m) then m\<lparr>bm_participant1 := Some p\<rparr>
      else if \<not> present (bm_participant2 m) then m\<lparr>bm_participant2 := Some p\<rparr> else m)"

lemma digits_then:
  "list_all is_digit ds \<Longrightarrow> takeWhile is_digit (ds @ 77 # xs) = ds"
  "list_all is_digit ds \<Longrightarrow> dropWhile is_digit (ds @ 77 # xs) = 77 # xs"
  by (induction ds) (auto simp: is_digit_def)

lemma digits_only: "list_all is_digit ds \<Longrightarrow> takeWhile is_digit ds = ds"
  by (induction ds) auto

lemma ref_at_name: "ref_at (ju side) (match_name side round number) = Some (round, number)"
proof -
  have "\<not> is_digit 77"
    by (simp add: is_digit_def)
  then show ?thesis
    by (simp add: ref_at_def match_name_def Let_def digits_then digits_only decimal_text_digits)
qed

lemma match_ref_first: "ref_at side s = Some p \<Longrightarrow> match_ref side s = Some p"
  by (cases s) auto

lemma match_ref_name [simp]: "match_ref (ju side) (match_name side round number) = Some (round, number)"
  by (rule match_ref_first) (rule ref_at_name)

lemma match_ref_inner [simp]: "match_ref (ju ''R'') (match_name ''WR'' round number) = Some (round, number)"
proof -
  have "match_name ''WR'' round number = 87 # match_name ''R'' round number"
    by (simp add: match_name_def ju_def)
  moreover have "ref_at (ju ''R'') (87 # s) = None" for s
    by (simp add: ref_at_def ju_def)
  ultimately show ?thesis
    by simp
qed

lemma match_name_inject [simp]: "match_name side r j = match_name side r' j' \<longleftrightarrow> r = r' \<and> j = j'"
  using ref_at_name [of side r j] ref_at_name [of side r' j'] by (metis option.inject prod.inject)

lemma match_name_nonempty [simp]: "match_name side r j \<noteq> []"
  by (simp add: match_name_def)

section \<open>Elimination brackets\<close>

definition fillWithByes :: "ustring list \<Rightarrow> nat \<Rightarrow> ustring option list" where
  "fillWithByes participants sz =
     fold (\<lambda>i result. result[i := Some (participants ! i)]) [0..<length participants] (replicate sz None)"

definition bye_step :: "nat \<times> nat \<Rightarrow> rounds \<Rightarrow> rounds" where
  "bye_step p ms = (case p of (i, j) \<Rightarrow>
     let m = ms ! i ! j in
     if bm_status m = Bye \<and> present (bm_winner m) \<and> present (bm_next m)
     then (case match_ref (ju ''R'') (the (bm_next m)) of
         None \<Rightarrow> ms
       | Some q \<Rightarrow> (case match_at ms q of None \<Rightarrow> ms | Some next \<Rightarrow> set_match ms q (fill_place (the (bm_winner m)) next)))
     else ms)"

definition processByeAdvancements :: "rounds \<Rightarrow> rounds" where
  "processByeAdvancements ms =
     fold bye_step (concat (map (\<lambda>i. map (Pair i) [0..<length (ms ! i)]) [0..<length ms - 1])) ms"

text \<open>\<open>Math.log2\<close> of a power of two.\<close>

fun log2_of :: "nat \<Rightarrow> nat" where
  "log2_of n = (if n \<le> 1 then 0 else Suc (log2_of (n div 2)))"

declare log2_of.simps [simp del]

lemma log2_of_power [simp]: "log2_of (2 ^ k) = k"
proof (induction k)
  case (Suc k)
  have "(0 :: nat) < 2 ^ k"
    by simp
  then have "\<not> 2 * 2 ^ k \<le> (1 :: nat)"
    by linarith
  then show ?case
    using Suc by (subst log2_of.simps) simp
qed (subst log2_of.simps, simp)

lemma fillWithByes_eq:
  assumes "length participants \<le> sz"
  shows "fillWithByes participants sz = map Some participants @ replicate (sz - length participants) None"
proof -
  have "fold (\<lambda>i result. result[i := Some (participants ! i)]) [0..<k] (replicate sz None) =
      map Some (take k participants) @ replicate (sz - k) None" if "k \<le> length participants" for k
    using that
  proof (induction k)
    case (Suc k)
    then have "replicate (sz - k) None = None # replicate (sz - Suc k) (None :: ustring option)"
      using assms by (metis Suc_diff_Suc Suc_le_eq order_less_le_trans replicate_Suc)
    then show ?case
      using Suc by (simp add: take_Suc_conv_app_nth list_update_append)
  qed simp
  from this [of "length participants"] show ?thesis
    by (simp add: fillWithByes_def)
qed

text \<open>A match without its participants, and the two participants of a match of the first round.\<close>

definition open_match :: "ustring \<Rightarrow> nat \<Rightarrow> nat \<Rightarrow> nat \<Rightarrow> ustring option \<Rightarrow> ustring option \<Rightarrow> bracket_match" where
  "open_match mid round number bestOf next loserNext =
     \<lparr>bm_id = mid, bm_round = round, bm_number = number, bm_participant1 = None, bm_participant2 = None,
      bm_winner = None, bm_loser = None, bm_status = Pending, bm_bestOf = bestOf, bm_next = next,
      bm_loserNext = loserNext, bm_score1 = None, bm_score2 = None\<rparr>"

definition first_round :: "ustring option list \<Rightarrow> nat \<Rightarrow> bracket_match \<Rightarrow> bracket_match" where
  "first_round seeded number m =
     (let p1 = (case element seeded ((number - 1) * 2) of None \<Rightarrow> None | Some p \<Rightarrow> p);
          p2 = (case element seeded ((number - 1) * 2 + 1) of None \<Rightarrow> None | Some p \<Rightarrow> p);
          m = m\<lparr>bm_participant1 := p1, bm_participant2 := p2\<rparr>
      in if p1 = None \<or> p2 = None then m\<lparr>bm_winner := or_else p1 p2, bm_status := Bye\<rparr> else m)"

definition single_match :: "nat \<Rightarrow> nat \<Rightarrow> nat \<Rightarrow> ustring option list \<Rightarrow> nat \<Rightarrow> nat \<Rightarrow> bracket_match" where
  "single_match bestOf finalsBestOf rounds seeded round number =
     (let m = open_match (match_name ''R'' round number) round number
                (if round = rounds then finalsBestOf else bestOf)
                (if round < rounds then Some (match_name ''R'' (round + 1) ((number + 1) div 2)) else None) None
      in if round = 1 then first_round seeded number m else m)"

definition generateSingleEliminationBracket :: "nat option \<Rightarrow> nat option \<Rightarrow> ustring list \<Rightarrow> nat \<times> rounds" where
  "generateSingleEliminationBracket bestOf finalsBestOf participants =
     (let bestOf = (case bestOf of None \<Rightarrow> 1 | Some b \<Rightarrow> b);
          finalsBestOf = (case finalsBestOf of None \<Rightarrow> bestOf | Some b \<Rightarrow> b);
          sz = nextPowerOf2 (length participants); rounds = log2_of sz;
          seeded = fillWithByes participants sz
      in (rounds, processByeAdvancements
           (map (\<lambda>round. map (single_match bestOf finalsBestOf rounds seeded round) [1..<sz div 2 ^ round + 1])
                [1..<rounds + 1])))"

definition calculateLoserDropRound :: "nat \<Rightarrow> nat \<Rightarrow> nat option" where
  "calculateLoserDropRound winnersRound totalWinnersRounds =
     (if winnersRound = totalWinnersRounds then None else Some ((winnersRound - 1) * 2 + 1))"

definition calculateLosersMatchCount :: "nat \<Rightarrow> nat \<Rightarrow> nat" where
  "calculateLosersMatchCount round sz =
     (let isDropRound = (round mod 2 = 1); effectiveRound = (round + 1) div 2
      in if isDropRound then sz div 2 ^ (effectiveRound + 1) else sz div 2 ^ (effectiveRound + 1))"

definition winners_match :: "nat \<Rightarrow> nat \<Rightarrow> ustring option list \<Rightarrow> nat \<Rightarrow> nat \<Rightarrow> bracket_match" where
  "winners_match bestOf rounds seeded round number =
     (let m = open_match (match_name ''WR'' round number) round number bestOf
                (Some (if round < rounds then match_name ''WR'' (round + 1) ((number + 1) div 2) else ju ''GF''))
                (case calculateLoserDropRound round rounds of None \<Rightarrow> None | Some l \<Rightarrow> Some (match_name ''LR'' l number))
      in if round = 1 then first_round seeded number m else m)"

definition losers_match :: "nat \<Rightarrow> int \<Rightarrow> nat \<Rightarrow> nat \<Rightarrow> bracket_match" where
  "losers_match bestOf rounds round number =
     open_match (match_name ''LR'' round number) round number bestOf
       (Some (if int round < rounds then match_name ''LR'' (round + 1) ((number + 1) div 2) else ju ''GF'')) None"

record grand_finals =
  gf_participant1 :: "ustring option"
  gf_participant2 :: "ustring option"
  gf_winner :: "ustring option"
  gf_loser :: "ustring option"
  gf_status :: match_status

text \<open>\<open>de_reset\<close> is \<open>grandFinalsReset\<close>; \<open>None\<close> is the \<open>null\<close> set after the second final.\<close>

record double_bracket =
  de_winnersRounds :: nat
  de_losersRounds :: int
  de_winners :: rounds
  de_losers :: rounds
  de_finals :: grand_finals
  de_reset :: "bool option"
  de_participants :: "ustring list"

definition generateDoubleEliminationBracket :: "nat option \<Rightarrow> bool option \<Rightarrow> ustring list \<Rightarrow> double_bracket" where
  "generateDoubleEliminationBracket bestOf grandFinalsReset participants =
     (let bestOf = (case bestOf of None \<Rightarrow> 1 | Some b \<Rightarrow> b);
          sz = nextPowerOf2 (length participants); winnersRounds = log2_of sz;
          losersRounds = (int winnersRounds - 1) * 2; seeded = fillWithByes participants sz
      in \<lparr>de_winnersRounds = winnersRounds, de_losersRounds = losersRounds,
          de_winners = processByeAdvancements
            (map (\<lambda>round. map (winners_match bestOf winnersRounds seeded round) [1..<sz div 2 ^ round + 1])
                 [1..<winnersRounds + 1]),
          de_losers = map (\<lambda>round. map (losers_match bestOf losersRounds round)
            [1..<calculateLosersMatchCount round sz + 1]) [1..<nat losersRounds + 1],
          de_finals = \<lparr>gf_participant1 = None, gf_participant2 = None, gf_winner = None, gf_loser = None, gf_status = Pending\<rparr>,
          de_reset = (case grandFinalsReset of None \<Rightarrow> Some True | Some b \<Rightarrow> Some b),
          de_participants = participants\<rparr>)"

section \<open>Matches of a running tournament\<close>

text \<open>
  \<open>Match\<close> of \<open>types.ts\<close>, without the games, the times and the metadata but \<open>metadata.matchRef\<close>,
  which \<open>MatchManager.create\<close> sets to the name the format gave the match.
\<close>

record tour_match =
  tm_id :: ustring
  tm_phase :: ustring
  tm_round :: nat
  tm_number :: nat
  tm_participant1 :: "ustring option"
  tm_participant2 :: "ustring option"
  tm_bestOf :: nat
  tm_score1 :: int
  tm_score2 :: int
  tm_winner :: "ustring option"
  tm_loser :: "ustring option"
  tm_status :: match_status
  tm_next :: "ustring option"
  tm_loserNext :: "ustring option"
  tm_groupId :: "ustring option"
  tm_matchRef :: "ustring option"

text \<open>\<open>createMatchTemplate\<close>, and the match of the bracket made from it with \<open>id: match.id\<close>.\<close>

definition createMatchTemplate :: "nat option \<Rightarrow> ustring \<Rightarrow> nat \<Rightarrow> nat \<Rightarrow> ustring option \<Rightarrow> ustring option \<Rightarrow>
    nat option \<Rightarrow> ustring option \<Rightarrow> ustring option \<Rightarrow> tour_match" where
  "createMatchTemplate configBestOf phase round number p1 p2 bestOf next loserNext =
     \<lparr>tm_id = [], tm_phase = (if phase = [] then ju ''main'' else phase), tm_round = round, tm_number = number,
      tm_participant1 = or_else p1 None, tm_participant2 = or_else p2 None,
      tm_bestOf = (case bestOf of Some b \<Rightarrow> if b \<noteq> 0 then b else (case configBestOf of Some c \<Rightarrow> if c \<noteq> 0 then c else 1 | None \<Rightarrow> 1)
                   | None \<Rightarrow> (case configBestOf of Some c \<Rightarrow> if c \<noteq> 0 then c else 1 | None \<Rightarrow> 1)),
      tm_score1 = 0, tm_score2 = 0, tm_winner = None, tm_loser = None, tm_status = Pending,
      tm_next = or_else next None, tm_loserNext = or_else loserNext None, tm_groupId = None, tm_matchRef = None\<rparr>"

definition announce :: "nat option \<Rightarrow> ustring \<Rightarrow> bracket_match \<Rightarrow> tour_match" where
  "announce configBestOf phase m =
     (createMatchTemplate configBestOf phase (bm_round m) (bm_number m) (bm_participant1 m) (bm_participant2 m)
       (Some (bm_bestOf m)) (bm_next m) (bm_loserNext m))\<lparr>tm_id := bm_id m\<rparr>"

text \<open>\<open>metadata?.matchRef || id\<close>\<close>

definition match_key :: "tour_match \<Rightarrow> ustring" where
  "match_key m = (if present (tm_matchRef m) then the (tm_matchRef m) else tm_id m)"

text \<open>The first match that satisfies a condition is replaced, round by round.\<close>

fun update_first :: "('a \<Rightarrow> bool) \<Rightarrow> ('a \<Rightarrow> 'a) \<Rightarrow> 'a list \<Rightarrow> 'a list" where
  "update_first P f [] = []"
| "update_first P f (x # xs) = (if P x then f x # xs else x # update_first P f xs)"

fun update_rounds :: "('a \<Rightarrow> bool) \<Rightarrow> ('a \<Rightarrow> 'a) \<Rightarrow> 'a list list \<Rightarrow> 'a list list" where
  "update_rounds P f [] = []"
| "update_rounds P f (r # rs) = (if find P r \<noteq> None then update_first P f r # rs else r # update_rounds P f rs)"

lemma length_update_first [simp]: "length (update_first P f xs) = length xs"
  by (induction xs) auto

lemma map_length_update_rounds [simp]: "map length (update_rounds P f rs) = map length rs"
  by (induction rs) auto

lemma update_first_append: "update_first P f (xs @ ys) =
    (if find P xs \<noteq> None then update_first P f xs @ ys else xs @ update_first P f ys)"
  by (induction xs) auto

lemma concat_update_rounds: "concat (update_rounds P f rs) = update_first P f (concat rs)"
  by (induction rs) (auto simp: update_first_append)

lemma update_first_unique:
  "distinct (map k xs) \<Longrightarrow> update_first (\<lambda>x. k x = i) f xs = map (\<lambda>x. if k x = i then f x else x) xs"
proof (induction xs)
  case (Cons x xs)
  have "map (\<lambda>x. if k x = i then f x else x) xs = xs" if "k x = i"
    using Cons.prems that by (intro map_idI) (auto simp: image_iff)
  then show ?case
    using Cons by auto
qed simp

lemma length_update_rounds [simp]: "length (update_rounds P f rs) = length rs"
  by (metis length_map map_length_update_rounds)

lemma update_rounds_unique:
  "distinct (map k (concat rs)) \<Longrightarrow>
   update_rounds (\<lambda>x. k x = i) f rs = map (map (\<lambda>x. if k x = i then f x else x)) rs"
proof (induction rs)
  case (Cons r rs)
  have keep: "map (\<lambda>x. if k x = i then f x else x) xs = xs" if "i \<notin> k ` set xs" for xs
    using that by (intro map_idI) (auto simp: image_iff)
  show ?case
  proof (cases "find (\<lambda>x. k x = i) r")
    case None
    then have "i \<notin> k ` set r"
      by (auto simp: find_None_iff)
    then show ?thesis
      using Cons None by (simp add: keep)
  next
    case (Some x)
    then have "i \<in> k ` set r"
      by (auto simp: find_Some_iff)
    then have "i \<notin> k ` set (concat rs)"
      using Cons.prems by (auto simp del: set_concat)
    then have "map (map (\<lambda>x. if k x = i then f x else x)) rs = rs"
      by (intro map_idI keep) auto
    then show ?thesis
      using Cons.prems Some by (simp add: update_first_unique)
  qed
qed simp

text \<open>The group of four of \<open>generateGSLBracket\<close>; \<open>None\<close> is the error.\<close>

definition gsl_match :: "string \<Rightarrow> nat \<Rightarrow> nat \<Rightarrow> nat \<Rightarrow> ustring option \<Rightarrow> ustring option \<Rightarrow> bracket_match" where
  "gsl_match name round number bestOf p1 p2 =
     (open_match (ju name) round number bestOf None None)\<lparr>bm_participant1 := p1, bm_participant2 := p2\<rparr>"

definition generateGSLBracket :: "ustring list \<Rightarrow> nat option \<Rightarrow> bracket_match list option" where
  "generateGSLBracket participants bestOf =
     (let b = (case bestOf of None \<Rightarrow> 1 | Some b \<Rightarrow> b) in
      if length participants \<noteq> 4 then None
      else Some
       [gsl_match ''GSL-M1'' 1 1 b (element participants 0) (element participants 1),
        gsl_match ''GSL-M2'' 1 2 b (element participants 2) (element participants 3),
        gsl_match ''GSL-WINNERS'' 2 1 b None None,
        gsl_match ''GSL-LOSERS'' 2 2 b None None,
        gsl_match ''GSL-DECIDER'' 3 1 b None None])"

end
