(* ===== verification/RoundRobin.thy ===== *)
theory RoundRobin
  imports Tournament
begin

text \<open>
  Round robin and Swiss pairing: \<open>generateRoundRobinSchedule\<close> and \<open>generateSwissPairing\<close> of
  \<open>src/plugins/tournament/bracket-generator.ts\<close> and the format of
  \<open>src/plugins/tournament/formats/round-robin.ts\<close>. The schedule is the circle method: the
  first participant stays, the last of the others moves behind it after every round.

  Shown: in every cycle any two participants meet exactly once, nobody plays twice in a round,
  the number of matches is \<open>getTotalMatches\<close>, the rounds before the current one are always
  completed, and a Swiss pairing places every participant once without a rematch.
\<close>

section \<open>The schedule\<close>

record schedule_round =
  sr_round :: nat
  sr_matches :: "bracket_match list"

text \<open>\<open>rotation.pop()\<close> and \<open>rotation.splice(1, 0, last)\<close>.\<close>

definition rotate_circle :: "'a list \<Rightarrow> 'a list" where
  "rotate_circle rotation =
     (let moved = last rotation; rest = butlast rotation in take 1 rest @ [moved] @ drop 1 rest)"

definition pair_step :: "nat \<Rightarrow> nat \<Rightarrow> nat \<Rightarrow> ustring option list \<Rightarrow> nat \<Rightarrow> nat \<times> bracket_match list \<Rightarrow> nat \<times> bracket_match list" where
  "pair_step bestOf cycle actualRound rotation i st = (case st of (matchId, ms) \<Rightarrow>
     let home = rotation ! i; away = rotation ! (length rotation - 1 - i) in
     if home \<noteq> None \<and> away \<noteq> None
     then (matchId + 1, ms @ [(open_match (77 # decimal_text matchId) actualRound (length ms + 1) bestOf None None)
            \<lparr>bm_participant1 := (if cycle mod 2 = 0 then home else away),
             bm_participant2 := (if cycle mod 2 = 0 then away else home)\<rparr>])
     else (matchId, ms))"

definition round_step :: "nat \<Rightarrow> nat \<Rightarrow> nat \<Rightarrow> nat \<Rightarrow>
    schedule_round list \<times> nat \<times> ustring option list \<Rightarrow> schedule_round list \<times> nat \<times> ustring option list" where
  "round_step bestOf roundsPerCycle cycle round st = (case st of (schedule, matchId, rotation) \<Rightarrow>
     let actualRound = cycle * roundsPerCycle + round + 1;
         (matchId, ms) = fold (pair_step bestOf cycle actualRound rotation) [0..<length rotation div 2] (matchId, [])
     in (schedule @ [\<lparr>sr_round = actualRound, sr_matches = ms\<rparr>], matchId, rotate_circle rotation))"

definition cycle_step :: "nat \<Rightarrow> nat \<Rightarrow> ustring option list \<Rightarrow> nat \<Rightarrow> schedule_round list \<times> nat \<Rightarrow> schedule_round list \<times> nat" where
  "cycle_step bestOf roundsPerCycle participants cycle st = (case st of (schedule, matchId) \<Rightarrow>
     let (schedule, matchId, rotation) =
       fold (round_step bestOf roundsPerCycle cycle) [0..<roundsPerCycle] (schedule, matchId, participants)
     in (schedule, matchId))"

definition effectiveParticipants :: "ustring list \<Rightarrow> ustring option list" where
  "effectiveParticipants participants = map Some participants @ (if length participants mod 2 = 1 then [None] else [])"

definition generateRoundRobinSchedule :: "nat option \<Rightarrow> nat option \<Rightarrow> ustring list \<Rightarrow> int \<times> schedule_round list" where
  "generateRoundRobinSchedule rounds bestOf participants =
     (let numRounds = (case rounds of None \<Rightarrow> 1 | Some k \<Rightarrow> k); bestOf = (case bestOf of None \<Rightarrow> 1 | Some b \<Rightarrow> b);
          effective = effectiveParticipants participants; roundsPerCycle = int (length effective) - 1
      in (roundsPerCycle * int numRounds,
          fst (fold (cycle_step bestOf (nat roundsPerCycle) effective) [0..<numRounds] ([], 1))))"

section \<open>The format\<close>

record league =
  rr_schedule :: "schedule_round list"
  rr_currentRound :: nat
  rr_participants :: "ustring list"

definition rr_validate :: "nat option \<Rightarrow> ustring list \<Rightarrow> string list" where
  "rr_validate rounds participants =
     (if length participants < 2 then [''Minimum 2 participants required''] else []) @
     (if length participants > 30 then [''Round robin not recommended for more than 30 participants''] else [])"

text \<open>\<open>config.rounds || 1\<close>\<close>

definition or_one :: "nat option \<Rightarrow> nat" where
  "or_one n = (case n of None \<Rightarrow> 1 | Some k \<Rightarrow> if k = 0 then 1 else k)"

definition rr_generateBracket :: "nat option \<Rightarrow> nat option \<Rightarrow> ustring list \<Rightarrow> league" where
  "rr_generateBracket rounds bestOf participants =
     \<lparr>rr_schedule = snd (generateRoundRobinSchedule (Some (or_one rounds)) (Some (or_one bestOf)) participants),
      rr_currentRound = 1, rr_participants = participants\<rparr>"

definition rr_matches :: "league \<Rightarrow> bracket_match list" where
  "rr_matches b = concat (map sr_matches (rr_schedule b))"

definition rr_getInitialMatches :: "nat option \<Rightarrow> league \<Rightarrow> tour_match list" where
  "rr_getInitialMatches configBestOf b = map (announce configBestOf (ju ''league'')) (rr_matches b)"

definition finish_match :: "tour_match \<Rightarrow> bracket_match \<Rightarrow> bracket_match" where
  "finish_match r m = m\<lparr>bm_status := Completed, bm_winner := tm_winner r,
     bm_score1 := Some (tm_score1 r), bm_score2 := Some (tm_score2 r)\<rparr>"

definition set_schedule :: "schedule_round list \<Rightarrow> bracket_match list list \<Rightarrow> schedule_round list" where
  "set_schedule schedule ms = map2 (\<lambda>r m. r\<lparr>sr_matches := m\<rparr>) schedule ms"

definition rr_onMatchComplete :: "league \<Rightarrow> tour_match \<Rightarrow> league" where
  "rr_onMatchComplete b done =
     (let matchKey = match_key done;
          b = b\<lparr>rr_schedule := set_schedule (rr_schedule b)
                (update_rounds (\<lambda>m. bm_id m = matchKey) (finish_match done) (map sr_matches (rr_schedule b)))\<rparr>;
          current = filter (\<lambda>m. bm_round m = rr_currentRound b) (rr_matches b);
          completed = filter (\<lambda>m. bm_status m = Completed \<or> bm_id m = matchKey) current
      in if length completed = length current \<and> rr_currentRound b < length (rr_schedule b)
         then b\<lparr>rr_currentRound := rr_currentRound b + 1\<rparr> else b)"

definition rr_getNextMatches :: "nat option \<Rightarrow> league \<Rightarrow> tour_match list \<Rightarrow> tour_match list" where
  "rr_getNextMatches configBestOf b completed =
     map (\<lambda>m. (announce configBestOf (ju ''league'') (m\<lparr>bm_next := None, bm_loserNext := None\<rparr>))\<lparr>tm_id := []\<rparr>)
       (filter (\<lambda>m. bm_id m \<notin> tm_id ` set completed \<and> bm_round m = rr_currentRound b) (rr_matches b))"

definition rr_isComplete :: "league \<Rightarrow> tour_match list \<Rightarrow> bool" where
  "rr_isComplete b ms \<longleftrightarrow> length (filter (\<lambda>m. tm_status m = Completed) ms) \<ge> length (rr_matches b)"

definition getTotalRounds :: "nat option \<Rightarrow> ustring list \<Rightarrow> int" where
  "getTotalRounds rounds participants =
     (let n = int (length participants) in (if n mod 2 = 0 then n - 1 else n) * int (or_one rounds))"

definition getTotalMatches :: "nat option \<Rightarrow> ustring list \<Rightarrow> nat" where
  "getTotalMatches rounds participants =
     (let n = length participants in n * (n - 1) div 2 * or_one rounds)"

section \<open>Swiss pairing\<close>

record swiss_entry =
  sw_participant :: ustring
  sw_points :: int

definition pair_key :: "ustring \<Rightarrow> ustring \<Rightarrow> ustring" where
  "pair_key a b = a @ [58] @ b"

definition already_played :: "(ustring \<times> ustring) list \<Rightarrow> ustring list" where
  "already_played completed = concat (map (\<lambda>(a, b). [pair_key a b, pair_key b a]) completed)"

definition find_opponent :: "swiss_entry list \<Rightarrow> ustring list \<Rightarrow> ustring list \<Rightarrow> ustring \<Rightarrow> ustring option" where
  "find_opponent entries played paired p =
     map_option sw_participant (find (\<lambda>c. sw_participant c \<noteq> p \<and> sw_participant c \<notin> set paired \<and>
       pair_key p (sw_participant c) \<notin> set played) entries)"

definition swiss_step :: "swiss_entry list \<Rightarrow> ustring list \<Rightarrow> swiss_entry \<Rightarrow>
    ustring list \<times> (ustring \<times> ustring option) list \<Rightarrow> ustring list \<times> (ustring \<times> ustring option) list" where
  "swiss_step entries played s st = (case st of (paired, pairings) \<Rightarrow>
     let p = sw_participant s in
     if p \<in> set paired then (paired, pairings)
     else (let opponent = find_opponent entries played paired p in
       if present opponent then (paired @ [p, the opponent], pairings @ [(p, opponent)])
       else (paired @ [p], pairings @ [(p, None)])))"

definition generateSwissPairing :: "swiss_entry list \<Rightarrow> (ustring \<times> ustring) list \<Rightarrow> (ustring \<times> ustring option) list" where
  "generateSwissPairing standings completed =
     (let entries = sort_key (\<lambda>s. - sw_points s) standings
      in snd (fold (swiss_step entries (already_played completed)) entries ([], [])))"

section \<open>The schedule in closed form\<close>

definition places :: "bracket_match \<Rightarrow> ustring option \<times> ustring option" where
  "places m = (bm_participant1 m, bm_participant2 m)"

text \<open>Who meets in one round, for the positions \<open>is\<close> of the circle.\<close>

definition circle_pairs :: "nat \<Rightarrow> 'a option list \<Rightarrow> nat list \<Rightarrow> ('a option \<times> 'a option) list" where
  "circle_pairs cycle circle is =
     map (\<lambda>i. if cycle mod 2 = 0 then (circle ! i, circle ! (length circle - 1 - i))
               else (circle ! (length circle - 1 - i), circle ! i))
       (filter (\<lambda>i. circle ! i \<noteq> None \<and> circle ! (length circle - 1 - i) \<noteq> None) is)"

definition circle_round :: "nat \<Rightarrow> 'a option list \<Rightarrow> nat \<Rightarrow> ('a option \<times> 'a option) list" where
  "circle_round cycle circle r =
     circle_pairs cycle ((rotate_circle ^^ r) circle) [0..<length circle div 2]"

text \<open>New matches: whom they pair, and their names \<open>Mk\<close>, which count on from \<open>k\<close>.\<close>

fun names_from :: "nat \<Rightarrow> bracket_match list \<Rightarrow> bool" where
  "names_from k [] = True"
| "names_from k (m # ms) = (bm_id m = 77 # decimal_text k \<and> names_from (Suc k) ms)"

lemma names_from_append: "names_from k (xs @ ys) \<longleftrightarrow> names_from k xs \<and> names_from (k + length xs) ys"
  by (induction xs arbitrary: k) auto

lemma pair_fold:
  "\<exists>new. fold (pair_step bestOf cycle ar circle) is (k, ms) = (k + length new, ms @ new) \<and>
     map places new = circle_pairs cycle circle is \<and> names_from k new \<and> (\<forall>m \<in> set new. bm_round m = ar)"
proof (induction "is" arbitrary: k ms)
  case (Cons i js)
  let ?home = "circle ! i" and ?away = "circle ! (length circle - 1 - i)"
  show ?case
  proof (cases "?home \<noteq> None \<and> ?away \<noteq> None")
    case True
    define m where "m = (open_match (77 # decimal_text k) ar (length ms + 1) bestOf None None)
      \<lparr>bm_participant1 := (if cycle mod 2 = 0 then ?home else ?away),
       bm_participant2 := (if cycle mod 2 = 0 then ?away else ?home)\<rparr>"
    have step: "pair_step bestOf cycle ar circle i (k, ms) = (k + 1, ms @ [m])"
      using True by (simp add: pair_step_def m_def Let_def)
    obtain new where new: "fold (pair_step bestOf cycle ar circle) js (k + 1, ms @ [m]) = (k + 1 + length new, (ms @ [m]) @ new)"
      "map places new = circle_pairs cycle circle js" "names_from (k + 1) new" "\<forall>m \<in> set new. bm_round m = ar"
      using Cons.IH [of "k + 1" "ms @ [m]"] by blast
    have "names_from k [m]" "bm_round m = ar"
      by (simp_all add: m_def open_match_def)
    moreover have "circle_pairs cycle circle (i # js) = places m # circle_pairs cycle circle js"
      using True by (simp add: circle_pairs_def places_def m_def open_match_def)
    ultimately show ?thesis
      using new by (intro exI [of _ "m # new"]) (simp add: step)
  next
    case False
    then show ?thesis
      using Cons.IH [of k ms] by (auto simp: pair_step_def circle_pairs_def Let_def)
  qed
qed (simp add: circle_pairs_def)

lemma length_rotate_circle [simp]: "length (rotate_circle xs) = (if xs = [] then 1 else length xs)"
  by (cases xs rule: rev_cases) (auto simp: rotate_circle_def Let_def)

lemma length_rotate_circles [simp]: "xs \<noteq> [] \<Longrightarrow> length ((rotate_circle ^^ r) xs) = length xs"
proof (induction r)
  case (Suc r)
  then have "(rotate_circle ^^ r) xs \<noteq> []"
    by (metis length_0_conv)
  then show ?case
    using Suc by simp
qed simp

lemma round_fold:
  assumes "circle \<noteq> []"
  shows "\<exists>new. fold (round_step bestOf L cycle) [0..<R] (schedule, k, circle) =
       (schedule @ new, k + length (concat (map sr_matches new)), (rotate_circle ^^ R) circle) \<and>
     map (\<lambda>s. map places (sr_matches s)) new = map (circle_round cycle circle) [0..<R] \<and>
     names_from k (concat (map sr_matches new)) \<and> map sr_round new = map (\<lambda>r. cycle * L + r + 1) [0..<R] \<and>
     (\<forall>s \<in> set new. \<forall>m \<in> set (sr_matches s). bm_round m = sr_round s)"
proof (induction R)
  case (Suc R)
  then obtain new where new: "fold (round_step bestOf L cycle) [0..<R] (schedule, k, circle) =
       (schedule @ new, k + length (concat (map sr_matches new)), (rotate_circle ^^ R) circle)"
     "map (\<lambda>s. map places (sr_matches s)) new = map (circle_round cycle circle) [0..<R]"
     "names_from k (concat (map sr_matches new))" "map sr_round new = map (\<lambda>r. cycle * L + r + 1) [0..<R]"
     "\<forall>s \<in> set new. \<forall>m \<in> set (sr_matches s). bm_round m = sr_round s"
    by blast
  define k1 where "k1 = k + length (concat (map sr_matches new))"
  obtain ms where ms: "fold (pair_step bestOf cycle (cycle * L + R + 1) ((rotate_circle ^^ R) circle))
       [0..<length circle div 2] (k1, []) = (k1 + length ms, [] @ ms)"
     "map places ms = circle_pairs cycle ((rotate_circle ^^ R) circle) [0..<length circle div 2]" "names_from k1 ms"
     "\<forall>m \<in> set ms. bm_round m = cycle * L + R + 1"
    using pair_fold by blast
  have "fold (round_step bestOf L cycle) [0..<Suc R] (schedule, k, circle) =
      (schedule @ (new @ [\<lparr>sr_round = cycle * L + R + 1, sr_matches = ms\<rparr>]), k1 + length ms, (rotate_circle ^^ Suc R) circle)"
    using ms(1) assms by (simp add: new(1) k1_def [symmetric] round_step_def Let_def)
  moreover have "names_from k (concat (map sr_matches (new @ [\<lparr>sr_round = cycle * L + R + 1, sr_matches = ms\<rparr>])))"
    using new(3) ms(3) by (simp add: names_from_append k1_def)
  ultimately show ?case
    using new(2,4,5) ms(2,4)
    by (intro exI [of _ "new @ [\<lparr>sr_round = cycle * L + R + 1, sr_matches = ms\<rparr>]"])
       (simp add: circle_round_def k1_def add.assoc)
qed simp

lemma cycle_fold:
  assumes "circle \<noteq> []"
  shows "\<exists>schedule. fold (cycle_step bestOf L circle) [0..<K] ([], 1) =
       (schedule, 1 + length (concat (map sr_matches schedule))) \<and>
     map (\<lambda>s. map places (sr_matches s)) schedule =
       concat (map (\<lambda>c. map (circle_round c circle) [0..<L]) [0..<K]) \<and>
     names_from 1 (concat (map sr_matches schedule)) \<and>
     map sr_round schedule = [1..<K * L + 1] \<and>
     (\<forall>s \<in> set schedule. \<forall>m \<in> set (sr_matches s). bm_round m = sr_round s)"
proof (induction K)
  case (Suc K)
  then obtain s where s: "fold (cycle_step bestOf L circle) [0..<K] ([], 1) = (s, 1 + length (concat (map sr_matches s)))"
     "map (\<lambda>s. map places (sr_matches s)) s = concat (map (\<lambda>c. map (circle_round c circle) [0..<L]) [0..<K])"
     "names_from 1 (concat (map sr_matches s))" "map sr_round s = [1..<K * L + 1]"
     "\<forall>s \<in> set s. \<forall>m \<in> set (sr_matches s). bm_round m = sr_round s"
    by blast
  define k1 where "k1 = 1 + length (concat (map sr_matches s))"
  obtain new where new: "fold (round_step bestOf L K) [0..<L] (s, k1, circle) =
       (s @ new, k1 + length (concat (map sr_matches new)), (rotate_circle ^^ L) circle)"
     "map (\<lambda>s. map places (sr_matches s)) new = map (circle_round K circle) [0..<L]"
     "names_from k1 (concat (map sr_matches new))" "map sr_round new = map (\<lambda>r. K * L + r + 1) [0..<L]"
     "\<forall>s \<in> set new. \<forall>m \<in> set (sr_matches s). bm_round m = sr_round s"
    using round_fold [OF assms] by blast
  have "map (\<lambda>r. K * L + r + 1) [0..<L] = [K * L + 1..<K * L + 1 + L]"
    using map_add_upt [of "K * L + 1" L] by (simp add: algebra_simps)
  moreover have "[1..<Suc K * L + 1] = [1..<K * L + 1] @ [K * L + 1..<K * L + 1 + L]"
    using upt_add_eq_append [of 1 "K * L + 1" L] by (simp add: algebra_simps)
  moreover have "names_from 1 (concat (map sr_matches (s @ new)))"
    using s(3) new(3) by (simp add: names_from_append k1_def)
  moreover have "fold (cycle_step bestOf L circle) [0..<Suc K] ([], 1) = (s @ new, 1 + length (concat (map sr_matches (s @ new))))"
    using new(1) s(1) by (simp add: k1_def cycle_step_def)
  ultimately show ?case
    using s(2,4,5) new(2,4,5) by (intro exI [of _ "s @ new"]) (simp add: ball_Un)
qed simp

section \<open>The circle\<close>

lemma rotate_circle_Cons: "ys \<noteq> [] \<Longrightarrow> rotate_circle (x # ys) = x # rotate (length ys - 1) ys"
proof -
  assume "ys \<noteq> []"
  then have "rotate (length ys - 1) ys = last ys # butlast ys"
    using rotate_append [of "butlast ys" "[last ys]"] by simp
  then show ?thesis
    using \<open>ys \<noteq> []\<close> by (simp add: rotate_circle_def Let_def)
qed

lemma rotate_circles: "ys \<noteq> [] \<Longrightarrow> (rotate_circle ^^ r) (x # ys) = x # rotate (r * (length ys - 1)) ys"
proof (induction r)
  case (Suc r)
  then have "rotate (r * (length ys - 1)) ys \<noteq> []"
    by simp
  then have "rotate_circle (x # rotate (r * (length ys - 1)) ys) =
      x # rotate (length ys - 1) (rotate (r * (length ys - 1)) ys)"
    by (subst rotate_circle_Cons) simp_all
  then show ?case
    using Suc by (simp add: rotate_rotate)
qed simp

text \<open>Where the \<open>x\<close>-th participant of a circle of \<open>Suc M\<close> stands in round \<open>r\<close>.\<close>

definition place :: "nat \<Rightarrow> nat \<Rightarrow> nat \<Rightarrow> nat" where
  "place M r x = (if x = 0 then 0 else Suc ((x - 1 + r) mod M))"

lemma place_bound: "0 < M \<Longrightarrow> place M r x \<le> M"
  by (simp add: place_def Suc_leI)

lemma circle_nth:
  assumes "length circle = Suc M" "0 < M" "x \<le> M"
  shows "(rotate_circle ^^ r) circle ! place M r x = circle ! x"
proof -
  obtain u ys where circle: "circle = u # ys" "length ys = M"
    using assms(1) by (cases circle) auto
  then have "ys \<noteq> []"
    using assms(2) by auto
  show ?thesis
  proof (cases x)
    case (Suc z)
    then have z: "z < M"
      using assms(3) by simp
    have "r * (M - 1) + (z + r) = r * M + z"
      using assms(2) by (cases M) auto
    then have "(r * (M - 1) + (z + r) mod M) mod M = (r * M + z) mod M"
      by (simp only: mod_add_right_eq)
    then have "(r * (M - 1) + (z + r) mod M) mod M = z"
      using z by simp
    then show ?thesis
      using assms(2) Suc rotate_circles [OF \<open>ys \<noteq> []\<close>, of r u]
      by (simp add: circle place_def nth_rotate)
  qed (simp add: place_def circle rotate_circles [OF \<open>ys \<noteq> []\<close>])
qed

lemma distinct_circles: "distinct circle \<Longrightarrow> 1 < length circle \<Longrightarrow> distinct ((rotate_circle ^^ r) circle)"
proof -
  assume *: "distinct circle" "1 < length circle"
  then obtain u ys where "circle = u # ys" "ys \<noteq> []"
    by (cases circle) auto
  then show ?thesis
    using *(1) rotate_circles [of ys r u] by simp
qed

definition meets :: "'a \<Rightarrow> 'a \<Rightarrow> 'a option \<times> 'a option \<Rightarrow> bool" where
  "meets a b p \<longleftrightarrow> p = (Some a, Some b) \<or> p = (Some b, Some a)"

lemma count_index: "length (filter (\<lambda>i. i = t) [0..<n]) = (if t < n then 1 else 0)"
  by (induction n) auto

lemma pairs_meet:
  assumes "distinct c" "length c = Suc M" "odd M" "p \<le> M" "q \<le> M" "p \<noteq> q" "c ! p = Some a" "c ! q = Some b"
  shows "length (filter (meets a b) (circle_pairs cycle c [0..<length c div 2])) = (if p + q = M then 1 else 0)"
proof -
  have eq: "c ! i = c ! j \<longleftrightarrow> i = j" if "i \<le> M" "j \<le> M" for i j
    using that assms(1,2) by (simp add: nth_eq_iff_index_eq)
  have *: "(meets a b (if cycle mod 2 = 0 then (c ! i, c ! (length c - 1 - i)) else (c ! (length c - 1 - i), c ! i)) \<and>
      c ! i \<noteq> None \<and> c ! (length c - 1 - i) \<noteq> None) \<longleftrightarrow> (p + q = M \<and> i = min p q)" if "i < length c div 2" for i
  proof -
    have i: "i \<le> M" "M - i \<le> M" "2 * i < M"
      using that assms(2,3) by (auto elim!: oddE)
    have "(meets a b (if cycle mod 2 = 0 then (c ! i, c ! (M - i)) else (c ! (M - i), c ! i)) \<and>
        c ! i \<noteq> None \<and> c ! (M - i) \<noteq> None) \<longleftrightarrow> (c ! i = c ! p \<and> c ! (M - i) = c ! q) \<or> (c ! i = c ! q \<and> c ! (M - i) = c ! p)"
      by (auto simp: meets_def assms(7,8))
    also have "\<dots> \<longleftrightarrow> (i = p \<and> M - i = q) \<or> (i = q \<and> M - i = p)"
      using eq i assms(4,5) by simp
    also have "\<dots> \<longleftrightarrow> p + q = M \<and> i = min p q"
      using i assms(4,5) by auto
    finally show ?thesis
      by (simp only: assms(2) diff_Suc_1)
  qed
  have "length (filter (meets a b) (circle_pairs cycle c [0..<length c div 2])) =
      length (filter (\<lambda>i. p + q = M \<and> i = min p q) [0..<length c div 2])"
    unfolding circle_pairs_def filter_map length_map filter_filter comp_def
  proof (rule arg_cong [where f = length], rule filter_cong)
    fix i
    assume "i \<in> set [0..<length c div 2]"
    then show "((c ! i \<noteq> None \<and> c ! (length c - 1 - i) \<noteq> None) \<and>
        meets a b (if cycle mod 2 = 0 then (c ! i, c ! (length c - 1 - i)) else (c ! (length c - 1 - i), c ! i))) \<longleftrightarrow>
        (p + q = M \<and> i = min p q)"
      using * [of i] by (simp only: set_upt atLeastLessThan_iff conj_commute)
  qed simp
  also have "\<dots> = (if p + q = M then 1 else 0)"
  proof (cases "p + q = M")
    case True
    then have "min p q < length c div 2"
      using assms(2,3,6) by (auto elim!: oddE)
    then show ?thesis
      using count_index [of "min p q"] True by simp
  qed simp
  finally show ?thesis .
qed

lemma wrap: "t < 2 * M \<Longrightarrow> t mod M = (if t < M then t else t - M)" for t :: nat
  by (simp add: mod_if)

lemma places_sum:
  fixes a b r M :: nat
  assumes "odd M" "a < M" "b < M" "a \<noteq> b" "r < M"
  shows "(a + r) mod M + (b + r) mod M + 2 = M \<longleftrightarrow>
    2 * r + a + b + 2 = (if even (a + b) then 2 * M else if a + b + 2 \<le> M then M else 3 * M)"
proof -
  obtain k where k: "M = 2 * k + 1"
    using assms(1) by (rule oddE)
  have "(a + r) mod M + (b + r) mod M + 2 = M \<longleftrightarrow>
     (if a + r < M then a + r else a + r - M) + (if b + r < M then b + r else b + r - M) + 2 = M"
    using assms by (simp add: wrap)
  also have "\<dots> \<longleftrightarrow> 2 * r + a + b + 2 = (if even (a + b) then 2 * M else if a + b + 2 \<le> M then M else 3 * M)"
  proof (cases "even (a + b)")
    case True
    then obtain s where s: "a + b = 2 * s"
      by (rule evenE)
    then have "2 * r + a + b + 2 \<noteq> M" "2 * r + a + b + 2 \<noteq> 3 * M"
      using k by presburger+
    with assms(2-5) have "(if a + r < M then a + r else a + r - M) + (if b + r < M then b + r else b + r - M) + 2 = M \<longleftrightarrow> 2 * r + a + b + 2 = 2 * M"
      by (auto split: if_splits)
    then show ?thesis
      using True by simp
  next
    case False
    then obtain s where s: "a + b = 2 * s + 1"
      by (rule oddE)
    then have "2 * r + a + b + 2 \<noteq> 2 * M"
      by presburger
    with assms(2-5) have "(if a + r < M then a + r else a + r - M) + (if b + r < M then b + r else b + r - M) + 2 = M \<longleftrightarrow>
        2 * r + a + b + 2 = (if a + b + 2 \<le> M then M else 3 * M)"
      by (auto split: if_splits)
    then show ?thesis
      using False by simp
  qed
  finally show ?thesis .
qed

lemma places_meet_once:
  assumes "odd M" "x \<le> M" "y \<le> M" "x \<noteq> y"
  shows "\<exists>!r. r < M \<and> place M r x + place M r y = M"
proof -
  have first: "\<exists>!r. r < M \<and> Suc ((z + r) mod M) = M" if "z < M" for z
  proof (rule ex1I [of _ "M - 1 - z"])
    fix r
    assume "r < M \<and> Suc ((z + r) mod M) = M"
    then show "r = M - 1 - z"
      using that by (auto simp: wrap split: if_splits)
  qed (use that in auto)
  consider (l) "x = 0" | (r) "y = 0" | (b) a b where "x = Suc a" "y = Suc b"
    by (cases x; cases y) auto
  then show ?thesis
  proof cases
    case l
    then show ?thesis
      using first [of "y - 1"] assms by (simp add: place_def)
  next
    case r
    then show ?thesis
      using first [of "x - 1"] assms by (simp add: place_def)
  next
    case b
    then have ab: "a < M" "b < M" "a \<noteq> b"
      using assms by auto
    define t where "t = (if even (a + b) then 2 * M else if a + b + 2 \<le> M then M else 3 * M)"
    have eq: "place M r x + place M r y = M \<longleftrightarrow> 2 * r + a + b + 2 = t" if "r < M" for r
      using places_sum [OF assms(1) ab that] by (simp add: place_def b t_def)
    have t: "even (t - (a + b + 2))" "a + b + 2 \<le> t" "t - (a + b + 2) < 2 * M"
      using assms(1) ab by (auto simp: t_def)
    from t(1) obtain s where "t - (a + b + 2) = 2 * s"
      by (rule evenE)
    with t have "2 * s + a + b + 2 = t" "s < M"
      by auto
    then show ?thesis
      using eq by (intro ex1I [of _ s]) auto
  qed
qed

lemma count_once: "\<exists>!r. r < n \<and> P r \<Longrightarrow> length (filter P [0..<n]) = 1" for n :: nat
proof (erule ex1E)
  fix t
  assume t: "t < n \<and> P t" "\<forall>r. r < n \<and> P r \<longrightarrow> r = t"
  have "P r \<longleftrightarrow> r = t" if "r \<in> set [0..<n]" for r
    using that t by (metis atLeastLessThan_iff set_upt)
  then have "filter P [0..<n] = filter (\<lambda>r. r = t) [0..<n]"
    by (rule filter_cong [OF refl])
  then show ?thesis
    using t(1) count_index [of t n] by simp
qed

lemma filter_concat_length: "length (filter P (concat (map f xs))) = sum_list (map (\<lambda>x. length (filter P (f x))) xs)"
  by (induction xs) auto

lemma length_filter_sum: "length (filter P xs) = sum_list (map (\<lambda>x. if P x then 1 else 0) xs)"
  by (induction xs) auto

lemma circle_meets_once:
  assumes "distinct circle" "length circle = Suc M" "odd M" "x \<le> M" "y \<le> M" "x \<noteq> y"
    and "circle ! x = Some a" "circle ! y = Some b"
  shows "length (filter (meets a b) (concat (map (circle_round cycle circle) [0..<M]))) = 1"
proof -
  have "0 < M"
    using assms(3) by (auto elim: oddE)
  have "length (filter (meets a b) (circle_round cycle circle r)) = (if place M r x + place M r y = M then 1 else 0)" for r
  proof -
    let ?c = "(rotate_circle ^^ r) circle"
    have "length ?c = length circle"
      using assms(2) by (intro length_rotate_circles) auto
    moreover have "?c ! place M r x = Some a" "?c ! place M r y = Some b"
      using circle_nth [OF assms(2) \<open>0 < M\<close>] assms(4,5,7,8) by simp_all
    moreover have "distinct ?c"
      using assms(1,2) \<open>0 < M\<close> by (intro distinct_circles) auto
    moreover have "place M r x \<noteq> place M r y"
    proof
      assume "place M r x = place M r y"
      then have "circle ! x = circle ! y"
        using circle_nth [OF assms(2) \<open>0 < M\<close>, of x r] circle_nth [OF assms(2) \<open>0 < M\<close>, of y r] assms(4,5) by simp
      then show False
        using assms(1,2,4-6) by (simp add: nth_eq_iff_index_eq)
    qed
    ultimately show ?thesis
      using pairs_meet [of ?c M "place M r x" "place M r y" a b cycle] assms(2,3) \<open>0 < M\<close>
      by (simp add: circle_round_def place_bound)
  qed
  then have "length (filter (meets a b) (concat (map (circle_round cycle circle) [0..<M]))) =
      length (filter (\<lambda>r. place M r x + place M r y = M) [0..<M])"
    by (simp add: filter_concat_length length_filter_sum [of "\<lambda>r. place M r x + place M r y = M"])
  also have "\<dots> = 1"
    using assms by (intro count_once places_meet_once)
  finally show ?thesis .
qed

lemma effective_facts:
  fixes participants :: "ustring list"
  assumes "participants \<noteq> []"
  obtains M where "length (effectiveParticipants participants) = Suc M" "odd M"
    "distinct participants \<Longrightarrow> distinct (effectiveParticipants participants)"
proof -
  let ?n = "length participants"
  have "even (length (effectiveParticipants participants))"
    by (auto simp: effectiveParticipants_def)
  moreover have "0 < length (effectiveParticipants participants)"
    using assms by (simp add: effectiveParticipants_def)
  ultimately have "length (effectiveParticipants participants) = Suc (length (effectiveParticipants participants) - 1)"
    "odd (length (effectiveParticipants participants) - 1)"
    by auto
  moreover have "distinct participants \<Longrightarrow> distinct (effectiveParticipants participants)"
    by (auto simp: effectiveParticipants_def distinct_map)
  ultimately show ?thesis
    using that by blast
qed

lemma take_block:
  assumes "c < K"
  shows "take L (drop (c * L) (concat (map (\<lambda>c. map (f c) [0..<L]) [0..<K]))) = map (f c) [0..<L]"
proof -
  have "[0..<K] = [0..<c] @ c # [Suc c..<K]"
    using upt_add_eq_append [of 0 c "K - c"] upt_conv_Cons [OF assms] assms by simp
  moreover have "length (concat (map (\<lambda>c. map (f c) [0..<L]) [0..<c])) = c * L"
    by (simp add: length_concat comp_def sum_list_triv)
  ultimately show ?thesis
    by simp
qed

section \<open>Properties of the schedule\<close>

text \<open>The schedule of a generated bracket, its rounds per cycle, and the matches of one cycle.\<close>

definition schedule_of :: "nat \<Rightarrow> nat option \<Rightarrow> ustring list \<Rightarrow> schedule_round list" where
  "schedule_of K bestOf participants = snd (generateRoundRobinSchedule (Some K) bestOf participants)"

definition cycle_length :: "ustring list \<Rightarrow> nat" where
  "cycle_length participants = length (effectiveParticipants participants) - 1"

definition cycle_matches :: "nat \<Rightarrow> nat \<Rightarrow> schedule_round list \<Rightarrow> bracket_match list" where
  "cycle_matches L cycle schedule = concat (map sr_matches (take L (drop (cycle * L) schedule)))"

lemma schedule_facts:
  assumes "participants \<noteq> []"
  shows "map (\<lambda>s. map places (sr_matches s)) (schedule_of K bestOf participants) =
      concat (map (\<lambda>c. map (circle_round c (effectiveParticipants participants)) [0..<cycle_length participants]) [0..<K])"
    and "names_from 1 (concat (map sr_matches (schedule_of K bestOf participants)))"
    and "map sr_round (schedule_of K bestOf participants) = [1..<K * cycle_length participants + 1]"
    and "s \<in> set (schedule_of K bestOf participants) \<Longrightarrow> m \<in> set (sr_matches s) \<Longrightarrow> bm_round m = sr_round s"
proof -
  let ?e = "effectiveParticipants participants"
  have e: "?e \<noteq> []"
    using assms by (simp add: effectiveParticipants_def)
  then have "nat (int (length ?e) - 1) = cycle_length participants"
    by (simp add: cycle_length_def nat_diff_distrib)
  then have "schedule_of K bestOf participants = fst (fold (cycle_step (case bestOf of None \<Rightarrow> 1 | Some b \<Rightarrow> b)
      (cycle_length participants) ?e) [0..<K] ([], 1))"
    by (simp add: schedule_of_def generateRoundRobinSchedule_def Let_def)
  then show "map (\<lambda>s. map places (sr_matches s)) (schedule_of K bestOf participants) =
      concat (map (\<lambda>c. map (circle_round c ?e) [0..<cycle_length participants]) [0..<K])"
    and "names_from 1 (concat (map sr_matches (schedule_of K bestOf participants)))"
    and "map sr_round (schedule_of K bestOf participants) = [1..<K * cycle_length participants + 1]"
    and "s \<in> set (schedule_of K bestOf participants) \<Longrightarrow> m \<in> set (sr_matches s) \<Longrightarrow> bm_round m = sr_round s"
    using cycle_fold [OF e, of "case bestOf of None \<Rightarrow> 1 | Some b \<Rightarrow> b" "cycle_length participants" K] by auto
qed

lemma cycle_places:
  assumes "participants \<noteq> []" "cycle < K"
  shows "map places (cycle_matches (cycle_length participants) cycle (schedule_of K bestOf participants)) =
    concat (map (circle_round cycle (effectiveParticipants participants)) [0..<cycle_length participants])"
proof -
  let ?L = "cycle_length participants"
  have "map places (cycle_matches ?L cycle (schedule_of K bestOf participants)) =
      concat (take ?L (drop (cycle * ?L) (map (\<lambda>s. map places (sr_matches s)) (schedule_of K bestOf participants))))"
    by (simp add: cycle_matches_def map_concat take_map drop_map comp_def)
  then show ?thesis
    by (simp only: schedule_facts(1) [OF assms(1)] take_block [OF assms(2)])
qed

lemma find_effective: "a \<in> set participants \<Longrightarrow>
    \<exists>x < length (effectiveParticipants participants). effectiveParticipants participants ! x = Some a"
  by (metis UnCI effectiveParticipants_def image_eqI in_set_conv_nth list.set_map set_append)

text \<open>
  C12 (round robin). In every cycle of the schedule any two participants meet exactly once.
\<close>
theorem round_robin_meet_once:
  assumes "distinct participants" "a \<in> set participants" "b \<in> set participants" "a \<noteq> b" "cycle < K"
  shows "length (filter (\<lambda>m. meets a b (places m))
      (cycle_matches (cycle_length participants) cycle (schedule_of K bestOf participants))) = 1"
proof -
  let ?e = "effectiveParticipants participants"
  have "participants \<noteq> []"
    using assms(2) by auto
  then obtain M where M: "length ?e = Suc M" "odd M" "distinct ?e"
    using assms(1) by (metis effective_facts)
  obtain x y where xy: "x < length ?e" "?e ! x = Some a" "y < length ?e" "?e ! y = Some b"
    using find_effective assms(2,3) by metis
  have "length (filter (meets a b) (concat (map (circle_round cycle ?e) [0..<M]))) = 1"
    using xy M assms(4) by (intro circle_meets_once [of ?e M x y]) auto
  moreover have "cycle_length participants = M"
    by (simp add: cycle_length_def M(1))
  ultimately have "length (filter (meets a b) (map places
      (cycle_matches (cycle_length participants) cycle (schedule_of K bestOf participants)))) = 1"
    using cycle_places [OF \<open>participants \<noteq> []\<close> assms(5), of bestOf] by simp
  then show ?thesis
    by (simp add: filter_map comp_def)
qed

lemma round_robin_meet_once_witness:
  "length (filter (\<lambda>m. meets (ju ''a'') (ju ''c'') (places m))
     (cycle_matches (cycle_length [ju ''a'', ju ''b'', ju ''c'']) 1 (schedule_of 2 None [ju ''a'', ju ''b'', ju ''c'']))) = 1"
  by (rule round_robin_meet_once) (simp_all add: ju_inject)

definition flat_pairs :: "('a \<times> 'a) list \<Rightarrow> 'a list" where
  "flat_pairs ps = concat (map (\<lambda>p. [fst p, snd p]) ps)"

lemma flat_pairs_Cons: "flat_pairs (circle_pairs cycle c (i # js)) =
    (if c ! i \<noteq> None \<and> c ! (length c - 1 - i) \<noteq> None
     then (if cycle mod 2 = 0 then [c ! i, c ! (length c - 1 - i)] else [c ! (length c - 1 - i), c ! i]) else []) @
    flat_pairs (circle_pairs cycle c js)"
  by (simp add: flat_pairs_def circle_pairs_def)

lemma flat_pairs_members:
  "p \<in> set (flat_pairs (circle_pairs cycle c is)) \<Longrightarrow>
   p \<noteq> None \<and> (\<exists>i \<in> set is. p = c ! i \<or> p = c ! (length c - 1 - i))"
proof (induction "is")
  case (Cons i js)
  show ?case
  proof (cases "p \<in> set (flat_pairs (circle_pairs cycle c js))")
    case True
    then show ?thesis
      using Cons.IH by auto
  next
    case False
    then have "c ! i \<noteq> None" "c ! (length c - 1 - i) \<noteq> None" "p = c ! i \<or> p = c ! (length c - 1 - i)"
      using Cons.prems unfolding flat_pairs_Cons by (simp_all split: if_splits) blast+
    then show ?thesis
      by (metis list.set_intros(1))
  qed
qed (simp add: flat_pairs_def circle_pairs_def)

lemma flat_pairs_distinct:
  assumes "distinct c" "distinct is" "\<forall>i \<in> set is. i < length c div 2"
  shows "distinct (flat_pairs (circle_pairs cycle c is))"
  using assms(2,3)
proof (induction "is")
  case (Cons i js)
  then have i: "i < length c" "length c - 1 - i < length c" "i \<noteq> length c - 1 - i"
    by auto
  have "c ! k \<notin> set (flat_pairs (circle_pairs cycle c js))" if k: "k = i \<or> k = length c - 1 - i" for k
  proof
    assume "c ! k \<in> set (flat_pairs (circle_pairs cycle c js))"
    then obtain j where j: "j \<in> set js" "c ! k = c ! j \<or> c ! k = c ! (length c - 1 - j)"
      using flat_pairs_members by metis
    moreover have "j < length c" "length c - 1 - j < length c" "j < length c div 2"
      using j(1) Cons.prems(2) by auto
    ultimately have "k = j \<or> k = length c - 1 - j"
      using assms(1) i k by (auto simp: nth_eq_iff_index_eq)
    then have "i = j"
      using k Cons.prems(2) \<open>j < length c div 2\<close> by auto
    then show False
      using j(1) Cons.prems(1) by simp
  qed
  moreover have "c ! i \<noteq> c ! (length c - 1 - i)"
    using assms(1) i by (simp add: nth_eq_iff_index_eq)
  moreover have "distinct (flat_pairs (circle_pairs cycle c js))"
    using Cons by simp
  ultimately show ?case
    unfolding flat_pairs_Cons by (simp del: diff_diff_left diff_Suc_eq_diff_pred)
qed (simp add: flat_pairs_def circle_pairs_def)

lemma names_from_ids: "names_from k ms \<Longrightarrow> map bm_id ms = map (\<lambda>k. ju ''M'' @ decimal_text k) [k..<k + length ms]"
  by (induction ms arbitrary: k) (auto simp: upt_conv_Cons ju_def simp del: upt_Suc)

text \<open>
  Round robin. Nobody plays twice in a round, every place of a match is a participant, and the
  matches are named \<open>M1\<close>, \<open>M2\<close>, ... and carry the number of their round.
\<close>
theorem round_robin_rounds:
  assumes "distinct participants" "participants \<noteq> []" "s \<in> set (schedule_of K bestOf participants)"
  shows "distinct (concat (map (\<lambda>m. [bm_participant1 m, bm_participant2 m]) (sr_matches s))) \<and>
    set (concat (map (\<lambda>m. [bm_participant1 m, bm_participant2 m]) (sr_matches s))) \<subseteq> Some ` set participants \<and>
    (\<forall>m \<in> set (sr_matches s). bm_round m = sr_round s) \<and>
    map bm_id (concat (map sr_matches (schedule_of K bestOf participants))) =
      map (\<lambda>k. ju ''M'' @ decimal_text k) [1..<length (concat (map sr_matches (schedule_of K bestOf participants))) + 1]"
proof -
  let ?e = "effectiveParticipants participants"
  obtain M where M: "length ?e = Suc M" "odd M" "distinct ?e"
    using assms(1,2) by (metis effective_facts)
  then have "0 < M" "?e \<noteq> []"
    by (auto elim: oddE)
  have "map places (sr_matches s) \<in> set (map (\<lambda>s. map places (sr_matches s)) (schedule_of K bestOf participants))"
    using assms(3) by simp
  then obtain c r where cr: "map places (sr_matches s) = circle_round c ?e r"
    unfolding schedule_facts(1) [OF assms(2)] by auto
  let ?c = "(rotate_circle ^^ r) ?e" and ?flat = flat_pairs
  have c: "distinct ?c" "length ?c = length ?e" "set ?c = set ?e"
  proof -
    show "distinct ?c"
      using M \<open>0 < M\<close> by (intro distinct_circles) auto
    show "length ?c = length ?e"
      using \<open>?e \<noteq> []\<close> by simp
    show "set ?c = set ?e"
      using rotate_circles [of "tl ?e" r "hd ?e"] M(1) \<open>0 < M\<close> \<open>?e \<noteq> []\<close> by (cases ?e) auto
  qed
  have flat: "concat (map (\<lambda>m. [bm_participant1 m, bm_participant2 m]) (sr_matches s)) = ?flat (map places (sr_matches s))"
    by (simp add: flat_pairs_def comp_def places_def)
  have pairs: "map places (sr_matches s) = circle_pairs c ?c [0..<length ?c div 2]"
    using cr by (simp add: circle_round_def c(2))
  have "distinct (?flat (map places (sr_matches s)))"
    unfolding pairs using c(1) by (intro flat_pairs_distinct) auto
  moreover have "set (?flat (map places (sr_matches s))) \<subseteq> Some ` set participants"
  proof
    fix p
    assume p: "p \<in> set (?flat (map places (sr_matches s)))"
    then obtain i where i: "p \<noteq> None" "i \<in> set [0..<length ?c div 2]" "p = ?c ! i \<or> p = ?c ! (length ?c - 1 - i)"
      unfolding pairs using flat_pairs_members by metis
    then have "i < length ?c" "length ?c - 1 - i < length ?c"
      by auto
    then have "p \<in> set ?c"
      using i(3) nth_mem by metis
    moreover note i(1)
    ultimately show "p \<in> Some ` set participants"
      unfolding c(3) by (auto simp: effectiveParticipants_def split: if_splits)
  qed
  moreover have "map bm_id (concat (map sr_matches (schedule_of K bestOf participants))) =
      map (\<lambda>k. ju ''M'' @ decimal_text k) [1..<length (concat (map sr_matches (schedule_of K bestOf participants))) + 1]"
    using names_from_ids [OF schedule_facts(2) [OF assms(2)]] by (simp only: add.commute)
  moreover have "\<forall>m \<in> set (sr_matches s). bm_round m = sr_round s"
    using schedule_facts(4) [OF assms(2,3)] by simp
  ultimately show ?thesis
    unfolding flat by blast
qed

lemma round_robin_rounds_witness:
  "distinct (concat (map (\<lambda>m. [bm_participant1 m, bm_participant2 m])
     (sr_matches (hd (schedule_of 1 None [ju ''a'', ju ''b'', ju ''c''])))))"
proof -
  let ?ps = "[ju ''a'', ju ''b'', ju ''c'']"
  have "schedule_of 1 None ?ps \<noteq> []"
    using schedule_facts(3) [of ?ps 1 None] by (auto simp: cycle_length_def effectiveParticipants_def)
  then show ?thesis
    using round_robin_rounds [of ?ps "hd (schedule_of 1 None ?ps)" 1 None] by (simp add: ju_inject)
qed

text \<open>The matches of a round: the pairs of the circle without the one that has the empty place.\<close>

lemma filter_index: "length (filter (\<lambda>i. i \<noteq> t) [0..<n]) = n - (if t < n then 1 else 0)"
  by (induction n) auto

lemma length_circle_round:
  assumes "participants \<noteq> []" "distinct participants"
  shows "length (circle_round cycle (effectiveParticipants participants) r) = length participants div 2"
proof -
  let ?e = "effectiveParticipants participants" and ?n = "length participants"
  obtain M where M: "length ?e = Suc M" "odd M" "distinct ?e"
    using assms by (metis effective_facts)
  then have "0 < M" "?e \<noteq> []"
    by (auto elim: oddE)
  let ?c = "(rotate_circle ^^ r) ?e"
  have c: "distinct ?c" "length ?c = Suc M"
    using M \<open>0 < M\<close> \<open>?e \<noteq> []\<close> by (simp_all add: distinct_circles)
  have full: "?c ! place M r x = ?e ! x" if "x \<le> M" for x
    using circle_nth [OF M(1) \<open>0 < M\<close> that] .
  have pairs: "length (circle_round cycle ?e r) =
      length (filter (\<lambda>i. ?c ! i \<noteq> None \<and> ?c ! (M - i) \<noteq> None) [0..<Suc M div 2])"
    by (simp add: circle_round_def circle_pairs_def c(2) M(1))
  show ?thesis
  proof (cases "even ?n")
    case True
    then have e: "?e = map Some participants"
      by (simp add: effectiveParticipants_def)
    have "set ?c = set ?e"
      using rotate_circles [of "tl ?e" r "hd ?e"] M(1) \<open>0 < M\<close> \<open>?e \<noteq> []\<close> by (cases ?e) auto
    then have "?c ! i \<noteq> None" if "i \<le> M" for i
      using nth_mem [of i ?c] that c(2) unfolding e by (auto simp: image_iff)
    then have "filter (\<lambda>i. ?c ! i \<noteq> None \<and> ?c ! (M - i) \<noteq> None) [0..<Suc M div 2] = [0..<Suc M div 2]"
      by (intro filter_True) auto
    then show ?thesis
      using pairs M(1) e by simp
  next
    case False
    then have e: "?e = map Some participants @ [None]" "M = ?n"
      using M(1) by (auto simp: effectiveParticipants_def odd_iff_mod_2_eq_one)
    define t where "t = place M r M"
    have t: "?c ! t = None" "t \<le> M"
      using full [of M] place_bound [OF \<open>0 < M\<close>] e by (simp_all add: t_def nth_append)
    have none: "?c ! i = None \<longleftrightarrow> i = t" if "i \<le> M" for i
      using t that c nth_eq_iff_index_eq [OF c(1), of i t] by auto
    have "filter (\<lambda>i. ?c ! i \<noteq> None \<and> ?c ! (M - i) \<noteq> None) [0..<Suc M div 2] =
        filter (\<lambda>i. i \<noteq> min t (M - t)) [0..<Suc M div 2]"
    proof (rule filter_cong [OF refl])
      fix i
      assume "i \<in> set [0..<Suc M div 2]"
      then have i: "i \<le> M" "2 * i < M"
        using M(2) by (auto elim!: oddE)
      then show "(?c ! i \<noteq> None \<and> ?c ! (M - i) \<noteq> None) \<longleftrightarrow> i \<noteq> min t (M - t)"
        using none [of i] none [of "M - i"] t(2) by auto
    qed
    moreover have "min t (M - t) < Suc M div 2"
      using M(2) t(2) by (auto elim!: oddE)
    ultimately have "length (circle_round cycle ?e r) = Suc M div 2 - 1"
      unfolding pairs using filter_index [of "min t (M - t)" "Suc M div 2"] by simp
    then show ?thesis
      using e(2) M(2) by (auto elim!: oddE)
  qed
qed

lemma sum_list_blocks: "sum_list (map f (concat xss)) = sum_list (map (\<lambda>xs. sum_list (map f xs)) xss)"
  by (induction xss) auto

text \<open>
  Round robin. The schedule has the number of matches of \<open>getTotalMatches\<close> and the number of
  rounds of \<open>getTotalRounds\<close>.
\<close>
theorem round_robin_totals:
  assumes "distinct participants" "participants \<noteq> []" "0 < K"
  shows "length (concat (map sr_matches (schedule_of K bestOf participants))) = getTotalMatches (Some K) participants \<and>
    int (length (schedule_of K bestOf participants)) = getTotalRounds (Some K) participants"
proof -
  let ?n = "length participants" and ?L = "cycle_length participants" and ?s = "schedule_of K bestOf participants"
  obtain M where M: "length (effectiveParticipants participants) = Suc M" "odd M"
    using assms(2) by (metis effective_facts)
  have L: "?L = M" "M = (if even ?n then ?n - 1 else ?n)"
    using M(1) by (auto simp: cycle_length_def effectiveParticipants_def odd_iff_mod_2_eq_one even_iff_mod_2_eq_zero split: if_splits)
  have "length (concat (map sr_matches ?s)) = sum_list (map length (map (\<lambda>s. map places (sr_matches s)) ?s))"
    by (simp add: length_concat comp_def)
  also have "\<dots> = K * (?L * (?n div 2))"
    unfolding schedule_facts(1) [OF assms(2)]
    by (simp add: sum_list_blocks comp_def length_circle_round [OF assms(2,1)] sum_list_triv)
  also have "?L * (?n div 2) = ?n * (?n - 1) div 2"
    using L assms(2) by (auto elim!: evenE oddE simp: algebra_simps)
  finally have "length (concat (map sr_matches ?s)) = getTotalMatches (Some K) participants"
    using assms(3) by (simp add: getTotalMatches_def or_one_def Let_def)
  moreover have "length ?s = K * ?L"
    using arg_cong [OF schedule_facts(3) [OF assms(2), of K bestOf], of length] by (simp del: upt_Suc)
  moreover have "int M = (if int ?n mod 2 = 0 then int ?n - 1 else int ?n)"
  proof -
    have "int ?n mod 2 = 0 \<longleftrightarrow> even ?n" "0 < ?n"
      using assms(2) by (presburger, simp)
    then show ?thesis
      using L(2) by (cases ?n) simp_all
  qed
  ultimately have "int (length ?s) = getTotalRounds (Some K) participants"
    using L(1) assms(3) by (simp add: getTotalRounds_def or_one_def Let_def)
  moreover note \<open>length (concat (map sr_matches ?s)) = getTotalMatches (Some K) participants\<close>
  ultimately show ?thesis
    by blast
qed

lemma round_robin_totals_witness:
  "length (concat (map sr_matches (schedule_of 2 None [ju ''a'', ju ''b'', ju ''c'', ju ''d'']))) = 12"
  using round_robin_totals [of "[ju ''a'', ju ''b'', ju ''c'', ju ''d'']" 2 None]
  by (simp add: ju_inject getTotalMatches_def or_one_def Let_def)

section \<open>The current round\<close>

lemma sr_matches_set_schedule: "length ms = length s \<Longrightarrow> map sr_matches (set_schedule s ms) = ms"
  by (induction s ms rule: list_induct2') (auto simp: set_schedule_def)

lemma length_set_schedule [simp]: "length (set_schedule s ms) = min (length s) (length ms)"
  by (simp add: set_schedule_def)

definition results_run :: "tour_match list \<Rightarrow> league \<Rightarrow> league" where
  "results_run results b = fold (\<lambda>r b. rr_onMatchComplete b r) results b"

definition league_inv :: "league \<Rightarrow> bool" where
  "league_inv b \<longleftrightarrow> distinct (map bm_id (rr_matches b)) \<and>
     (\<forall>m \<in> set (rr_matches b). bm_round m < rr_currentRound b \<longrightarrow> bm_status m = Completed) \<and>
     1 \<le> rr_currentRound b \<and> rr_currentRound b \<le> max 1 (length (rr_schedule b))"

lemma league_inv_step: "league_inv b \<Longrightarrow> league_inv (rr_onMatchComplete b r)"
proof -
  assume inv: "league_inv b"
  let ?key = "match_key r"
  let ?b = "b\<lparr>rr_schedule := set_schedule (rr_schedule b)
    (update_rounds (\<lambda>m. bm_id m = ?key) (finish_match r) (map sr_matches (rr_schedule b)))\<rparr>"
  let ?f = "\<lambda>m. if bm_id m = ?key then finish_match r m else m"
  have ms: "rr_matches ?b = map ?f (rr_matches b)"
    using inv by (simp add: rr_matches_def sr_matches_set_schedule concat_update_rounds update_first_unique league_inv_def)
  have ids: "map bm_id (rr_matches ?b) = map bm_id (rr_matches b)"
    by (simp add: ms finish_match_def)
  have len: "length (rr_schedule ?b) = length (rr_schedule b)"
    by simp
  let ?now = "filter (\<lambda>m. bm_round m = rr_currentRound b) (rr_matches ?b)"
  have over: "bm_status m = Completed" if "m \<in> set (rr_matches ?b)" "bm_id m = ?key" for m
    using that by (auto simp: ms finish_match_def split: if_splits)
  have before: "bm_status m = Completed" if "m \<in> set (rr_matches ?b)" "bm_round m < rr_currentRound b" for m
    using that inv by (auto simp: ms finish_match_def league_inv_def split: if_splits)
  show ?thesis
  proof (cases "length (filter (\<lambda>m. bm_status m = Completed \<or> bm_id m = ?key) ?now) = length ?now \<and>
      rr_currentRound b < length (rr_schedule ?b)")
    case True
    then have "\<forall>m \<in> set ?now. bm_status m = Completed \<or> bm_id m = ?key"
      using length_filter_less [of _ ?now "\<lambda>m. bm_status m = Completed \<or> bm_id m = ?key"] by force
    then have "bm_status m = Completed" if "m \<in> set (rr_matches ?b)" "bm_round m < Suc (rr_currentRound b)" for m
      using that over before by (cases "bm_round m = rr_currentRound b") auto
    moreover have "rr_onMatchComplete b r = ?b\<lparr>rr_currentRound := Suc (rr_currentRound b)\<rparr>"
      using True by (simp add: rr_onMatchComplete_def Let_def)
    ultimately show ?thesis
      using inv True ids len by (simp add: league_inv_def) (simp add: rr_matches_def)
  next
    case False
    then have "rr_onMatchComplete b r = ?b"
      by (simp add: rr_onMatchComplete_def Let_def)
    then show ?thesis
      using inv ids len before by (simp add: league_inv_def)
  qed
qed

lemma league_inv_start: "participants \<noteq> [] \<Longrightarrow> league_inv (rr_generateBracket rounds bestOf participants)"
proof -
  assume ps: "participants \<noteq> []"
  let ?s = "schedule_of (or_one rounds) (Some (or_one bestOf)) participants"
  have b: "rr_generateBracket rounds bestOf participants = \<lparr>rr_schedule = ?s, rr_currentRound = 1, rr_participants = participants\<rparr>"
    by (simp add: rr_generateBracket_def schedule_of_def)
  have "distinct (map bm_id (concat (map sr_matches ?s)))"
    unfolding names_from_ids [OF schedule_facts(2) [OF ps]] by (auto simp: distinct_map inj_on_def decimal_text_inject)
  moreover have "1 \<le> bm_round m" if "m \<in> set (concat (map sr_matches ?s))" for m
  proof -
    from that obtain s where "s \<in> set ?s" "m \<in> set (sr_matches s)"
      by auto
    then have "sr_round s \<in> set (map sr_round ?s)" "bm_round m = sr_round s"
      using schedule_facts(4) [OF ps] by auto
    then show ?thesis
      unfolding schedule_facts(3) [OF ps] by (auto simp del: upt_Suc)
  qed
  ultimately show ?thesis
    by (force simp: b league_inv_def rr_matches_def)
qed

lemma league_inv_run: "league_inv b \<Longrightarrow> league_inv (results_run results b)"
  unfolding results_run_def by (induction results arbitrary: b) (simp_all add: league_inv_step)

text \<open>
  C23 (round robin). Whatever results are reported, of matches of any round and in any order, every match
  of a round before the current one is completed, and the current round is one of the schedule's.
\<close>
theorem league_rounds_in_order:
  assumes "participants \<noteq> []"
  shows "let b = results_run results (rr_generateBracket rounds bestOf participants) in
    (\<forall>m \<in> set (rr_matches b). bm_round m < rr_currentRound b \<longrightarrow> bm_status m = Completed) \<and>
    1 \<le> rr_currentRound b \<and> rr_currentRound b \<le> max 1 (length (rr_schedule b))"
  using league_inv_run [OF league_inv_start [OF assms]] by (simp add: league_inv_def Let_def)

text \<open>Four participants; both matches of the first round and one of the second are reported.\<close>

definition four_league :: league where
  "four_league = rr_generateBracket None None (map ju [''a'', ''b'', ''c'', ''d''])"

definition first_results :: "tour_match list" where
  "first_results = map (\<lambda>m. m\<lparr>tm_winner := tm_participant1 m, tm_status := Completed\<rparr>) (take 3 (rr_getInitialMatches None four_league))"

lemma league_rounds_in_order_witness:
  "let b = results_run first_results four_league in rr_currentRound b = 2 \<and>
    length (filter (\<lambda>m. bm_round m < 2) (rr_matches b)) = 2 \<and>
    (\<forall>m \<in> set (rr_matches b). bm_round m < 2 \<longrightarrow> bm_status m = Completed)"
proof -
  have "rr_currentRound (results_run first_results four_league) = 2"
    "length (filter (\<lambda>m. bm_round m < 2) (rr_matches (results_run first_results four_league))) = 2"
    by code_simp+
  then show ?thesis
    using league_rounds_in_order [of "map ju [''a'', ''b'', ''c'', ''d'']" first_results None None, folded four_league_def]
    by (simp add: Let_def)
qed

section \<open>Swiss pairing\<close>

definition paired_names :: "(ustring \<times> ustring option) list \<Rightarrow> ustring list" where
  "paired_names pairings = concat (map (\<lambda>p. fst p # (case snd p of None \<Rightarrow> [] | Some q \<Rightarrow> [q])) pairings)"

definition swiss_inv :: "swiss_entry list \<Rightarrow> ustring list \<Rightarrow> ustring list \<times> (ustring \<times> ustring option) list \<Rightarrow> bool" where
  "swiss_inv entries played st \<longleftrightarrow> paired_names (snd st) = fst st \<and> distinct (fst st) \<and>
     set (fst st) \<subseteq> sw_participant ` set entries \<and>
     (\<forall>p q. (p, Some q) \<in> set (snd st) \<longrightarrow> pair_key p q \<notin> set played)"

lemma paired_names_snoc: "paired_names (pairings @ [(p, q)]) = paired_names pairings @ p # (case q of None \<Rightarrow> [] | Some r \<Rightarrow> [r])"
  by (simp add: paired_names_def)

lemma find_opponent_facts:
  assumes "find_opponent entries played paired p = Some q"
  shows "q \<noteq> p" "q \<notin> set paired" "pair_key p q \<notin> set played" "q \<in> sw_participant ` set entries"
  using assms by (auto simp: find_opponent_def find_Some_iff)

lemma swiss_inv_step:
  assumes "swiss_inv entries played st" "s \<in> set entries"
  shows "swiss_inv entries played (swiss_step entries played s st)"
    and "set (fst st) \<union> {sw_participant s} \<subseteq> set (fst (swiss_step entries played s st))"
proof -
  obtain paired pairings where st: "st = (paired, pairings)"
    by (cases st)
  let ?p = "sw_participant s"
  have "swiss_inv entries played (swiss_step entries played s st) \<and>
    set (fst st) \<union> {?p} \<subseteq> set (fst (swiss_step entries played s st))"
  proof (cases "?p \<in> set paired")
    case True
    then show ?thesis
      using assms(1) by (simp add: swiss_step_def st)
  next
    case False
    show ?thesis
    proof (cases "present (find_opponent entries played paired ?p)")
      case True
      then obtain q where q: "find_opponent entries played paired ?p = Some q"
        by (auto simp: present_def split: option.splits)
      then have "swiss_step entries played s st = (paired @ [?p, q], pairings @ [(?p, Some q)])"
        using False True by (simp add: swiss_step_def st Let_def)
      then show ?thesis
        using assms False find_opponent_facts [OF q] by (auto simp: st swiss_inv_def paired_names_snoc)
    next
      case absent: False
      then have "swiss_step entries played s st = (paired @ [?p], pairings @ [(?p, None)])"
        using False by (simp add: swiss_step_def st Let_def)
      then show ?thesis
        using assms False by (auto simp: st swiss_inv_def paired_names_snoc)
    qed
  qed
  then show "swiss_inv entries played (swiss_step entries played s st)"
    and "set (fst st) \<union> {sw_participant s} \<subseteq> set (fst (swiss_step entries played s st))"
    by simp_all
qed

lemma swiss_inv_fold:
  "swiss_inv entries played st \<Longrightarrow> set es \<subseteq> set entries \<Longrightarrow>
   swiss_inv entries played (fold (swiss_step entries played) es st) \<and>
   set (fst st) \<union> sw_participant ` set es \<subseteq> set (fst (fold (swiss_step entries played) es st))"
proof (induction es arbitrary: st)
  case (Cons s es)
  have step: "swiss_inv entries played (swiss_step entries played s st)"
    "set (fst st) \<union> {sw_participant s} \<subseteq> set (fst (swiss_step entries played s st))"
    using swiss_inv_step [OF Cons.prems(1), of s] Cons.prems(2) by simp_all
  then have "swiss_inv entries played (fold (swiss_step entries played) es (swiss_step entries played s st)) \<and>
    set (fst (swiss_step entries played s st)) \<union> sw_participant ` set es \<subseteq>
      set (fst (fold (swiss_step entries played) es (swiss_step entries played s st)))"
    using Cons.prems(2) by (intro Cons.IH) auto
  then show ?case
    using step(2) by auto
qed simp

text \<open>
  C21 (swiss). Every participant of the round is in exactly one pairing, with an opponent or a bye,
  and no two that have already met are paired again.
\<close>
theorem swiss_pairs_all_once:
  assumes "distinct (map sw_participant standings)"
  shows "mset (paired_names (generateSwissPairing standings completed)) = mset (map sw_participant standings) \<and>
    (\<forall>p q. (p, Some q) \<in> set (generateSwissPairing standings completed) \<longrightarrow>
       (p, q) \<notin> set completed \<and> (q, p) \<notin> set completed)"
proof -
  let ?entries = "sort_key (\<lambda>s. - sw_points s) standings" and ?played = "already_played completed"
  define st where "st = fold (swiss_step ?entries ?played) ?entries ([], [])"
  have inv: "swiss_inv ?entries ?played st" "sw_participant ` set standings \<subseteq> set (fst st)"
    using swiss_inv_fold [of ?entries ?played "([], [])" ?entries] by (simp_all add: st_def swiss_inv_def paired_names_def)
  then have "set (fst st) = set (map sw_participant standings)" "distinct (fst st)"
    by (auto simp: swiss_inv_def)
  then have "mset (fst st) = mset (map sw_participant standings)"
    using assms by (intro iffD1 [OF set_eq_iff_mset_eq_distinct])
  moreover have "pair_key p q \<in> set ?played" if "(p, q) \<in> set completed \<or> (q, p) \<in> set completed" for p q
    using that by (force simp: already_played_def)
  ultimately show ?thesis
    using inv(1) unfolding generateSwissPairing_def Let_def st_def [symmetric] swiss_inv_def by metis
qed

lemma swiss_pairs_all_once_witness:
  "mset (paired_names (generateSwissPairing [\<lparr>sw_participant = ju ''a'', sw_points = 1\<rparr>, \<lparr>sw_participant = ju ''b'', sw_points = 2\<rparr>] [])) =
   {#ju ''a'', ju ''b''#}"
  using swiss_pairs_all_once [of "[\<lparr>sw_participant = ju ''a'', sw_points = 1\<rparr>, \<lparr>sw_participant = ju ''b'', sw_points = 2\<rparr>]" "[]"]
  by (simp add: ju_inject)

text \<open>
  The greedy search can leave two byes where a complete pairing exists: of four players with
  equal points the first takes the second, and the other two have met before.
\<close>
lemma swiss_two_byes:
  "generateSwissPairing (map (\<lambda>n. \<lparr>sw_participant = ju n, sw_points = 0\<rparr>) [''a'', ''b'', ''c'', ''d'']) [(ju ''c'', ju ''d'')] =
     [(ju ''a'', Some (ju ''b'')), (ju ''c'', None), (ju ''d'', None)]"
  by (simp add: generateSwissPairing_def already_played_def swiss_step_def find_opponent_def pair_key_def present_def
      ju_inject Let_def)

end
