(* ===== verification/SingleElimination.thy ===== *)
theory SingleElimination
  imports Tournament
begin

text \<open>
  Single elimination: \<open>src/plugins/tournament/formats/single-elimination.ts\<close>, and what
  \<open>tournament-manager.ts\<close> and \<open>match-manager.ts\<close> do with it when a tournament starts and a result
  is reported: the matches of the format are created under \<open>tournament:name\<close> with their name as
  \<open>matchRef\<close>, a report completes one of them, and the format answers with the new bracket and the
  matches that became ready. \<open>_advanceToMatch\<close>, which afterwards looks for a free place in a
  created match, finds none in this format, since only matches with both places are created.

  Shown: with \<open>2 ^ k\<close> or \<open>2 ^ k - 1\<close> participants a tournament is complete or has an open match
  after any decisive results, and with fewer participants than that the final is never played:
  a first-round match without participants has no winner, and the match after it waits for ever.
\<close>

section \<open>The format\<close>

record third_place =
  tp_round :: nat
  tp_participant1 :: "ustring option"
  tp_participant2 :: "ustring option"

record single_bracket =
  se_rounds :: nat
  se_matches :: rounds
  se_third :: "third_place option"
  se_participants :: "ustring list"
  se_bestOf :: "nat option"

definition or_default :: "nat option \<Rightarrow> nat \<Rightarrow> nat" where
  "or_default n d = (case n of None \<Rightarrow> d | Some k \<Rightarrow> if k = 0 then d else k)"

definition se_validate :: "ustring list \<Rightarrow> string list" where
  "se_validate participants =
     (if length participants < 2 then [''Minimum 2 participants required''] else []) @
     (if length participants > 256 then [''Maximum 256 participants for single elimination''] else [])"

definition se_generateBracket :: "nat option \<Rightarrow> nat option \<Rightarrow> bool \<Rightarrow> ustring list \<Rightarrow> single_bracket" where
  "se_generateBracket bestOf finalsBestOf thirdPlaceMatch participants =
     (case generateSingleEliminationBracket (Some (or_default bestOf 1))
        (Some (or_default finalsBestOf (or_default bestOf 1))) participants of (rounds, matches) \<Rightarrow>
      \<lparr>se_rounds = rounds, se_matches = matches,
       se_third = (if thirdPlaceMatch then Some \<lparr>tp_round = rounds, tp_participant1 = None, tp_participant2 = None\<rparr> else None),
       se_participants = participants, se_bestOf = bestOf\<rparr>)"

definition se_getInitialMatches :: "single_bracket \<Rightarrow> tour_match list option" where
  "se_getInitialMatches b = (case se_matches b of [] \<Rightarrow> None
     | r # rs \<Rightarrow> Some (map (announce (se_bestOf b) (ju ''bracket'')) (filter (\<lambda>m. bm_status m = Pending) r)))"

definition record_result :: "tour_match \<Rightarrow> bracket_match \<Rightarrow> bracket_match" where
  "record_result r m = m\<lparr>bm_winner := tm_winner r, bm_loser := tm_loser r, bm_status := Completed,
     bm_score1 := Some (tm_score1 r), bm_score2 := Some (tm_score2 r)\<rparr>"

text \<open>The places of the match for the third rank, and the match once both are taken.\<close>

definition third_step :: "nat option \<Rightarrow> nat \<Rightarrow> tour_match \<Rightarrow> third_place \<Rightarrow> third_place \<times> tour_match list" where
  "third_step bestOf rounds r t =
     (if \<not> present (tp_participant1 t) then (t\<lparr>tp_participant1 := tm_loser r\<rparr>, [])
      else if \<not> present (tp_participant2 t)
      then (let t = t\<lparr>tp_participant2 := tm_loser r\<rparr>
        in (t, [(createMatchTemplate bestOf (ju ''third-place'') rounds 1 (tp_participant1 t) (tp_participant2 t)
             bestOf None None)\<lparr>tm_id := ju ''3RD''\<rparr>]))
      else (t, []))"

text \<open>The winner goes to the next match, which is new when it has both participants.\<close>

definition advance_winner :: "nat option \<Rightarrow> tour_match \<Rightarrow> rounds \<Rightarrow> rounds \<times> tour_match list" where
  "advance_winner bestOf r ms =
     (if present (tm_winner r) \<and> present (tm_next r)
      then (case match_ref (ju ''R'') (the (tm_next r)) of
          None \<Rightarrow> (ms, [])
        | Some q \<Rightarrow> (case match_at ms q of
              None \<Rightarrow> (ms, [])
            | Some next \<Rightarrow>
                let next = fill_place (the (tm_winner r)) next in
                (set_match ms q next,
                 if present (bm_participant1 next) \<and> present (bm_participant2 next) \<and> bm_status next = Pending
                 then [announce bestOf (if fst q = length ms then ju ''finals'' else ju ''bracket'') next] else [])))
      else (ms, []))"

definition se_onMatchComplete :: "single_bracket \<Rightarrow> tour_match \<Rightarrow> single_bracket \<times> tour_match list" where
  "se_onMatchComplete b r =
     (let found = find (\<lambda>m. bm_id m = match_key r) (concat (se_matches b));
          (third, new1) = (case (found, se_third b) of
              (Some m, Some t) \<Rightarrow> if int (bm_round m) = int (se_rounds b) - 1
                then (case third_step (se_bestOf b) (se_rounds b) r t of (t, new) \<Rightarrow> (Some t, new)) else (Some t, [])
            | _ \<Rightarrow> (se_third b, []));
          (ms, new2) = advance_winner (se_bestOf b) r
            (update_rounds (\<lambda>m. bm_id m = match_key r) (record_result r) (se_matches b))
      in (b\<lparr>se_matches := ms, se_third := third\<rparr>, new1 @ new2))"

definition final_match :: "single_bracket \<Rightarrow> bracket_match" where
  "final_match b = hd (last (se_matches b))"

definition completed_ref :: "ustring \<Rightarrow> tour_match list \<Rightarrow> bool" where
  "completed_ref name ms \<longleftrightarrow> (\<exists>m \<in> set ms. match_key m = name \<and> tm_status m = Completed)"

definition se_isComplete :: "single_bracket \<Rightarrow> tour_match list \<Rightarrow> bool" where
  "se_isComplete b ms \<longleftrightarrow> completed_ref (bm_id (final_match b)) ms \<and>
     (se_third b \<noteq> None \<longrightarrow> completed_ref (ju ''3RD'') ms)"

definition se_getWinner :: "single_bracket \<Rightarrow> tour_match list \<Rightarrow> ustring option" where
  "se_getWinner b ms =
     (if se_isComplete b ms
      then (case find (\<lambda>m. match_key m = bm_id (final_match b)) ms of
          None \<Rightarrow> None | Some m \<Rightarrow> or_else (tm_winner m) None)
      else None)"

text \<open>\<open>getCompletedRounds\<close> compares the stored identifiers, not the names.\<close>

definition round_over :: "tour_match list \<Rightarrow> bracket_match list \<Rightarrow> bool" where
  "round_over ms r \<longleftrightarrow> (\<forall>m \<in> set r. case find (\<lambda>t. tm_id t = bm_id m) ms of
     None \<Rightarrow> False | Some t \<Rightarrow> tm_status t = Completed \<or> tm_status t = Bye)"

definition se_getCompletedRounds :: "single_bracket \<Rightarrow> tour_match list \<Rightarrow> nat" where
  "se_getCompletedRounds b ms = length (takeWhile (round_over ms) (se_matches b))"

definition se_getCurrentPhase :: "single_bracket \<Rightarrow> tour_match list \<Rightarrow> string" where
  "se_getCurrentPhase b ms =
     (let over = int (se_getCompletedRounds b ms); rounds = int (se_rounds b)
      in if over \<ge> rounds - 1 then ''finals'' else if over \<ge> rounds - 2 then ''semifinals''
         else if over \<ge> rounds - 3 then ''quarterfinals'' else ''bracket'')"

definition se_getCurrentRound :: "single_bracket \<Rightarrow> tour_match list \<Rightarrow> nat" where
  "se_getCurrentRound b ms = se_getCompletedRounds b ms + 1"

section \<open>A running tournament\<close>

text \<open>\<open>MatchManager.create\<close>: the stored match of a tournament.\<close>

definition determineInitialStatus :: "ustring option \<Rightarrow> ustring option \<Rightarrow> match_status" where
  "determineInitialStatus p1 p2 =
     (if present p1 \<and> present p2 then Pending else if present p1 \<or> present p2 then Waiting else Vacant)"

definition create_match :: "ustring \<Rightarrow> tour_match \<Rightarrow> tour_match" where
  "create_match tournamentId m =
     m\<lparr>tm_id := tournamentId @ [58] @ tm_id m, tm_matchRef := Some (tm_id m),
       tm_status := determineInitialStatus (tm_participant1 m) (tm_participant2 m)\<rparr>"

text \<open>Who wins, from the scores; a result may leave the match without a winner.\<close>

definition decide :: "tour_match \<Rightarrow> int \<Rightarrow> int \<Rightarrow> ustring option \<times> ustring option" where
  "decide m score1 score2 =
     (let winsNeeded = int ((tm_bestOf m + 1) div 2) in
      if score1 \<ge> winsNeeded then (tm_participant1 m, tm_participant2 m)
      else if score2 \<ge> winsNeeded then (tm_participant2 m, tm_participant1 m)
      else if tm_bestOf m = 1
      then (if score1 > score2 then (tm_participant1 m, tm_participant2 m)
            else if score2 > score1 then (tm_participant2 m, tm_participant1 m) else (None, None))
      else (None, None))"

definition report_result :: "int \<Rightarrow> int \<Rightarrow> tour_match \<Rightarrow> tour_match" where
  "report_result score1 score2 m =
     (case decide m score1 score2 of (w, l) \<Rightarrow>
        m\<lparr>tm_score1 := score1, tm_score2 := score2, tm_winner := w, tm_loser := l, tm_status := Completed\<rparr>)"

type_synonym single_run = "single_bracket \<times> tour_match list"

definition se_start :: "ustring \<Rightarrow> single_bracket \<Rightarrow> single_run option" where
  "se_start tournamentId b =
     map_option (\<lambda>ms. (b, map (create_match tournamentId) ms)) (se_getInitialMatches b)"

text \<open>\<open>reportResult\<close> on the \<open>i\<close>-th stored match, with \<open>updateBracket\<close>.\<close>

definition open_status :: "match_status \<Rightarrow> bool" where
  "open_status s \<longleftrightarrow> s = Pending \<or> s = Scheduled \<or> s = In_Progress"

definition se_report :: "ustring \<Rightarrow> nat \<times> int \<times> int \<Rightarrow> single_run \<Rightarrow> single_run" where
  "se_report tournamentId p st = (case (p, st) of ((i, score1, score2), (b, ms)) \<Rightarrow>
     if i < length ms \<and> open_status (tm_status (ms ! i))
     then (let r = report_result score1 score2 (ms ! i); (b, new) = se_onMatchComplete b r
           in (b, ms[i := r] @ map (create_match tournamentId) new))
     else (b, ms))"

text \<open>\<open>reportWalkover\<close>, which asks for no status of the match.\<close>

definition report_walkover :: "ustring \<Rightarrow> tour_match \<Rightarrow> tour_match" where
  "report_walkover winner m =
     m\<lparr>tm_winner := Some winner, tm_status := Walkover,
       tm_loser := (if Some winner = tm_participant1 m then tm_participant2 m else tm_participant1 m)\<rparr>"

definition se_walkover :: "ustring \<Rightarrow> nat \<times> ustring \<Rightarrow> single_run \<Rightarrow> single_run" where
  "se_walkover tournamentId p st = (case (p, st) of ((i, winner), (b, ms)) \<Rightarrow>
     if i < length ms \<and> (Some winner = tm_participant1 (ms ! i) \<or> Some winner = tm_participant2 (ms ! i))
     then (let r = report_walkover winner (ms ! i); (b, new) = se_onMatchComplete b r
           in (b, ms[i := r] @ map (create_match tournamentId) new))
     else (b, ms))"

section \<open>The matches of a bracket\<close>

definition valid_ref :: "nat \<Rightarrow> nat \<times> nat \<Rightarrow> bool" where
  "valid_ref K p \<longleftrightarrow> 1 \<le> fst p \<and> fst p \<le> K \<and> 1 \<le> snd p \<and> snd p \<le> 2 ^ (K - fst p)"

definition shaped :: "nat \<Rightarrow> rounds \<Rightarrow> bool" where
  "shaped K ms \<longleftrightarrow> map length ms = map (\<lambda>r. 2 ^ (K - r)) [1..<K + 1]"

lemma shaped_length: "shaped K ms \<Longrightarrow> length ms = K"
  by (metis add_diff_cancel_right' length_map length_upt shaped_def)

lemma shaped_row:
  assumes "shaped K ms" "Suc 0 \<le> r" "r \<le> K"
  shows "length (ms ! (r - Suc 0)) = 2 ^ (K - r)"
proof -
  have "length (ms ! (r - Suc 0)) = map length ms ! (r - Suc 0)"
    using assms shaped_length [OF assms(1)] by simp
  also have "\<dots> = 2 ^ (K - r)"
    unfolding assms(1) [unfolded shaped_def] using assms(2,3) by (subst nth_map) (auto simp del: upt_Suc)
  finally show ?thesis .
qed

lemma match_at_valid: "shaped K ms \<Longrightarrow> match_at ms p \<noteq> None \<longleftrightarrow> valid_ref K p"
  by (cases p) (auto simp: match_at_def valid_ref_def element_def shaped_length shaped_row split: if_splits)

lemma match_at_Some: "shaped K ms \<Longrightarrow> match_at ms (r, j) = Some m \<longleftrightarrow> valid_ref K (r, j) \<and> m = ms ! (r - 1) ! (j - 1)"
  by (auto simp: match_at_def valid_ref_def element_def shaped_length shaped_row split: if_splits)

lemma shaped_set_match [simp]: "shaped K (set_match ms p m) \<longleftrightarrow> shaped K ms"
proof -
  have "map length (set_match ms p m) = map length ms"
    by (cases p; cases "fst p - 1 < length ms")
       (simp_all add: set_match_def map_update list_update_same_conv list_update_beyond)
  then show ?thesis
    by (simp add: shaped_def)
qed

lemma match_at_set_match:
  assumes "shaped K ms" "valid_ref K p"
  shows "match_at (set_match ms p m) q = (if q = p then Some m else match_at ms q)"
proof -
  obtain r j r' j' where pq: "p = (r, j)" "q = (r', j')"
    by (cases p, cases q)
  have row: "1 \<le> r" "r \<le> length ms" "1 \<le> j" "j \<le> length (ms ! (r - 1))"
    using assms by (auto simp: valid_ref_def pq shaped_length shaped_row)
  show ?thesis
  proof (cases "r' = r")
    case True
    then show ?thesis
      using row unfolding pq by (auto simp: match_at_def set_match_def element_def nth_list_update)
  next
    case False
    then have "1 \<le> r' \<Longrightarrow> r - 1 \<noteq> r' - 1"
      using row by auto
    then show ?thesis
      using row False unfolding pq by (auto simp: match_at_def set_match_def element_def)
  qed
qed

lemma match_at_map: "match_at (map (map f) ms) p = map_option f (match_at ms p)"
  by (cases p) (auto simp: match_at_def element_def)

lemma shaped_map [simp]: "shaped K (map (map f) ms) = shaped K ms"
  by (simp add: shaped_def comp_def)

lemma concat_match_at: "shaped K ms \<Longrightarrow> m \<in> set (concat ms) \<longleftrightarrow> (\<exists>p. valid_ref K p \<and> match_at ms p = Some m)"
proof
  assume shape: "shaped K ms" and "m \<in> set (concat ms)"
  then obtain i j where ij: "i < length ms" "j < length (ms ! i)" "m = ms ! i ! j"
    by (auto simp: in_set_conv_nth)
  then have "match_at ms (i + 1, j + 1) = Some m"
    by (simp add: match_at_def element_def)
  then show "\<exists>p. valid_ref K p \<and> match_at ms p = Some m"
    using match_at_valid [OF shape] by blast
next
  assume "shaped K ms" and "\<exists>p. valid_ref K p \<and> match_at ms p = Some m"
  then obtain r j where rj: "valid_ref K (r, j)" "m = ms ! (r - Suc 0) ! (j - Suc 0)"
    using match_at_Some [OF \<open>shaped K ms\<close>] by fastforce
  then have "r - Suc 0 < length ms" "j - Suc 0 < length (ms ! (r - Suc 0))"
    using \<open>shaped K ms\<close> by (auto simp: valid_ref_def shaped_length shaped_row Suc_le_eq)
  then show "m \<in> set (concat ms)"
    unfolding rj(2) set_concat by (meson UN_I nth_mem)
qed

section \<open>Feeding the next match\<close>

definition after :: "nat \<times> nat \<Rightarrow> nat \<times> nat" where
  "after p = (fst p + 1, (snd p + 1) div 2)"

lemma valid_after: "valid_ref K p \<Longrightarrow> fst p < K \<Longrightarrow> valid_ref K (after p)"
proof -
  assume *: "valid_ref K p" "fst p < K"
  then have "(2 :: nat) ^ (K - fst p) = 2 * 2 ^ (K - Suc (fst p))"
    by (metis Suc_diff_Suc power_Suc)
  then show ?thesis
    using * by (auto simp: valid_ref_def after_def)
qed

text \<open>The number of feeding matches among \<open>D\<close>, and the places they have filled.\<close>

definition fed :: "(nat \<times> nat) set \<Rightarrow> nat \<times> nat \<Rightarrow> nat" where
  "fed D p = of_bool ((fst p - 1, 2 * snd p - 1) \<in> D) + of_bool ((fst p - 1, 2 * snd p) \<in> D)"

definition slots_ok :: "bracket_match \<Rightarrow> nat \<Rightarrow> bool" where
  "slots_ok m n \<longleftrightarrow> (present (bm_participant1 m) \<longleftrightarrow> 1 \<le> n) \<and> (present (bm_participant2 m) \<longleftrightarrow> 2 \<le> n)"

lemma fed_insert:
  assumes "p \<notin> D" "1 \<le> snd p" "1 \<le> fst q" "1 \<le> snd q" "1 \<le> fst p"
  shows "fed (insert p D) q = fed D q + (if q = after p then 1 else 0)"
proof -
  obtain r j r' j' where pq: "p = (r, j)" "q = (r', j')"
    by (cases p, cases q)
  have "(r', j') = (r + 1, (j + 1) div 2) \<longleftrightarrow> r' - 1 = r \<and> (2 * j' - 1 = j \<or> 2 * j' = j)"
    using assms(2-5) by (auto simp: pq)
  moreover have "2 * j' - 1 \<noteq> 2 * j'"
    using assms(4) by (simp add: pq)
  ultimately show ?thesis
    using assms(1) by (auto simp: fed_def after_def pq)
qed

lemma slots_fill: "slots_ok m n \<Longrightarrow> n < 2 \<Longrightarrow> w \<noteq> [] \<Longrightarrow> slots_ok (fill_place w m) (Suc n)"
  by (auto simp: slots_ok_def fill_place_def present_def split: option.splits)

definition bare :: "bracket_match \<Rightarrow> bracket_match" where
  "bare m = m\<lparr>bm_participant1 := None, bm_participant2 := None\<rparr>"

lemma bare_fill [simp]: "bare (fill_place w m) = bare m"
  by (simp add: bare_def fill_place_def)

lemma bare_fields:
  "bm_id (bare m) = bm_id m" "bm_round (bare m) = bm_round m" "bm_number (bare m) = bm_number m"
  "bm_next (bare m) = bm_next m" "bm_winner (bare m) = bm_winner m" "bm_status (bare m) = bm_status m"
  by (simp_all add: bare_def)

text \<open>The names and links of a bracket of \<open>K\<close> rounds.\<close>

definition link_ok :: "nat \<Rightarrow> nat \<times> nat \<Rightarrow> bracket_match \<Rightarrow> bool" where
  "link_ok K p m \<longleftrightarrow> bm_id m = match_name ''R'' (fst p) (snd p) \<and> bm_round m = fst p \<and> bm_number m = snd p \<and>
     bm_next m = (if fst p < K then Some (match_name ''R'' (fst (after p)) (snd (after p))) else None)"

definition linked :: "nat \<Rightarrow> rounds \<Rightarrow> bool" where
  "linked K ms \<longleftrightarrow> shaped K ms \<and> (\<forall>p m. match_at ms p = Some m \<longrightarrow> link_ok K p m)"

definition fed_by :: "(nat \<times> nat) set \<Rightarrow> rounds \<Rightarrow> bool" where
  "fed_by D ms \<longleftrightarrow> (\<forall>p m. match_at ms p = Some m \<longrightarrow> 2 \<le> fst p \<longrightarrow> slots_ok m (fed D p))"

definition feed :: "nat \<times> nat \<Rightarrow> ustring \<Rightarrow> rounds \<Rightarrow> rounds" where
  "feed p w ms = set_match ms (after p) (fill_place w (the (match_at ms (after p))))"

lemma fed_less: "p \<notin> D \<Longrightarrow> 1 \<le> snd p \<Longrightarrow> 1 \<le> fst p \<Longrightarrow> fed D (after p) < 2"
proof -
  assume *: "p \<notin> D" "1 \<le> snd p" "1 \<le> fst p"
  then have "fed (insert p D) (after p) = fed D (after p) + 1"
    by (subst fed_insert) (auto simp: after_def)
  moreover have "fed (insert p D) (after p) \<le> 2"
    by (simp add: fed_def)
  ultimately show ?thesis
    by simp
qed

lemma feed_facts:
  assumes "linked K ms" "fed_by D ms" "valid_ref K p" "fst p < K" "p \<notin> D" "w \<noteq> []"
  shows "linked K (feed p w ms)" "fed_by (insert p D) (feed p w ms)"
    and "map_option bare (match_at (feed p w ms) q) = map_option bare (match_at ms q)"
    and "q \<noteq> after p \<Longrightarrow> match_at (feed p w ms) q = match_at ms q"
    and "match_at (feed p w ms) (after p) = map_option (fill_place w) (match_at ms (after p))"
proof -
  have shape: "shaped K ms" and valid: "valid_ref K (after p)"
    using assms(1,3,4) by (simp_all add: linked_def valid_after)
  then obtain nx where nx: "match_at ms (after p) = Some nx"
    using match_at_valid by fastforce
  have at: "match_at (feed p w ms) q = (if q = after p then Some (fill_place w nx) else match_at ms q)" for q
    using match_at_set_match [OF shape valid] by (simp add: feed_def nx)
  show bare: "map_option bare (match_at (feed p w ms) q) = map_option bare (match_at ms q)" for q
    by (simp add: at nx)
  show "q \<noteq> after p \<Longrightarrow> match_at (feed p w ms) q = match_at ms q"
    and "match_at (feed p w ms) (after p) = map_option (fill_place w) (match_at ms (after p))"
    by (simp_all add: at nx)
  have link: "link_ok K q (fill_place w m) \<longleftrightarrow> link_ok K q m" for q m
    by (simp add: link_ok_def fill_place_def)
  have links: "link_ok K q m" if "match_at ms q = Some m" for q m
    using assms(1) that unfolding linked_def by blast
  have slots: "slots_ok m (fed D q)" if "match_at ms q = Some m" "2 \<le> fst q" for q m
    using assms(2) that unfolding fed_by_def by blast
  show "linked K (feed p w ms)"
    unfolding linked_def
  proof (intro conjI allI impI)
    show "shaped K (feed p w ms)"
      using shape by (simp add: feed_def)
    fix q m
    assume "match_at (feed p w ms) q = Some m"
    then show "link_ok K q m"
      using links link nx unfolding at by (metis option.sel)
  qed
  have p: "1 \<le> fst p" "1 \<le> snd p"
    using assms(3) by (simp_all add: valid_ref_def)
  show "fed_by (insert p D) (feed p w ms)"
    unfolding fed_by_def
  proof (intro allI impI)
    fix q m
    assume q: "match_at (feed p w ms) q = Some m" "2 \<le> fst q"
    then have "valid_ref K q"
      using at nx shape match_at_valid valid by (metis option.distinct(1))
    then have fed: "fed (insert p D) q = fed D q + (if q = after p then 1 else 0)"
      using fed_insert [OF assms(5) p(2) _ _ p(1)] by (simp add: valid_ref_def)
    show "slots_ok m (fed (insert p D) q)"
    proof (cases "q = after p")
      case True
      then have "slots_ok nx (fed D q)" "m = fill_place w nx"
        using slots q at nx by auto
      then show ?thesis
        using slots_fill fed_less [OF assms(5) p(2,1)] assms(6) True fed by auto
    next
      case False
      then show ?thesis
        using slots q at fed by auto
    qed
  qed
qed

section \<open>The generated bracket\<close>

definition decided :: "rounds \<Rightarrow> (nat \<times> nat) set" where
  "decided ms = {p. \<exists>m. match_at ms p = Some m \<and> present (bm_winner m)}"

definition match_ok :: "nat \<times> nat \<Rightarrow> bracket_match \<Rightarrow> bool" where
  "match_ok p m \<longleftrightarrow> (bm_status m = Pending \<or> bm_status m = Completed \<or> bm_status m = Bye) \<and>
     (bm_status m = Pending \<longrightarrow> bm_winner m = None) \<and> (bm_status m = Bye \<longrightarrow> fst p = 1) \<and>
     (bm_status m = Completed \<longrightarrow> present (bm_participant1 m) \<and> present (bm_participant2 m)) \<and>
     (fst p = 1 \<longrightarrow> bm_status m = Bye \<or> (present (bm_participant1 m) \<and> present (bm_participant2 m)))"

definition bracket_inv :: "nat \<Rightarrow> rounds \<Rightarrow> bool" where
  "bracket_inv K ms \<longleftrightarrow> linked K ms \<and> fed_by (decided ms) ms \<and> (\<forall>p m. match_at ms p = Some m \<longrightarrow> match_ok p m)"

text \<open>The matches before the byes are processed.\<close>

definition blank_rounds :: "nat \<Rightarrow> nat \<Rightarrow> nat \<Rightarrow> ustring option list \<Rightarrow> rounds" where
  "blank_rounds bestOf finalsBestOf K seeded =
     map (\<lambda>round. map (single_match bestOf finalsBestOf K seeded round) [1..<2 ^ K div 2 ^ round + 1]) [1..<K + 1]"

lemma power_div_power: "r \<le> K \<Longrightarrow> (2 :: nat) ^ K div 2 ^ r = 2 ^ (K - r)"
  by (simp add: power_diff)

lemma blank_shaped: "shaped K (blank_rounds bestOf finalsBestOf K seeded)"
  unfolding shaped_def blank_rounds_def map_map
  by (rule map_cong) (auto simp: power_div_power simp del: upt_Suc)

lemma blank_at:
  assumes "match_at (blank_rounds bestOf finalsBestOf K seeded) p = Some m"
  shows "m = single_match bestOf finalsBestOf K seeded (fst p) (snd p)" "valid_ref K p"
proof -
  obtain r j where p: "p = (r, j)"
    by (cases p)
  have *: "valid_ref K (r, j)" "m = blank_rounds bestOf finalsBestOf K seeded ! (r - 1) ! (j - 1)"
    using assms match_at_Some [OF blank_shaped] unfolding p by blast+
  then have "1 \<le> r" "r \<le> K" "1 \<le> j" "j \<le> 2 ^ (K - r)"
    by (simp_all add: valid_ref_def)
  then show "m = single_match bestOf finalsBestOf K seeded (fst p) (snd p)"
    using *(2) unfolding p blank_rounds_def
    by (subst (asm) nth_map) (auto simp: power_div_power simp del: upt_Suc)
  show "valid_ref K p"
    using *(1) by (simp add: p)
qed

lemma first_round_simps [simp]:
  "bm_id (first_round seeded j m) = bm_id m" "bm_round (first_round seeded j m) = bm_round m"
  "bm_number (first_round seeded j m) = bm_number m" "bm_next (first_round seeded j m) = bm_next m"
  by (simp_all add: first_round_def Let_def)

lemma single_match_link: "link_ok K p (single_match bestOf finalsBestOf K seeded (fst p) (snd p))"
  by (simp add: link_ok_def single_match_def open_match_def after_def Let_def)

lemma blank_linked: "linked K (blank_rounds bestOf finalsBestOf K seeded)"
  unfolding linked_def using blank_shaped blank_at(1) single_match_link by blast

lemma blank_fed: "fed_by {} (blank_rounds bestOf finalsBestOf K seeded)"
  unfolding fed_by_def
  using blank_at(1) by (fastforce simp: slots_ok_def fed_def single_match_def open_match_def present_def Let_def)

lemma first_round_places:
  assumes "length participants \<le> 2 ^ K" "\<forall>p \<in> set participants. p \<noteq> []" "1 \<le> j" "2 * j \<le> 2 ^ K"
    and "m = first_round (fillWithByes participants (2 ^ K)) j (open_match mid r i bestOf next ln)"
  shows "bm_status m = Pending \<Longrightarrow> 2 * j \<le> length participants \<and> bm_winner m = None \<and>
      present (bm_participant1 m) \<and> present (bm_participant2 m)"
    and "bm_status m \<noteq> Pending \<Longrightarrow> bm_status m = Bye \<and> length participants < 2 * j \<and>
      (present (bm_winner m) \<longleftrightarrow> 2 * j - 1 \<le> length participants)"
proof -
  let ?s = "fillWithByes participants (2 ^ K)"
  have s: "element ?s i = Some (if i < length participants then Some (participants ! i) else None)" if "i < 2 ^ K" for i
    using that assms(1) by (auto simp: fillWithByes_eq element_def nth_append)
  obtain i where i: "j = Suc i"
    using assms(3) by (cases j) auto
  then have s: "element ?s (i * 2) = Some (if i * 2 < length participants then Some (participants ! (i * 2)) else None)"
    "element ?s (Suc (i * 2)) = Some (if Suc (i * 2) < length participants then Some (participants ! Suc (i * 2)) else None)"
    using s assms(4) by auto
  have full: "participants ! i \<noteq> []" if "i < length participants" for i
    using assms(2) that by simp
  note simps = assms(5) first_round_def Let_def open_match_def i s present_def or_else_def
  show "bm_status m = Pending \<Longrightarrow> 2 * j \<le> length participants \<and> bm_winner m = None \<and>
      present (bm_participant1 m) \<and> present (bm_participant2 m)"
    using full by (auto simp: simps split: if_splits)
  show "bm_status m \<noteq> Pending \<Longrightarrow> bm_status m = Bye \<and> length participants < 2 * j \<and>
      (present (bm_winner m) \<longleftrightarrow> 2 * j - 1 \<le> length participants)"
    using full by (auto simp: simps split: if_splits)
qed

text \<open>The byes of the first round are fed to the second.\<close>

lemma linkedD: "linked K ms \<Longrightarrow> match_at ms p = Some m \<Longrightarrow> link_ok K p m"
  unfolding linked_def by blast

lemma bye_step_eq:
  assumes "linked K ms" "match_at ms (Suc i, Suc j) = Some m" "Suc i < K"
  shows "bye_step (i, j) ms = (if bm_status m = Bye \<and> present (bm_winner m)
    then feed (Suc i, Suc j) (the (bm_winner m)) ms else ms)"
proof -
  have "m = ms ! i ! j"
    using assms(2) by (auto simp: match_at_def element_def split: if_splits)
  moreover have "bm_next m = Some (match_name ''R'' (fst (after (Suc i, Suc j))) (snd (after (Suc i, Suc j))))"
    using linkedD [OF assms(1,2)] assms(3) by (simp add: link_ok_def)
  moreover have "valid_ref K (Suc i, Suc j)"
    using assms(1,2) match_at_valid unfolding linked_def by blast
  then have "valid_ref K (after (Suc i, Suc j))"
    using assms(3) by (simp add: valid_after)
  then obtain nx where "match_at ms (after (Suc i, Suc j)) = Some nx"
    using assms(1) match_at_valid unfolding linked_def by fastforce
  ultimately show ?thesis
    by (simp add: bye_step_def Let_def feed_def present_def)
qed

definition bye_inv :: "nat \<Rightarrow> rounds \<Rightarrow> (nat \<times> nat) set \<Rightarrow> rounds \<Rightarrow> bool" where
  "bye_inv K ms0 S ms \<longleftrightarrow> linked K ms \<and> fed_by (decided ms0 \<inter> S) ms \<and>
     (\<forall>p. map_option bare (match_at ms p) = map_option bare (match_at ms0 p)) \<and>
     (\<forall>j. match_at ms (1, j) = match_at ms0 (1, j))"

lemma bye_inv_step:
  assumes "bye_inv K ms0 S ms" "valid_ref K (Suc i, Suc j)" "Suc i < K" "(Suc i, Suc j) \<notin> S"
    and "\<forall>p m. match_at ms0 p = Some m \<longrightarrow> present (bm_winner m) \<longrightarrow> bm_status m = Bye"
  shows "bye_inv K ms0 (insert (Suc i, Suc j) S) (bye_step (i, j) ms)"
proof -
  let ?p = "(Suc i, Suc j)"
  have linked: "linked K ms" and fed: "fed_by (decided ms0 \<inter> S) ms"
    and same: "map_option bare (match_at ms q) = map_option bare (match_at ms0 q)"
    and first: "match_at ms (1, k) = match_at ms0 (1, k)" for q k
    using assms(1) unfolding bye_inv_def by blast+
  obtain m where m: "match_at ms ?p = Some m"
    using linked assms(2) match_at_valid unfolding linked_def by fastforce
  then obtain m0 where m0: "match_at ms0 ?p = Some m0" "bare m = bare m0"
    using same [of ?p] by (cases "match_at ms0 ?p") auto
  then have win: "bm_winner m = bm_winner m0" "bm_status m = bm_status m0"
    by (metis bare_fields(5), metis bare_fields(6))
  show ?thesis
  proof (cases "present (bm_winner m)")
    case True
    then have dec: "?p \<in> decided ms0" "bm_status m = Bye"
      using m0(1) win assms(5) unfolding decided_def by auto
    define w where "w = the (bm_winner m)"
    have "w \<noteq> []"
      using True by (auto simp: present_def w_def split: option.splits)
    moreover have "?p \<notin> decided ms0 \<inter> S"
      using assms(4) by simp
    ultimately have feed: "linked K (feed ?p w ms)" "fed_by (insert ?p (decided ms0 \<inter> S)) (feed ?p w ms)"
      "map_option bare (match_at (feed ?p w ms) q) = map_option bare (match_at ms q)"
      "match_at (feed ?p w ms) (1, k) = match_at ms (1, k)" for q k
      using feed_facts [OF linked fed assms(2)] assms(3) by (auto simp: after_def)
    have "bye_step (i, j) ms = feed ?p w ms"
      using bye_step_eq [OF linked m assms(3)] True dec(2) by (simp add: w_def)
    moreover have "insert ?p (decided ms0 \<inter> S) = decided ms0 \<inter> insert ?p S"
      using dec(1) by blast
    ultimately show ?thesis
      using feed same first by (simp add: bye_inv_def)
  next
    case False
    then have "?p \<notin> decided ms0"
      using m0(1) win by (simp add: decided_def)
    then have "decided ms0 \<inter> insert ?p S = decided ms0 \<inter> S"
      by blast
    moreover have "bye_step (i, j) ms = ms"
      using bye_step_eq [OF linked m assms(3)] False by simp
    ultimately show ?thesis
      using assms(1) by (simp add: bye_inv_def)
  qed
qed

lemma bye_inv_fold:
  assumes "\<forall>p m. match_at ms0 p = Some m \<longrightarrow> present (bm_winner m) \<longrightarrow> bm_status m = Bye"
  shows "bye_inv K ms0 S ms \<Longrightarrow> distinct L \<Longrightarrow>
    \<forall>(i, j) \<in> set L. valid_ref K (Suc i, Suc j) \<and> Suc i < K \<and> (Suc i, Suc j) \<notin> S \<Longrightarrow>
    bye_inv K ms0 (S \<union> (\<lambda>(i, j). (Suc i, Suc j)) ` set L) (fold bye_step L ms)"
proof (induction L arbitrary: S ms)
  case (Cons p L)
  obtain i j where p: "p = (i, j)"
    by (cases p)
  have "bye_inv K ms0 (insert (Suc i, Suc j) S) (bye_step (i, j) ms)"
    using Cons.prems assms by (intro bye_inv_step) (auto simp: p)
  then have "bye_inv K ms0 (insert (Suc i, Suc j) S \<union> (\<lambda>(i, j). (Suc i, Suc j)) ` set L) (fold bye_step L (bye_step (i, j) ms))"
    using Cons.prems(2,3) by (intro Cons.IH) (auto simp: p)
  then show ?case
    by (simp add: p)
qed simp

lemma distinct_pairs: "distinct xs \<Longrightarrow> distinct (concat (map (\<lambda>i. map (Pair i) [0..<f i]) xs))"
  by (induction xs) (auto simp: distinct_map inj_on_def)

lemma processByes_inv:
  assumes "linked K ms0" "fed_by {} ms0"
    and "\<forall>p m. match_at ms0 p = Some m \<longrightarrow> present (bm_winner m) \<longrightarrow> bm_status m = Bye"
  shows "bye_inv K ms0 {p. valid_ref K p \<and> fst p < K} (processByeAdvancements ms0)"
proof -
  have shape: "shaped K ms0"
    using assms(1) by (simp add: linked_def)
  define L where "L = concat (map (\<lambda>i. map (Pair i) [0..<length (ms0 ! i)]) [0..<length ms0 - 1])"
  have mem: "(i, j) \<in> set L \<longleftrightarrow> i < K - 1 \<and> j < 2 ^ (K - Suc i)" for i j
  proof -
    have "(i, j) \<in> set L \<longleftrightarrow> i < K - 1 \<and> j < length (ms0 ! i)"
      using shaped_length [OF shape] by (force simp: L_def)
    moreover have "length (ms0 ! i) = 2 ^ (K - Suc i)" if "i < K - 1"
      using shaped_row [OF shape, of "Suc i"] that by simp
    ultimately show ?thesis
      by auto
  qed
  have "distinct L"
    unfolding L_def by (rule distinct_pairs) simp
  moreover have "\<forall>(i, j) \<in> set L. valid_ref K (Suc i, Suc j) \<and> Suc i < K \<and> (Suc i, Suc j) \<notin> {}"
    by (auto simp: mem valid_ref_def)
  moreover have "bye_inv K ms0 {} ms0"
    using assms(1,2) by (simp add: bye_inv_def)
  ultimately have "bye_inv K ms0 ({} \<union> (\<lambda>(i, j). (Suc i, Suc j)) ` set L) (fold bye_step L ms0)"
    using assms(3) by (intro bye_inv_fold)
  moreover have "(\<lambda>(i, j). (Suc i, Suc j)) ` set L = {p. valid_ref K p \<and> fst p < K}"
  proof (intro set_eqI iffI)
    fix p
    assume "p \<in> {p. valid_ref K p \<and> fst p < K}"
    then have "(fst p - 1, snd p - 1) \<in> set L" "p = (Suc (fst p - 1), Suc (snd p - 1))"
      by (cases p; auto simp: mem valid_ref_def)+
    then show "p \<in> (\<lambda>(i, j). (Suc i, Suc j)) ` set L"
      by (metis (mono_tags, lifting) case_prod_conv image_eqI)
  qed (auto simp: mem valid_ref_def)
  ultimately show ?thesis
    by (simp add: processByeAdvancements_def L_def)
qed

text \<open>How many rounds a bracket has, and what is known of it when the tournament starts.\<close>

definition bracket_rounds :: "ustring list \<Rightarrow> nat" where
  "bracket_rounds participants = log2_of (nextPowerOf2 (length participants))"

lemma bracket_rounds_facts:
  assumes "2 \<le> length participants"
  shows "nextPowerOf2 (length participants) = 2 ^ bracket_rounds participants" "1 \<le> bracket_rounds participants"
    and "length participants \<le> 2 ^ bracket_rounds participants" "2 ^ bracket_rounds participants < 2 * length participants"
proof -
  obtain k where k: "nextPowerOf2 (length participants) = 2 ^ k" "length participants \<le> 2 ^ k"
    "k = 0 \<or> 2 ^ k < 2 * length participants"
    using nextPowerOf2_power by blast
  then have "bracket_rounds participants = k" "1 \<le> k"
    using assms by (auto simp: bracket_rounds_def not_less_eq_eq [symmetric] intro: ccontr)
  then show "nextPowerOf2 (length participants) = 2 ^ bracket_rounds participants" "1 \<le> bracket_rounds participants"
    and "length participants \<le> 2 ^ bracket_rounds participants" "2 ^ bracket_rounds participants < 2 * length participants"
    using k by auto
qed

text \<open>A match of the first round is a bye from where the participants end, and has a winner if it has one of them.\<close>

definition first_ok :: "ustring list \<Rightarrow> rounds \<Rightarrow> bool" where
  "first_ok participants ms \<longleftrightarrow> (\<forall>j m. match_at ms (1, j) = Some m \<longrightarrow>
     (bm_status m = Bye \<longleftrightarrow> length participants < 2 * j) \<and>
     (bm_status m = Bye \<longrightarrow> (present (bm_winner m) \<longleftrightarrow> 2 * j - 1 \<le> length participants)))"

lemma generated_bracket:
  assumes "2 \<le> length participants" "\<forall>p \<in> set participants. p \<noteq> []"
  defines "K \<equiv> bracket_rounds participants"
  shows "\<exists>ms. generateSingleEliminationBracket bestOf finalsBestOf participants = (K, ms) \<and>
    bracket_inv K ms \<and> first_ok participants ms \<and>
    (\<forall>p m. match_at ms p = Some m \<longrightarrow> bm_status m = Pending \<or> bm_status m = Bye)"
proof -
  define b where "b = (case bestOf of None \<Rightarrow> 1 | Some b \<Rightarrow> b)"
  define f where "f = (case finalsBestOf of None \<Rightarrow> b | Some b \<Rightarrow> b)"
  let ?seeded = "fillWithByes participants (2 ^ K)"
  let ?ms0 = "blank_rounds b f K ?seeded"
  have K: "nextPowerOf2 (length participants) = 2 ^ K" "1 \<le> K" "length participants \<le> 2 ^ K"
    using bracket_rounds_facts [OF assms(1)] by (simp_all add: K_def)
  have gen: "generateSingleEliminationBracket bestOf finalsBestOf participants = (K, processByeAdvancements ?ms0)"
    unfolding generateSingleEliminationBracket_def Let_def K(1) log2_of_power
    by (simp only: b_def f_def blank_rounds_def)
  have one: "m = first_round ?seeded j (open_match (match_name ''R'' 1 j) 1 j (if 1 = K then f else b)
      (if 1 < K then Some (match_name ''R'' 2 ((j + 1) div 2)) else None) None)" "1 \<le> j" "2 * j \<le> 2 ^ K"
    if "match_at ?ms0 (1, j) = Some m" for j m
  proof -
    show "m = first_round ?seeded j (open_match (match_name ''R'' 1 j) 1 j (if 1 = K then f else b)
      (if 1 < K then Some (match_name ''R'' 2 ((j + 1) div 2)) else None) None)" "1 \<le> j"
      using blank_at [OF that] by (simp_all add: single_match_def Let_def numeral_2_eq_2 valid_ref_def)
    have "(2 :: nat) ^ K = 2 * 2 ^ (K - 1)"
      using K(2) by (cases K) auto
    then show "2 * j \<le> 2 ^ K"
      using blank_at(2) [OF that] by (simp add: valid_ref_def)
  qed
  note places = first_round_places [OF K(3) assms(2)]
  have later: "bm_status m = Pending \<and> bm_winner m = None" if "match_at ?ms0 p = Some m" "fst p \<noteq> 1" for p m
    using blank_at(1) [OF that(1)] that(2) by (simp add: single_match_def open_match_def Let_def)
  have winners: "\<forall>p m. match_at ?ms0 p = Some m \<longrightarrow> present (bm_winner m) \<longrightarrow> bm_status m = Bye"
  proof (intro allI impI)
    fix p m
    assume m: "match_at ?ms0 p = Some m" "present (bm_winner m)"
    have "bm_winner m \<noteq> None"
      using m(2) by (simp add: present_def split: option.splits)
    then have "fst p = 1"
      using later [OF m(1)] by metis
    then obtain j where "p = (1, j)"
      by (cases p) auto
    then show "bm_status m = Bye"
      using places [OF one(2,3,1)] m by (metis present_None)
  qed
  define ms where "ms = processByeAdvancements ?ms0"
  have inv: "bye_inv K ?ms0 {p. valid_ref K p \<and> fst p < K} ms"
    unfolding ms_def by (rule processByes_inv [OF blank_linked blank_fed winners])
  have same: "map_option bare (match_at ms p) = map_option bare (match_at ?ms0 p)" for p
    using inv unfolding bye_inv_def by blast
  have old: "\<exists>m0. match_at ?ms0 p = Some m0 \<and> bm_winner m = bm_winner m0 \<and> bm_status m = bm_status m0"
    if "match_at ms p = Some m" for p m
  proof -
    from that same [of p] obtain m0 where "match_at ?ms0 p = Some m0" "bare m = bare m0"
      by (cases "match_at ?ms0 p") auto
    then show ?thesis
      by (metis bare_fields(5) bare_fields(6))
  qed
  have first: "match_at ms (1, j) = match_at ?ms0 (1, j)" for j
    using inv unfolding bye_inv_def by blast
  have "p \<in> decided ms \<longleftrightarrow> p \<in> decided ?ms0" for p
  proof (cases "match_at ms p")
    case None
    then show ?thesis
      using same [of p] by (simp add: decided_def)
  next
    case (Some m)
    then show ?thesis
      using old [OF Some] by (auto simp: decided_def)
  qed
  then have "decided ms = decided ?ms0"
    by blast
  have "bracket_inv K ms"
    unfolding bracket_inv_def
  proof (intro conjI allI impI)
    show "linked K ms"
      using inv unfolding bye_inv_def by blast
    show "fed_by (decided ms) ms"
      unfolding fed_by_def
    proof (intro allI impI)
      fix p m
      assume p: "match_at ms p = Some m" "2 \<le> fst p"
      then have "valid_ref K p"
        using inv match_at_valid unfolding bye_inv_def linked_def by (metis option.distinct(1))
      moreover have "(2 :: nat) ^ (K - (fst p - 1)) = 2 * 2 ^ (K - fst p)" if "fst p \<le> K"
      proof -
        have "K - (fst p - 1) = Suc (K - fst p)"
          using p(2) that by simp
        then show ?thesis
          by simp
      qed
      ultimately have "(fst p - 1, 2 * snd p - 1) \<in> {p. valid_ref K p \<and> fst p < K} \<longleftrightarrow> True"
          "(fst p - 1, 2 * snd p) \<in> {p. valid_ref K p \<and> fst p < K} \<longleftrightarrow> True"
        using p(2) by (auto simp: valid_ref_def)
      then have "fed (decided ?ms0 \<inter> {p. valid_ref K p \<and> fst p < K}) p = fed (decided ms) p"
        using \<open>decided ms = decided ?ms0\<close> by (simp add: fed_def)
      then show "slots_ok m (fed (decided ms) p)"
        using inv p unfolding bye_inv_def fed_by_def by metis
    qed
    fix p m
    assume p: "match_at ms p = Some m"
    show "match_ok p m"
    proof (cases "fst p = 1")
      case True
      then obtain j where "p = (1, j)"
        by (cases p) auto
      then have "match_at ?ms0 (1, j) = Some m"
        using p first by simp
      then show ?thesis
        using places [OF one(2,3,1)] True by (cases "bm_status m") (fastforce simp: match_ok_def)+
    next
      case False
      then have "bm_status m = Pending \<and> bm_winner m = None"
        using old [OF p] later by metis
      then show ?thesis
        using False by (simp add: match_ok_def present_def)
    qed
  qed
  moreover have "first_ok participants ms"
    unfolding first_ok_def
  proof (intro allI impI)
    fix j m
    assume "match_at ms (1, j) = Some m"
    then have m: "match_at ?ms0 (1, j) = Some m"
      using first by simp
    show "(bm_status m = Bye \<longleftrightarrow> length participants < 2 * j) \<and>
        (bm_status m = Bye \<longrightarrow> (present (bm_winner m) \<longleftrightarrow> 2 * j - 1 \<le> length participants))"
      using places [OF one(2,3,1) [OF m]] by (cases "bm_status m = Pending") auto
  qed
  moreover have "bm_status m = Pending \<or> bm_status m = Bye" if "match_at ms p = Some m" for p m
  proof (cases "fst p = 1")
    case True
    then obtain j where "p = (1, j)"
      by (cases p) auto
    then have "match_at ?ms0 (1, j) = Some m"
      using that first by simp
    then show ?thesis
      using places [OF one(2,3,1)] by blast
  next
    case False
    then show ?thesis
      using old [OF that] later by metis
  qed
  ultimately show ?thesis
    using gen by (auto simp: ms_def)
qed

section \<open>Reports\<close>

lemma linked_distinct:
  assumes "linked K ms"
  shows "distinct (map bm_id (concat ms))"
proof -
  have shape: "shaped K ms"
    using assms by (simp add: linked_def)
  have row: "map bm_id (ms ! i) = map (\<lambda>j. match_name ''R'' (Suc i) (Suc j)) [0..<2 ^ (K - Suc i)]" if "i < K" for i
  proof (rule nth_equalityI)
    show "length (map bm_id (ms ! i)) = length (map (\<lambda>j. match_name ''R'' (Suc i) (Suc j)) [0..<2 ^ (K - Suc i)])"
      using shaped_row [OF shape, of "Suc i"] that by simp
    fix j
    assume "j < length (map bm_id (ms ! i))"
    then have j: "j < 2 ^ (K - Suc i)" "j < length (ms ! i)"
      using shaped_row [OF shape, of "Suc i"] that by simp_all
    then have "match_at ms (Suc i, Suc j) = Some (ms ! i ! j)"
      using that shaped_length [OF shape] by (simp add: match_at_def element_def)
    then show "map bm_id (ms ! i) ! j = map (\<lambda>j. match_name ''R'' (Suc i) (Suc j)) [0..<2 ^ (K - Suc i)] ! j"
      using linkedD [OF assms] j by (fastforce simp: link_ok_def)
  qed
  have "map (map bm_id) ms = map (\<lambda>i. map (\<lambda>j. match_name ''R'' (Suc i) (Suc j)) [0..<2 ^ (K - Suc i)]) [0..<K]"
    using shaped_length [OF shape] row by (intro nth_equalityI) simp_all
  then have "map bm_id (concat ms) = map (\<lambda>(i, j). match_name ''R'' (Suc i) (Suc j))
      (concat (map (\<lambda>i. map (Pair i) [0..<2 ^ (K - Suc i)]) [0..<K]))"
    by (simp add: map_concat comp_def)
  then show ?thesis
    using distinct_pairs [of "[0..<K]" "\<lambda>i. 2 ^ (K - Suc i)"] by (auto simp: distinct_map inj_on_def)
qed

definition name_of :: "nat \<times> nat \<Rightarrow> ustring" where
  "name_of p = match_name ''R'' (fst p) (snd p)"

lemma name_of_inject [simp]: "name_of p = name_of q \<longleftrightarrow> p = q"
  by (auto simp: name_of_def prod_eq_iff)

lemma update_at:
  assumes "linked K ms" "match_at ms p = Some m"
  shows "match_at (update_rounds (\<lambda>m. bm_id m = name_of p) f ms) q = (if q = p then Some (f m) else match_at ms q)"
proof (cases "match_at ms q")
  case (Some mq)
  then have "bm_id mq = name_of q"
    using linkedD [OF assms(1)] by (simp add: link_ok_def name_of_def)
  then show ?thesis
    using Some assms(2) by (auto simp: update_rounds_unique [OF linked_distinct [OF assms(1)]] match_at_map)
next
  case None
  then show ?thesis
    using assms(2) by (auto simp: update_rounds_unique [OF linked_distinct [OF assms(1)]] match_at_map)
qed

definition played :: "bracket_match \<Rightarrow> bool" where
  "played m \<longleftrightarrow> present (bm_participant1 m) \<and> present (bm_participant2 m) \<and> bm_status m \<noteq> Bye"

text \<open>A stored match and the match of the bracket it stands for.\<close>

definition stands_for :: "nat \<times> nat \<Rightarrow> bracket_match \<Rightarrow> tour_match \<Rightarrow> bool" where
  "stands_for p m t \<longleftrightarrow> match_key t = name_of p \<and> tm_participant1 t = bm_participant1 m \<and>
     tm_participant2 t = bm_participant2 m \<and> tm_next t = bm_next m \<and> tm_status t = bm_status m \<and>
     tm_winner t = bm_winner m"

definition stored :: "rounds \<Rightarrow> tour_match list \<Rightarrow> bool" where
  "stored ms ts \<longleftrightarrow> distinct (map match_key ts) \<and>
     (\<forall>t \<in> set ts. \<exists>p m. match_at ms p = Some m \<and> played m \<and> stands_for p m t) \<and>
     (\<forall>p m. match_at ms p = Some m \<longrightarrow> played m \<longrightarrow> name_of p \<in> match_key ` set ts)"

definition single_inv :: "nat \<Rightarrow> single_run \<Rightarrow> bool" where
  "single_inv K st \<longleftrightarrow> se_third (fst st) = None \<and> bracket_inv K (se_matches (fst st)) \<and> stored (se_matches (fst st)) (snd st)"

lemma report_result_simps [simp]:
  "match_key (report_result s1 s2 t) = match_key t" "tm_next (report_result s1 s2 t) = tm_next t"
  "tm_participant1 (report_result s1 s2 t) = tm_participant1 t" "tm_participant2 (report_result s1 s2 t) = tm_participant2 t"
  "tm_status (report_result s1 s2 t) = Completed"
  by (auto simp: report_result_def match_key_def split: prod.splits)

lemma report_winner: "tm_winner (report_result s1 s2 t) = None \<or> tm_winner (report_result s1 s2 t) = tm_participant1 t \<or>
    tm_winner (report_result s1 s2 t) = tm_participant2 t"
  by (auto simp: report_result_def decide_def Let_def split: prod.splits)

lemma announced_stands_for:
  assumes "played m" "link_ok K p m" "bm_status m = Pending" "bm_winner m = None"
  shows "stands_for p m (create_match tournamentId (announce bestOf phase m))"
  using assms by (auto simp: stands_for_def create_match_def announce_def createMatchTemplate_def match_key_def
    determineInitialStatus_def or_else_def played_def present_def link_ok_def name_of_def split: option.splits)

text \<open>One report: the match \<open>p\<close> is completed with the winner \<open>w\<close>, and other results stay.\<close>

definition result_of :: "rounds \<Rightarrow> nat \<times> nat \<Rightarrow> (match_status \<times> ustring option) option" where
  "result_of ms q = map_option (\<lambda>m. (bm_status m, bm_winner m)) (match_at ms q)"

lemma result_of_bare: "map_option bare (match_at ms q) = map_option bare (match_at ms' q) \<Longrightarrow> result_of ms q = result_of ms' q"
  by (cases "match_at ms q"; cases "match_at ms' q")
     (auto simp: result_of_def bare_fields dest: arg_cong [where f = bm_status] arg_cong [where f = bm_winner])

lemma bracket_invD:
  assumes "bracket_inv K ms"
  shows "linked K ms" "fed_by (decided ms) ms" "match_at ms p = Some m \<Longrightarrow> match_ok p m"
    "match_at ms p = Some m \<Longrightarrow> valid_ref K p" "match_at ms p = Some m \<Longrightarrow> link_ok K p m"
proof -
  show linked: "linked K ms" and "fed_by (decided ms) ms" and "match_at ms p = Some m \<Longrightarrow> match_ok p m"
    using assms unfolding bracket_inv_def by blast+
  show "match_at ms p = Some m \<Longrightarrow> valid_ref K p"
    using linked match_at_valid unfolding linked_def by (metis option.distinct(1))
  show "match_at ms p = Some m \<Longrightarrow> link_ok K p m"
    by (rule linkedD [OF linked])
qed

text \<open>The bracket after the result has been written, before the winner moves on.\<close>

lemma recorded_bracket:
  assumes inv: "bracket_inv K ms" and m: "match_at ms p = Some m" "played m" "bm_status m = Pending"
    and r: "tm_winner r = None \<or> tm_winner r = bm_participant1 m \<or> tm_winner r = bm_participant2 m"
  defines "ms1 \<equiv> update_rounds (\<lambda>m. bm_id m = name_of p) (record_result r) ms"
  shows "match_at ms1 q = (if q = p then Some (record_result r m) else match_at ms q)"
    and "linked K ms1" "fed_by (decided ms) ms1" "p \<notin> decided ms"
    and "decided ms1 = (if present (tm_winner r) then insert p (decided ms) else decided ms)"
    and "match_at ms1 q = Some mq \<Longrightarrow> match_ok q mq"
proof -
  note I = bracket_invD [OF inv]
  show at: "match_at ms1 q = (if q = p then Some (record_result r m) else match_at ms q)" for q
    unfolding ms1_def by (rule update_at [OF I(1) m(1)])
  have "shaped K ms1"
    using I(1) by (simp add: ms1_def update_rounds_unique [OF linked_distinct [OF I(1)]] linked_def)
  moreover have "link_ok K q mq" if "match_at ms1 q = Some mq" for q mq
    using that I(5) [OF m(1)] I(5) [of q mq] by (auto simp: at link_ok_def record_result_def split: if_splits)
  ultimately show "linked K ms1"
    unfolding linked_def by blast
  have slots: "slots_ok mq (fed (decided ms) q)" if "match_at ms q = Some mq" "2 \<le> fst q" for q mq
    using I(2) that unfolding fed_by_def by blast
  have "slots_ok mq (fed (decided ms) q)" if "match_at ms1 q = Some mq" "2 \<le> fst q" for q mq
    using that slots [OF m(1)] slots [of q mq] by (auto simp: at slots_ok_def record_result_def split: if_splits)
  then show "fed_by (decided ms) ms1"
    unfolding fed_by_def by blast
  show "p \<notin> decided ms"
    using I(3) [OF m(1)] m(1,3) by (simp add: decided_def match_ok_def)
  have "q \<in> decided ms1 \<longleftrightarrow> q \<in> (if present (tm_winner r) then insert p (decided ms) else decided ms)" for q
    using \<open>p \<notin> decided ms\<close> by (cases "q = p") (auto simp: decided_def at record_result_def)
  then show "decided ms1 = (if present (tm_winner r) then insert p (decided ms) else decided ms)"
    by blast
  show "match_at ms1 q = Some mq \<Longrightarrow> match_ok q mq"
    using I(3) [of q mq] m(2) by (auto simp: at match_ok_def record_result_def played_def split: if_splits)
qed

lemma fed_by_final: "shaped K ms \<Longrightarrow> fst p = K \<Longrightarrow> fed_by D ms \<Longrightarrow> fed_by (insert p D) ms"
  unfolding fed_by_def
proof (intro allI impI)
  fix q m
  assume *: "shaped K ms" "fst p = K" "\<forall>p m. match_at ms p = Some m \<longrightarrow> 2 \<le> fst p \<longrightarrow> slots_ok m (fed D p)"
    "match_at ms q = Some m" "2 \<le> fst q"
  then have "fst q \<le> K"
    using match_at_valid by (metis option.distinct(1) valid_ref_def)
  then have "fed (insert p D) q = fed D q"
    using *(2,5) by (auto simp: fed_def)
  then show "slots_ok m (fed (insert p D) q)"
    using *(3,4,5) by metis
qed

text \<open>The winner moves on; a match that has both participants now is new.\<close>

lemma advance_final:
  assumes "linked K ms" "match_at ms p = Some m" "tm_next r = bm_next m" "\<not> (present (tm_winner r) \<and> fst p < K)"
  shows "advance_winner bestOf r ms = (ms, [])"
  using linkedD [OF assms(1,2)] assms(3,4) by (auto simp: advance_winner_def link_ok_def present_def)

lemma advance_feeds:
  assumes "linked K ms" "match_at ms p = Some m" "tm_next r = bm_next m" "tm_winner r = Some w" "w \<noteq> []" "fst p < K"
  obtains nx ph where "match_at ms (after p) = Some nx" "valid_ref K (after p)"
    "advance_winner bestOf r ms = (feed p w ms,
       if present (bm_participant1 (fill_place w nx)) \<and> present (bm_participant2 (fill_place w nx)) \<and> bm_status nx = Pending
       then [announce bestOf ph (fill_place w nx)] else [])"
proof -
  have "bm_next m = Some (match_name ''R'' (fst (after p)) (snd (after p)))"
    using linkedD [OF assms(1,2)] assms(6) by (simp add: link_ok_def)
  moreover have valid: "valid_ref K (after p)"
    using assms(1,2,6) match_at_valid valid_after unfolding linked_def by (metis option.distinct(1))
  then obtain nx where nx: "match_at ms (after p) = Some nx"
    using assms(1) match_at_valid unfolding linked_def by fastforce
  moreover have "bm_status (fill_place w nx) = bm_status nx"
    by (simp add: fill_place_def)
  ultimately show ?thesis
    using that [OF nx valid, of "if fst (after p) = length ms then ju ''finals'' else ju ''bracket''"] assms(3-5)
    by (simp add: advance_winner_def Let_def present_def feed_def)
qed

lemma single_report_step:
  assumes inv: "bracket_inv K ms" and m: "match_at ms p = Some m" "played m" "bm_status m = Pending"
    and r: "tm_winner r = None \<or> tm_winner r = bm_participant1 m \<or> tm_winner r = bm_participant2 m"
    and link: "tm_next r = bm_next m"
  shows "\<exists>ms' new. advance_winner bestOf r (update_rounds (\<lambda>m. bm_id m = name_of p) (record_result r) ms) = (ms', new) \<and>
    bracket_inv K ms' \<and>
    (\<forall>q. result_of ms' q = (if q = p then Some (Completed, tm_winner r) else result_of ms q)) \<and>
    match_at ms' p = Some (record_result r m) \<and>
    (\<forall>q. q \<noteq> p \<longrightarrow> q \<noteq> after p \<longrightarrow> match_at ms' q = match_at ms q) \<and>
    (\<forall>nx. match_at ms (after p) = Some nx \<longrightarrow> \<not> played nx \<or> match_at ms' (after p) = Some nx) \<and>
    (\<exists>ph. new = (case match_at ms' (after p) of None \<Rightarrow> [] | Some nx \<Rightarrow>
       if played nx \<and> match_at ms (after p) \<noteq> Some nx then [announce bestOf ph nx] else []))"
proof -
  define ms1 where "ms1 = update_rounds (\<lambda>m. bm_id m = name_of p) (record_result r) ms"
  note R = recorded_bracket [OF inv m r, folded ms1_def]
  note I = bracket_invD [OF inv]
  have p: "valid_ref K p"
    by (rule I(4) [OF m(1)])
  have ne: "after p \<noteq> p"
    by (cases p) (simp add: after_def)
  have m1: "match_at ms1 p = Some (record_result r m)" and nx1: "match_at ms1 (after p) = match_at ms (after p)"
    using R(1) ne by simp_all
  have next1: "tm_next r = bm_next (record_result r m)"
    using link by (simp add: record_result_def)
  have res1: "result_of ms1 q = (if q = p then Some (Completed, tm_winner r) else result_of ms q)" for q
    by (simp add: result_of_def R(1) record_result_def)
  show ?thesis
  proof (cases "present (tm_winner r) \<and> fst p < K")
    case False
    then have adv: "advance_winner bestOf r ms1 = (ms1, [])"
      using advance_final [OF R(2) m1 next1] by blast
    have "bracket_inv K ms1"
    proof -
      have "fed_by (decided ms1) ms1"
      proof (cases "present (tm_winner r)")
        case True
        then have "fst p = K"
          using False p by (simp add: valid_ref_def)
        then show ?thesis
          using fed_by_final [of K ms1 p] R(2,3,5) True by (simp add: linked_def)
      qed (use R(3,5) in simp)
      then show ?thesis
        unfolding bracket_inv_def using R(2,6) by blast
    qed
    then show ?thesis
      using adv m1 res1 R(1) nx1 by (intro exI [of _ ms1] exI [of _ "[]"]) (auto simp: ms1_def [symmetric] split: option.splits)
  next
    case True
    then obtain w where w: "tm_winner r = Some w" "w \<noteq> []"
      by (auto simp: present_def split: option.splits)
    obtain nx ph where nx: "match_at ms1 (after p) = Some nx" "valid_ref K (after p)"
      and adv: "advance_winner bestOf r ms1 = (feed p w ms1,
        if present (bm_participant1 (fill_place w nx)) \<and> present (bm_participant2 (fill_place w nx)) \<and> bm_status nx = Pending
        then [announce bestOf ph (fill_place w nx)] else [])"
      using advance_feeds [OF R(2) m1 next1 w] True by metis
    have F: "linked K (feed p w ms1)" "fed_by (insert p (decided ms)) (feed p w ms1)"
      "map_option bare (match_at (feed p w ms1) q) = map_option bare (match_at ms1 q)"
      "q \<noteq> after p \<Longrightarrow> match_at (feed p w ms1) q = match_at ms1 q"
      "match_at (feed p w ms1) (after p) = Some (fill_place w nx)" for q
      using feed_facts [OF R(2,3) p _ R(4) w(2)] True nx(1) by simp_all
    have res: "result_of (feed p w ms1) q = result_of ms1 q" for q
      by (rule result_of_bare [OF F(3)])
    have dec: "q \<in> decided ms' \<longleftrightarrow> (\<exists>s v. result_of ms' q = Some (s, v) \<and> present v)" for q ms'
      by (auto simp: decided_def result_of_def)
    have "decided (feed p w ms1) = decided ms1"
      using dec res by auto
    then have "fed_by (decided (feed p w ms1)) (feed p w ms1)"
      using F(2) R(5) True by simp
    moreover have p2: "\<not> present (bm_participant2 nx)"
    proof -
      have "2 \<le> fst (after p)" "fed (decided ms) (after p) < 2"
        using p fed_less [OF R(4)] by (simp_all add: after_def valid_ref_def)
      then show ?thesis
        using R(3) nx(1) unfolding fed_by_def slots_ok_def by (metis not_le)
    qed
    have nx_status: "bm_status nx = Pending"
      using R(6) [OF nx(1)] p2 p by (auto simp: match_ok_def after_def valid_ref_def)
    have "match_ok q mq" if "match_at (feed p w ms1) q = Some mq" for q mq
    proof (cases "q = after p")
      case q: True
      then show ?thesis
        using that F(5) nx_status R(6) [OF nx(1)] p
        by (auto simp: match_ok_def after_def valid_ref_def fill_place_def)
    qed (use that F(4) R(6) in metis)
    ultimately have inv': "bracket_inv K (feed p w ms1)"
      unfolding bracket_inv_def using F(1) by blast
    have "\<not> played nx"
      using p2 by (simp add: played_def)
    moreover have "played (fill_place w nx) \<longleftrightarrow> present (bm_participant1 (fill_place w nx)) \<and>
        present (bm_participant2 (fill_place w nx)) \<and> bm_status nx = Pending"
      using nx_status by (auto simp: played_def fill_place_def)
    ultimately have new: "advance_winner bestOf r ms1 = (feed p w ms1, case match_at (feed p w ms1) (after p) of None \<Rightarrow> []
        | Some nx' \<Rightarrow> if played nx' \<and> match_at ms (after p) \<noteq> Some nx' then [announce bestOf ph nx'] else [])"
      using adv nx(1) nx1 F(5) by (cases "played (fill_place w nx)") auto
    have "result_of (feed p w ms1) q = (if q = p then Some (Completed, tm_winner r) else result_of ms q)" for q
      by (simp only: res res1)
    moreover have "match_at (feed p w ms1) p = Some (record_result r m)"
      using F(4) [of p] ne m1 by simp
    moreover have "match_at (feed p w ms1) q = match_at ms q" if "q \<noteq> p" "q \<noteq> after p" for q
      using F(4) [OF that(2)] R(1) [of q] that(1) by simp
    moreover have "\<not> played nx'" if "match_at ms (after p) = Some nx'" for nx'
      using \<open>\<not> played nx\<close> nx(1) nx1 that by simp
    ultimately show ?thesis
      unfolding ms1_def [symmetric] using new inv' by blast
  qed
qed

lemma stands_for_unique: "stands_for p m t \<Longrightarrow> stands_for q m' t \<Longrightarrow> p = q"
  by (simp add: stands_for_def)

lemma stored_step:
  assumes st: "stored ms ts" and i: "i < length ts" "match_at ms p = Some m" "stands_for p m (ts ! i)"
    and m': "match_at ms' p = Some (record_result r m)" "played (record_result r m)"
    and r: "match_key r = match_key (ts ! i)" "tm_participant1 r = tm_participant1 (ts ! i)"
      "tm_participant2 r = tm_participant2 (ts ! i)" "tm_next r = tm_next (ts ! i)" "tm_status r = Completed"
    and other: "\<forall>q. q \<noteq> p \<longrightarrow> q \<noteq> after p \<longrightarrow> match_at ms' q = match_at ms q"
    and kept: "\<forall>nx. match_at ms (after p) = Some nx \<longrightarrow> \<not> played nx \<or> match_at ms' (after p) = Some nx"
    and new: "new = (case match_at ms' (after p) of None \<Rightarrow> []
      | Some nx \<Rightarrow> if played nx \<and> match_at ms (after p) \<noteq> Some nx then [create_match tid (announce bestOf ph nx)] else [])"
    and fresh: "\<And>nx. match_at ms' (after p) = Some nx \<Longrightarrow> match_at ms (after p) \<noteq> Some nx \<Longrightarrow> played nx \<Longrightarrow>
      stands_for (after p) nx (create_match tid (announce bestOf ph nx))"
  shows "stored ms' (ts[i := r] @ new)"
proof -
  have ne: "after p \<noteq> p"
    by (cases p) (simp add: after_def)
  have keys: "map match_key (ts[i := r]) = map match_key ts"
    using i(1) r(1) by (simp add: map_update list_update_same_conv)
  have old: "\<exists>q mq. match_at ms q = Some mq \<and> played mq \<and> stands_for q mq t" if "t \<in> set ts" for t
    using st that unfolding stored_def by blast
  have key_i: "match_key (ts ! i) = name_of p"
    using i(3) by (simp add: stands_for_def)
  have "\<exists>q mq. match_at ms' q = Some mq \<and> played mq \<and> stands_for q mq t" if t: "t \<in> set (ts[i := r])" for t
  proof (cases "t = r")
    case True
    have "stands_for p (record_result r m) r"
      using i(3) r by (simp add: stands_for_def record_result_def)
    then show ?thesis
      using m' True by blast
  next
    case False
    then obtain k where k: "k < length ts" "k \<noteq> i" "t = ts ! k"
      using t by (metis in_set_conv_nth length_list_update nth_list_update_eq nth_list_update_neq)
    then obtain q mq where q: "match_at ms q = Some mq" "played mq" "stands_for q mq t"
      using old [of t] by auto
    have "match_key t \<noteq> match_key (ts ! i)"
      using st k i(1) unfolding stored_def by (metis length_map nth_eq_iff_index_eq nth_map)
    then have "q \<noteq> p"
      using q(3) key_i by (auto simp: stands_for_def)
    then have "match_at ms' q = Some mq"
      using other kept q(1,2) by (cases "q = after p") metis+
    then show ?thesis
      using q by blast
  qed
  moreover have "\<exists>q mq. match_at ms' q = Some mq \<and> played mq \<and> stands_for q mq t" if t: "t \<in> set new" for t
  proof -
    obtain nx where "match_at ms' (after p) = Some nx" "match_at ms (after p) \<noteq> Some nx" "played nx"
        "t = create_match tid (announce bestOf ph nx)"
      using t new by (auto split: option.splits if_splits)
    then show ?thesis
      using fresh by blast
  qed
  moreover have "name_of q \<in> match_key ` set (ts[i := r] @ new)" if q: "match_at ms' q = Some mq" "played mq" for q mq
  proof (cases "q = after p \<and> match_at ms q \<noteq> Some mq")
    case True
    then have "new = [create_match tid (announce bestOf ph mq)]"
      using new q by auto
    then show ?thesis
      using fresh [of mq] True q by (auto simp: stands_for_def)
  next
    case False
    have "name_of q \<in> match_key ` set ts"
    proof (cases "q = p")
      case True
      then show ?thesis
        using key_i i(1) by (metis image_eqI nth_mem)
    next
      case qp: False
      then have "match_at ms q = Some mq"
        using False other q(1) by metis
      then show ?thesis
        using st q(2) unfolding stored_def by blast
    qed
    then have "name_of q \<in> set (map match_key (ts[i := r]))"
      unfolding keys by simp
    then show ?thesis
      by auto
  qed
  moreover have "distinct (map match_key (ts[i := r] @ new))"
  proof -
    have fresh_key: "match_key t \<notin> match_key ` set ts" if t: "t \<in> set new" for t
    proof
      assume "match_key t \<in> match_key ` set ts"
      moreover obtain nx where nx: "match_at ms' (after p) = Some nx" "match_at ms (after p) \<noteq> Some nx" "played nx"
          "t = create_match tid (announce bestOf ph nx)"
        using t new by (auto split: option.splits if_splits)
      ultimately obtain t' where "t' \<in> set ts" "match_key t' = name_of (after p)"
        using fresh [OF nx(1-3)] by (auto simp: stands_for_def)
      then obtain mq where "match_at ms (after p) = Some mq" "played mq"
        using old [of t'] by (auto simp: stands_for_def)
      then show False
        using kept nx(1,2) by auto
    qed
    moreover have "length new \<le> 1"
      using new by (auto split: option.splits)
    then have "distinct (map match_key new)"
      by (cases new) auto
    moreover have "map match_key (ts[i := r] @ new) = map match_key ts @ map match_key new"
      by (simp only: map_append keys)
    moreover have "distinct (map match_key ts)"
      using st unfolding stored_def by blast
    moreover have "set (map match_key ts) \<inter> set (map match_key new) = {}"
    proof (rule ccontr)
      assume "set (map match_key ts) \<inter> set (map match_key new) \<noteq> {}"
      then obtain a b where "a \<in> set ts" "b \<in> set new" "match_key a = match_key b"
        by auto
      then show False
        using fresh_key [of b] by (metis image_eqI)
    qed
    ultimately show ?thesis
      by (metis distinct_append)
  qed
  ultimately show ?thesis
    unfolding stored_def by (metis Un_iff set_append)
qed

lemma single_inv_report:
  assumes "single_inv K (b, ts)"
  shows "\<exists>b' ts'. se_report tid (i, s1, s2) (b, ts) = (b', ts') \<and> single_inv K (b', ts') \<and>
    (\<forall>q v. result_of (se_matches b') q = Some (Bye, v) \<longleftrightarrow> result_of (se_matches b) q = Some (Bye, v))"
proof (cases "i < length ts \<and> open_status (tm_status (ts ! i))")
  case False
  then show ?thesis
    using assms by (auto simp: se_report_def)
next
  case True
  let ?ms = "se_matches b" and ?t = "ts ! i"
  define r where "r = report_result s1 s2 ?t"
  have third: "se_third b = None" and inv: "bracket_inv K ?ms" and st: "stored ?ms ts"
    using assms by (simp_all add: single_inv_def)
  note I = bracket_invD [OF inv]
  have "?t \<in> set ts"
    using True by simp
  then obtain p m where p: "match_at ?ms p = Some m" "played m" "stands_for p m ?t"
    using st unfolding stored_def by blast
  have pending: "bm_status m = Pending"
    using I(3) [OF p(1)] p(3) True by (auto simp: match_ok_def stands_for_def open_status_def)
  have r: "match_key r = name_of p" "tm_next r = bm_next m" "tm_participant1 r = tm_participant1 ?t"
      "tm_participant2 r = tm_participant2 ?t" "tm_status r = Completed" "tm_next r = tm_next ?t" "match_key r = match_key ?t"
    using p(3) by (simp_all add: r_def stands_for_def)
  have "tm_winner r = None \<or> tm_winner r = bm_participant1 m \<or> tm_winner r = bm_participant2 m"
    using report_winner [of s1 s2 ?t] p(3) by (simp add: r_def stands_for_def)
  from single_report_step [OF inv p(1,2) pending this r(2), of "se_bestOf b"]
  obtain ms' new ph where step: "advance_winner (se_bestOf b) r (update_rounds (\<lambda>m. bm_id m = name_of p) (record_result r) ?ms) = (ms', new)"
      "bracket_inv K ms'" "\<forall>q. result_of ms' q = (if q = p then Some (Completed, tm_winner r) else result_of ?ms q)"
      "match_at ms' p = Some (record_result r m)" "\<forall>q. q \<noteq> p \<longrightarrow> q \<noteq> after p \<longrightarrow> match_at ms' q = match_at ?ms q"
      "\<forall>nx. match_at ?ms (after p) = Some nx \<longrightarrow> \<not> played nx \<or> match_at ms' (after p) = Some nx"
      "new = (case match_at ms' (after p) of None \<Rightarrow> [] | Some nx \<Rightarrow>
         if played nx \<and> match_at ?ms (after p) \<noteq> Some nx then [announce (se_bestOf b) ph nx] else [])"
    by blast
  have rep: "se_report tid (i, s1, s2) (b, ts) = (b\<lparr>se_matches := ms'\<rparr>, ts[i := r] @ map (create_match tid) new)"
    using True step(1) third r(1) by (simp add: se_report_def se_onMatchComplete_def r_def Let_def split: option.splits)
  have "stored ms' (ts[i := r] @ map (create_match tid) new)"
  proof (rule stored_step [OF st _ p(1,3) step(4) _ r(7,3,4,6,5) step(5,6)])
    show "i < length ts"
      using True by simp
    show "played (record_result r m)"
      using p(2) by (simp add: played_def record_result_def)
    show "map (create_match tid) new = (case match_at ms' (after p) of None \<Rightarrow> [] | Some nx \<Rightarrow>
        if played nx \<and> match_at ?ms (after p) \<noteq> Some nx then [create_match tid (announce (se_bestOf b) ph nx)] else [])"
      using step(7) by (simp split: option.splits)
    fix nx
    assume nx: "match_at ms' (after p) = Some nx" "match_at ?ms (after p) \<noteq> Some nx" "played nx"
    have "after p \<noteq> p"
      by (cases p) (simp add: after_def)
    then have "result_of ?ms (after p) = Some (bm_status nx, bm_winner nx)"
      using step(3) [rule_format, of "after p"] nx(1) by (simp add: result_of_def)
    then obtain mx where mx: "match_at ?ms (after p) = Some mx" "bm_status mx = bm_status nx" "bm_winner mx = bm_winner nx"
      by (auto simp: result_of_def)
    then have "\<not> played mx"
      using step(6) nx(1,2) by auto
    then have "bm_status nx = Pending" "bm_winner nx = None"
      using I(3) [OF mx(1)] mx(2,3) nx(3) by (auto simp: match_ok_def played_def)
    then show "stands_for (after p) nx (create_match tid (announce (se_bestOf b) ph nx))"
      using announced_stands_for nx(3) bracket_invD(5) [OF step(2) nx(1)] by blast
  qed
  moreover have "result_of ms' q = Some (Bye, v) \<longleftrightarrow> result_of ?ms q = Some (Bye, v)" for q v
  proof -
    have "result_of ?ms p = Some (Pending, bm_winner m)"
      by (simp add: result_of_def p(1) pending)
    then show ?thesis
      using step(3) [rule_format, of q] by (cases "q = p") simp_all
  qed
  ultimately show ?thesis
    using rep step(2) third by (simp add: single_inv_def)
qed

lemma single_inv_run:
  "single_inv K st \<Longrightarrow> single_inv K (fold (se_report tid) reports st) \<and>
   (\<forall>q v. result_of (se_matches (fst (fold (se_report tid) reports st))) q = Some (Bye, v) \<longleftrightarrow>
     result_of (se_matches (fst st)) q = Some (Bye, v))"
proof (induction reports arbitrary: st)
  case (Cons p reports)
  obtain i s1 s2 b ts where "p = (i, s1, s2)" "st = (b, ts)"
    by (cases p, cases st) auto
  then obtain b' ts' where "se_report tid p st = (b', ts')" "single_inv K (b', ts')"
      "\<forall>q v. result_of (se_matches b') q = Some (Bye, v) \<longleftrightarrow> result_of (se_matches (fst st)) q = Some (Bye, v)"
    using single_inv_report [of K b ts tid i s1 s2] Cons.prems by auto
  then show ?case
    using Cons.IH [of "(b', ts')"] by simp
qed simp

text \<open>A tournament from its start through some reports: the match, and the two scores of each.\<close>

definition se_run :: "ustring \<Rightarrow> nat option \<Rightarrow> nat option \<Rightarrow> ustring list \<Rightarrow> (nat \<times> int \<times> int) list \<Rightarrow> single_run option" where
  "se_run tid bestOf finalsBestOf participants reports =
     map_option (fold (se_report tid) reports) (se_start tid (se_generateBracket bestOf finalsBestOf False participants))"

lemma single_start:
  assumes "2 \<le> length participants" "\<forall>p \<in> set participants. p \<noteq> []"
  shows "\<exists>st. se_start tid (se_generateBracket bestOf finalsBestOf False participants) = Some st \<and>
    single_inv (bracket_rounds participants) st \<and> first_ok participants (se_matches (fst st))"
proof -
  let ?K = "bracket_rounds participants" and ?b = "se_generateBracket bestOf finalsBestOf False participants"
  obtain ms where gen: "generateSingleEliminationBracket (Some (or_default bestOf 1))
      (Some (or_default finalsBestOf (or_default bestOf 1))) participants = (?K, ms)"
    and inv: "bracket_inv ?K ms" and first: "first_ok participants ms"
    and fresh: "\<forall>p m. match_at ms p = Some m \<longrightarrow> bm_status m = Pending \<or> bm_status m = Bye"
    using generated_bracket [OF assms] by blast
  note I = bracket_invD [OF inv]
  have shape: "shaped ?K ms"
    using I(1) by (simp add: linked_def)
  have b: "se_matches ?b = ms" "se_third ?b = None" "se_bestOf ?b = bestOf"
    unfolding se_generateBracket_def gen by simp_all
  obtain row rows where rows: "ms = row # rows"
    using shaped_length [OF shape] bracket_rounds_facts(2) [OF assms(1)] by (cases ms) auto
  let ?open = "filter (\<lambda>m. bm_status m = Pending) row"
  let ?create = "\<lambda>m. create_match tid (announce bestOf (ju ''bracket'') m)"
  have at: "m \<in> set row \<longleftrightarrow> (\<exists>j. match_at ms (1, j) = Some m)" for m
  proof
    assume "m \<in> set row"
    then obtain i where "i < length row" "row ! i = m"
      by (auto simp: in_set_conv_nth)
    then have "match_at ms (1, Suc i) = Some m"
      by (simp add: rows match_at_def element_def)
    then show "\<exists>j. match_at ms (1, j) = Some m"
      by blast
  qed (auto simp: rows match_at_def element_def split: if_splits)
  have decided: "(r, j) \<notin> decided ms" if "r \<noteq> 1" for r j
  proof
    assume "(r, j) \<in> decided ms"
    then obtain m where m: "match_at ms (r, j) = Some m" "present (bm_winner m)"
      by (auto simp: decided_def)
    have "bm_status m = Pending \<or> bm_status m = Bye"
      using fresh m(1) by blast
    then show False
      using I(3) [OF m(1)] m(2) that by (auto simp: match_ok_def)
  qed
  have one_bye: "\<not> ((1, 2 * j - 1) \<in> decided ms \<and> (1, 2 * j) \<in> decided ms)" if "1 \<le> j" for j
  proof
    assume "(1, 2 * j - 1) \<in> decided ms \<and> (1, 2 * j) \<in> decided ms"
    then obtain m m' where m: "match_at ms (1, 2 * j - 1) = Some m" "present (bm_winner m)"
        "match_at ms (1, 2 * j) = Some m'" "present (bm_winner m')"
      by (auto simp: decided_def)
    moreover have "bm_status m = Pending \<or> bm_status m = Bye" "bm_status m' = Pending \<or> bm_status m' = Bye"
      using fresh m by blast+
    ultimately have "bm_status m = Bye" "bm_status m' = Bye"
      using I(3) [OF m(1)] I(3) [OF m(3)] by (auto simp: match_ok_def)
    then have "length participants < 2 * (2 * j - 1)" "2 * (2 * j) - 1 \<le> length participants"
      using first m unfolding first_ok_def by blast+
    then show False
      by simp
  qed
  have entry: "\<exists>p. match_at ms p = Some m \<and> played m \<and> stands_for p m (?create m)" if m: "m \<in> set ?open" for m
  proof -
    obtain j where j: "match_at ms (1, j) = Some m" "bm_status m = Pending"
      using m at by auto
    then have "played m" "bm_winner m = None"
      using I(3) [OF j(1)] by (auto simp: match_ok_def played_def)
    then show ?thesis
      using announced_stands_for j I(5) [OF j(1)] by blast
  qed
  have key: "match_key (?create m) = bm_id m" if "m \<in> set ?open" for m
    using entry [OF that] I(5) by (fastforce simp: stands_for_def link_ok_def name_of_def)
  have "stored ms (map ?create ?open)"
    unfolding stored_def
  proof (intro conjI ballI allI impI)
    have "map match_key (map ?create ?open) = map bm_id ?open"
      using key by simp
    moreover have "distinct (map bm_id row)"
      using linked_distinct [OF I(1)] by (simp add: rows)
    ultimately show "distinct (map match_key (map ?create ?open))"
      by (simp only: distinct_map_filter)
    fix t
    assume "t \<in> set (map ?create ?open)"
    then show "\<exists>p m. match_at ms p = Some m \<and> played m \<and> stands_for p m t"
      using entry by (metis (no_types, lifting) imageE list.set_map)
  next
    fix p m
    assume p: "match_at ms p = Some m" "played m"
    have "bm_status m = Pending \<or> bm_status m = Bye"
      using fresh p(1) by blast
    then have pending: "bm_status m = Pending"
      using p(2) by (auto simp: played_def)
    have "fst p = 1"
    proof (rule ccontr)
      assume "fst p \<noteq> 1"
      moreover have "1 \<le> fst p" "1 \<le> snd p"
        using I(4) [OF p(1)] by (simp_all add: valid_ref_def)
      ultimately have two: "2 \<le> fst p"
        by simp
      then have "slots_ok m (fed (decided ms) p)"
        using I(2) p(1) unfolding fed_by_def by blast
      then have "2 \<le> fed (decided ms) p"
        using p(2) by (simp add: slots_ok_def played_def)
      then have "(fst p - 1, 2 * snd p - 1) \<in> decided ms" "(fst p - 1, 2 * snd p) \<in> decided ms"
        by (auto simp: fed_def of_bool_def split: if_splits)
      then show False
        using decided one_bye [OF \<open>1 \<le> snd p\<close>] by metis
    qed
    then obtain j where "p = (1, j)"
      by (cases p) auto
    then have "m \<in> set ?open"
      using at p(1) pending by auto
    moreover have "bm_id m = name_of p"
      using I(5) [OF p(1)] by (simp add: link_ok_def name_of_def)
    ultimately show "name_of p \<in> match_key ` set (map ?create ?open)"
      using key by (metis (no_types, lifting) image_eqI list.set_map)
  qed
  moreover have "se_start tid ?b = Some (?b, map ?create ?open)"
    by (simp add: se_start_def se_getInitialMatches_def b rows comp_def)
  ultimately show ?thesis
    using inv first b by (simp add: single_inv_def)
qed

section \<open>When a tournament ends\<close>

lemma run_facts:
  assumes "2 \<le> length participants" "\<forall>p \<in> set participants. p \<noteq> []"
  obtains b ts where "se_run tid bestOf finalsBestOf participants reports = Some (b, ts)"
    "single_inv (bracket_rounds participants) (b, ts)"
    "\<And>j v. result_of (se_matches b) (1, j) = Some (Bye, v) \<Longrightarrow>
       length participants < 2 * j \<and> (present v \<longleftrightarrow> 2 * j - 1 \<le> length participants)"
    "\<And>j. valid_ref (bracket_rounds participants) (1, j) \<Longrightarrow> length participants < 2 * j \<Longrightarrow>
       \<exists>v. result_of (se_matches b) (1, j) = Some (Bye, v)"
proof -
  let ?K = "bracket_rounds participants"
  obtain st where st: "se_start tid (se_generateBracket bestOf finalsBestOf False participants) = Some st"
    "single_inv ?K st" "first_ok participants (se_matches (fst st))"
    using single_start [OF assms] by blast
  obtain b ts where run: "fold (se_report tid) reports st = (b, ts)"
    by (cases "fold (se_report tid) reports st")
  have inv: "single_inv ?K (b, ts)"
    and byes: "result_of (se_matches b) q = Some (Bye, v) \<longleftrightarrow> result_of (se_matches (fst st)) q = Some (Bye, v)" for q v
    using single_inv_run [OF st(2), of tid reports] unfolding run by (simp, metis fst_conv)
  have shape: "shaped ?K (se_matches (fst st))"
    using st(2) by (simp add: single_inv_def bracket_inv_def linked_def)
  show ?thesis
  proof (rule that [OF _ inv])
    show "se_run tid bestOf finalsBestOf participants reports = Some (b, ts)"
      by (simp add: se_run_def st(1) run)
    fix j
    { fix v
      assume "result_of (se_matches b) (1, j) = Some (Bye, v)"
      then have "result_of (se_matches (fst st)) (1, j) = Some (Bye, v)"
        using byes by simp
      then obtain m where "match_at (se_matches (fst st)) (1, j) = Some m" "bm_status m = Bye" "bm_winner m = v"
        by (auto simp: result_of_def)
      then show "length participants < 2 * j \<and> (present v \<longleftrightarrow> 2 * j - 1 \<le> length participants)"
        using st(3) unfolding first_ok_def by blast }
    assume j: "valid_ref ?K (1, j)" "length participants < 2 * j"
    then obtain m where m: "match_at (se_matches (fst st)) (1, j) = Some m"
      using match_at_valid [OF shape] by fastforce
    then have "bm_status m = Bye"
      using st(3) j(2) unfolding first_ok_def by blast
    then have "result_of (se_matches (fst st)) (1, j) = Some (Bye, bm_winner m)"
      using m by (simp add: result_of_def)
    then show "\<exists>v. result_of (se_matches b) (1, j) = Some (Bye, v)"
      using byes by blast
  qed
qed

lemma final_name: "linked K (se_matches b) \<Longrightarrow> 1 \<le> K \<Longrightarrow> bm_id (final_match b) = name_of (K, 1)"
proof -
  assume linked: "linked K (se_matches b)" and K: "1 \<le> K"
  then have shape: "shaped K (se_matches b)"
    by (simp add: linked_def)
  have "length (se_matches b ! (K - 1)) = 1" "last (se_matches b) = se_matches b ! (K - 1)"
    using shaped_row [OF shape, of K] shaped_length [OF shape] K last_conv_nth [of "se_matches b"] by fastforce+
  then have "match_at (se_matches b) (K, 1) = Some (final_match b)"
    using shaped_length [OF shape] K by (cases "se_matches b ! (K - 1)") (auto simp: match_at_def element_def final_match_def)
  then show ?thesis
    using linkedD [OF linked] by (fastforce simp: link_ok_def name_of_def)
qed

lemma stored_entry:
  assumes "stored ms ts" "match_at ms p = Some m" "played m"
  shows "\<exists>t \<in> set ts. stands_for p m t"
proof -
  obtain t where t: "t \<in> set ts" "match_key t = name_of p"
    using assms unfolding stored_def by (metis imageE)
  then obtain q mq where q: "match_at ms q = Some mq" "stands_for q mq t"
    using assms(1) unfolding stored_def by blast
  then have "q = p"
    using t(2) by (simp add: stands_for_def)
  then show ?thesis
    using q t(1) assms(2) by auto
qed

text \<open>A match that waits for a match without a winner is not completed.\<close>

lemma undecided_after:
  assumes inv: "bracket_inv K ms" and p: "valid_ref K p" "2 \<le> fst p"
    and feeders: "(fst p - 1, 2 * snd p) \<notin> decided ms"
  shows "p \<notin> decided ms" and "match_at ms p = Some m \<Longrightarrow> bm_status m = Pending"
proof -
  have pending: "bm_status m = Pending" if m: "match_at ms p = Some m" for m
  proof -
    have "slots_ok m (fed (decided ms) p)"
      using bracket_invD(2) [OF inv] m p(2) unfolding fed_by_def by blast
    moreover have "fed (decided ms) p < 2"
      using feeders by (simp add: fed_def)
    ultimately show ?thesis
      using bracket_invD(3) [OF inv m] p(2) by (auto simp: slots_ok_def match_ok_def)
  qed
  then show "match_at ms p = Some m \<Longrightarrow> bm_status m = Pending" .
  show "p \<notin> decided ms"
  proof
    assume "p \<in> decided ms"
    then obtain m where m: "match_at ms p = Some m" "present (bm_winner m)"
      by (auto simp: decided_def)
    then show False
      using pending [OF m(1)] bracket_invD(3) [OF inv m(1)] by (simp add: match_ok_def)
  qed
qed

lemma power_of_level: "r < K \<Longrightarrow> (2 :: nat) ^ (K - r) = 2 * 2 ^ (K - Suc r)"
  by (metis Suc_diff_Suc power_Suc)

text \<open>The last match of a round waits for the last match of the round before.\<close>

lemma last_undecided:
  assumes inv: "bracket_inv K ms" and first: "(1, 2 ^ (K - 1)) \<notin> decided ms" and r: "1 \<le> r" "r \<le> K"
  shows "(r, 2 ^ (K - r)) \<notin> decided ms"
  using r
proof (induction r rule: dec_induct)
  case (step r)
  then show ?case
    using undecided_after(1) [OF inv, of "(Suc r, 2 ^ (K - Suc r))"] power_of_level [of r K] by (simp add: valid_ref_def)
qed (rule first)

text \<open>When everything that was played has a winner, and so have the byes, every match has one.\<close>

lemma fed_played:
  assumes inv: "bracket_inv K ms" and m: "match_at ms p = Some m" "2 \<le> fst p"
    and feeders: "(fst p - 1, 2 * snd p - 1) \<in> decided ms" "(fst p - 1, 2 * snd p) \<in> decided ms"
  shows "played m"
proof -
  have "slots_ok m (fed (decided ms) p)"
    using bracket_invD(2) [OF inv] m unfolding fed_by_def by blast
  moreover have "fed (decided ms) p = 2" "bm_status m \<noteq> Bye"
    using feeders bracket_invD(3) [OF inv m(1)] m(2) by (auto simp: fed_def match_ok_def)
  ultimately show ?thesis by (simp add: slots_ok_def played_def)
qed

lemma all_decided:
  assumes inv: "bracket_inv K ms"
    and byes: "\<And>j v. valid_ref K (1, j) \<Longrightarrow> result_of ms (1, j) = Some (Bye, v) \<Longrightarrow> present v"
    and over: "\<And>p m. match_at ms p = Some m \<Longrightarrow> played m \<Longrightarrow> present (bm_winner m)"
  shows "valid_ref K p \<Longrightarrow> p \<in> decided ms"
proof (induction "fst p" arbitrary: p)
  case (Suc r)
  have shape: "shaped K ms"
    using bracket_invD(1) [OF inv] by (simp add: linked_def)
  obtain m where m: "match_at ms p = Some m"
    using match_at_valid [OF shape] Suc.prems by fastforce
  have "present (bm_winner m)"
  proof (cases "fst p = 1")
    case True
    then obtain j where p: "p = (1, j)"
      by (cases p) auto
    have "played m \<or> bm_status m = Bye"
      using bracket_invD(3) [OF inv m] True by (auto simp: match_ok_def played_def)
    moreover have "result_of ms (1, j) = Some (bm_status m, bm_winner m)"
      using m by (simp add: result_of_def p)
    ultimately show ?thesis
      using over [OF m] byes [of j "bm_winner m"] Suc.prems p by auto
  next
    case False
    then have r: "1 \<le> r" "r < K" "fst p = Suc r" "2 \<le> fst p"
      using Suc by (auto simp: valid_ref_def)
    have "(r, 2 * snd p - 1) \<in> decided ms" "(r, 2 * snd p) \<in> decided ms"
      using Suc.prems r power_of_level [of r K] by (auto intro!: Suc.hyps simp: valid_ref_def)
    then show ?thesis
      using over [OF m] fed_played [OF inv m r(4)] r(3) by simp
  qed
  then show ?case
    using m by (auto simp: decided_def)
qed (simp add: valid_ref_def)

text \<open>The stored match of the final tells that the tournament is complete, and who has won.\<close>

lemma final_stored:
  assumes inv: "single_inv K (b, ts)" and K: "1 \<le> K"
    and m: "match_at (se_matches b) (K, 1) = Some m" "played m" "bm_status m = Completed" "present (bm_winner m)"
  shows "se_isComplete b ts" "se_getWinner b ts \<noteq> None"
proof -
  have binv: "bracket_inv K (se_matches b)" and st: "stored (se_matches b) ts" and third: "se_third b = None"
    using inv by (simp_all add: single_inv_def)
  have final: "bm_id (final_match b) = name_of (K, 1)"
    by (rule final_name [OF bracket_invD(1) [OF binv] K])
  obtain t where t: "t \<in> set ts" "stands_for (K, 1) m t"
    using stored_entry [OF st m(1,2)] by blast
  then show complete: "se_isComplete b ts"
    using final third m(3) by (auto simp: se_isComplete_def completed_ref_def stands_for_def)
  obtain t' where t': "find (\<lambda>m. match_key m = bm_id (final_match b)) ts = Some t'"
    using t final by (cases "find (\<lambda>m. match_key m = bm_id (final_match b)) ts") (auto simp: find_None_iff stands_for_def)
  then have "t' \<in> set ts" "match_key t' = name_of (K, 1)"
    using final by (auto simp: find_Some_iff)
  then obtain p m' where "match_at (se_matches b) p = Some m'" "stands_for p m' t'"
    using st unfolding stored_def by blast
  then have "tm_winner t' = bm_winner m"
    using \<open>match_key t' = name_of (K, 1)\<close> m(1) by (auto simp: stands_for_def)
  then show "se_getWinner b ts \<noteq> None"
    using complete t' m(4) by (cases "bm_winner m") (simp_all add: se_getWinner_def or_else_def)
qed

text \<open>
  C13 (elimination). With two or more byes a single-elimination tournament is never complete,
  whatever results are reported: the last first-round match has no participants and no winner,
  so the match after it, and in the end the final, waits for ever.
\<close>
theorem single_elimination_stalls:
  assumes "2 \<le> length participants" "\<forall>p \<in> set participants. p \<noteq> []" "2 \<le> calculateByes (length participants)"
  shows "case se_run tid bestOf finalsBestOf participants reports of None \<Rightarrow> False
    | Some (b, ts) \<Rightarrow> \<not> se_isComplete b ts"
proof -
  let ?K = "bracket_rounds participants"
  obtain b ts where run: "se_run tid bestOf finalsBestOf participants reports = Some (b, ts)"
    and inv: "single_inv ?K (b, ts)"
    and byes: "\<And>j v. result_of (se_matches b) (1, j) = Some (Bye, v) \<Longrightarrow>
       length participants < 2 * j \<and> (present v \<longleftrightarrow> 2 * j - 1 \<le> length participants)"
    and bye: "\<And>j. valid_ref ?K (1, j) \<Longrightarrow> length participants < 2 * j \<Longrightarrow> \<exists>v. result_of (se_matches b) (1, j) = Some (Bye, v)"
    by (rule run_facts [OF assms(1,2), where tid = tid and bestOf = bestOf and finalsBestOf = finalsBestOf and reports = reports]) (rule that)
  have binv: "bracket_inv ?K (se_matches b)" and st: "stored (se_matches b) ts"
    using inv by (simp_all add: single_inv_def)
  have K: "1 \<le> ?K" "length participants + 2 \<le> 2 ^ ?K"
    using bracket_rounds_facts [OF assms(1)] assms(3) by (simp_all add: calculateByes_def)
  have half: "(2 :: nat) ^ ?K = 2 * 2 ^ (?K - 1)"
    using K(1) by (cases ?K) auto
  have "valid_ref ?K (1, 2 ^ (?K - 1))" "length participants < 2 * 2 ^ (?K - 1)"
    using K half by (simp_all add: valid_ref_def)
  then obtain v where "result_of (se_matches b) (1, 2 ^ (?K - 1)) = Some (Bye, v)"
    using bye by blast
  then have "(1, 2 ^ (?K - 1)) \<notin> decided (se_matches b)"
    using byes [of "2 ^ (?K - 1)" v] K(2) half by (auto simp: decided_def result_of_def)
  note last = last_undecided [OF binv this]
  have "\<not> completed_ref (bm_id (final_match b)) ts"
  proof
    assume "completed_ref (bm_id (final_match b)) ts"
    then obtain t where t: "t \<in> set ts" "match_key t = name_of (?K, 1)" "tm_status t = Completed"
      using final_name [OF bracket_invD(1) [OF binv] K(1)] by (auto simp: completed_ref_def)
    then obtain p m where m: "match_at (se_matches b) p = Some m" "stands_for p m t"
      using st unfolding stored_def by blast
    then have p: "p = (?K, 1)" "bm_status m = Completed"
      using t by (simp_all add: stands_for_def)
    have "2 \<le> ?K"
      using K assms(1) by (cases "?K = 1") auto
    then show False
      using undecided_after(2) [OF binv _ _ _ m(1)] last [of "?K - 1"] p by (simp add: valid_ref_def)
  qed
  then show ?thesis
    using run by (simp add: se_isComplete_def)
qed

lemma single_elimination_stalls_witness:
  "case se_run (ju ''t'') None None (map ju [''a'', ''b'', ''c'', ''d'', ''e'']) [(0, 1, 0), (1, 1, 0), (2, 1, 0)] of None \<Rightarrow> False
    | Some (b, ts) \<Rightarrow> \<not> se_isComplete b ts"
proof (rule single_elimination_stalls)
  have "nextPowerOf2 5 = 8"
    unfolding nextPowerOf2_def by (simp add: power_from.simps)
  then show "2 \<le> calculateByes (length (map ju [''a'', ''b'', ''c'', ''d'', ''e'']))"
    by (simp add: calculateByes_def numeral_eq_Suc)
qed simp_all

text \<open>
  C11 (elimination). Without a match for the third rank and with at most one bye, whatever scores are
  reported, a single-elimination tournament is complete and has a winner, or has a match to be played, or
  a report left a match without winner. There are two or more participants with non-empty ids, and
  results are reported by their scores alone: a walkover of the final leaves it incomplete
  (\<open>walkover_final_stalls\<close>), and metadata given with a report may not replace the name of the match.
\<close>
theorem single_elimination_progress:
  assumes "2 \<le> length participants" "\<forall>p \<in> set participants. p \<noteq> []" "calculateByes (length participants) \<le> 1"
  shows "case se_run tid bestOf finalsBestOf participants reports of None \<Rightarrow> False
    | Some (b, ts) \<Rightarrow> (se_isComplete b ts \<and> se_getWinner b ts \<noteq> None) \<or>
        (\<exists>t \<in> set ts. open_status (tm_status t)) \<or>
        (\<exists>t \<in> set ts. tm_status t = Completed \<and> or_else (tm_winner t) None = None)"
proof -
  let ?K = "bracket_rounds participants"
  obtain b ts where run: "se_run tid bestOf finalsBestOf participants reports = Some (b, ts)"
    and inv: "single_inv ?K (b, ts)"
    and byes: "\<And>j v. result_of (se_matches b) (1, j) = Some (Bye, v) \<Longrightarrow>
       length participants < 2 * j \<and> (present v \<longleftrightarrow> 2 * j - 1 \<le> length participants)"
    and "\<And>j. valid_ref ?K (1, j) \<Longrightarrow> length participants < 2 * j \<Longrightarrow> \<exists>v. result_of (se_matches b) (1, j) = Some (Bye, v)"
    by (rule run_facts [OF assms(1,2), where tid = tid and bestOf = bestOf and finalsBestOf = finalsBestOf and reports = reports]) (rule that)
  have binv: "bracket_inv ?K (se_matches b)" and st: "stored (se_matches b) ts"
    using inv by (simp_all add: single_inv_def)
  have K: "1 \<le> ?K" "2 ^ ?K \<le> length participants + 1"
    using bracket_rounds_facts [OF assms(1)] assms(3) by (simp_all add: calculateByes_def)
  have half: "(2 :: nat) ^ ?K = 2 * 2 ^ (?K - 1)"
    using K(1) by (cases ?K) auto
  have "se_isComplete b ts \<and> se_getWinner b ts \<noteq> None"
    if decisive: "\<forall>t \<in> set ts. tm_status t = Completed \<longrightarrow> present (tm_winner t)"
      and closed: "\<not> (\<exists>t \<in> set ts. open_status (tm_status t))"
  proof -
    have over: "bm_status m = Completed \<and> present (bm_winner m)" if m: "match_at (se_matches b) p = Some m" "played m" for p m
      using stored_entry [OF st m] bracket_invD(3) [OF binv m(1)] decisive closed m(2)
      by (auto simp: stands_for_def match_ok_def open_status_def played_def)
    have won: "present v" if "valid_ref ?K (1, j)" "result_of (se_matches b) (1, j) = Some (Bye, v)" for j v
      using that byes [of j v] K half by (auto simp: valid_ref_def)
    have "(?K, 1) \<in> decided (se_matches b)"
      by (rule all_decided [OF binv]) (use won over K(1) in \<open>auto simp: valid_ref_def\<close>)
    then obtain m where m: "match_at (se_matches b) (?K, 1) = Some m" "present (bm_winner m)"
      by (auto simp: decided_def)
    have "bm_status m \<noteq> Bye"
      using bracket_invD(3) [OF binv m(1)] byes [of 1 "bm_winner m"] m(1) assms(1)
      by (auto simp: match_ok_def result_of_def)
    then have "played m"
      using bracket_invD(3) [OF binv m(1)] m(2) by (auto simp: match_ok_def played_def)
    then show ?thesis
      using final_stored [OF inv K(1) m(1)] over [OF m(1)] m(2) by blast
  qed
  moreover have "present w" if "or_else w None \<noteq> None" for w
    using that by (auto simp: or_else_def split: if_splits)
  ultimately show ?thesis
    unfolding run option.case prod.case by blast
qed

lemma single_elimination_progress_witness:
  "case se_run (ju ''t'') None None (map ju [''a'', ''b'', ''c'']) [(0, 1, 0)] of None \<Rightarrow> False
    | Some (b, ts) \<Rightarrow> (se_isComplete b ts \<and> se_getWinner b ts \<noteq> None) \<or>
        (\<exists>t \<in> set ts. open_status (tm_status t)) \<or>
        (\<exists>t \<in> set ts. tm_status t = Completed \<and> or_else (tm_winner t) None = None)"
proof (rule single_elimination_progress)
  have "nextPowerOf2 3 = 4"
    unfolding nextPowerOf2_def by (simp add: power_from.simps)
  then show "calculateByes (length (map ju [''a'', ''b'', ''c''])) \<le> 1"
    by (simp add: calculateByes_def numeral_eq_Suc)
qed simp_all

text \<open>
  Three more defects on concrete brackets. A final that is decided by a walkover is not \<open>completed\<close>, so the
  tournament never is; no match is left to be played. With a match for the third rank and three participants
  both matches are played and the tournament is not complete, since the bye of a semifinal gives
  no loser. And \<open>bracketSeeding\<close> drops its empty positions at the end, so that of five seeds the
  third meets the fourth in the first round and the second has the bye.
\<close>

lemma walkover_final_stalls:
  "case se_start (ju ''t'') (se_generateBracket None None False (map ju [''a'', ''b''])) of None \<Rightarrow> False
   | Some st \<Rightarrow> (case se_walkover (ju ''t'') (0, ju ''a'') st of
       (b, ts) \<Rightarrow> \<not> se_isComplete b ts \<and> map tm_status ts = [Walkover] \<and> map tm_winner ts = [Some (ju ''a'')])"
  by code_simp

lemma third_place_stalls:
  "case se_start (ju ''t'') (se_generateBracket None None True (map ju [''a'', ''b'', ''c''])) of None \<Rightarrow> False
   | Some st \<Rightarrow> (case fold (se_report (ju ''t'')) [(0, 1, 0), (1, 1, 0)] st of
       (b, ts) \<Rightarrow> \<not> se_isComplete b ts \<and> map tm_status ts = [Completed, Completed])"
  by code_simp

lemma bracket_seeding_drops_byes:
  "fillWithByes (bracketSeeding (map ju [''1'', ''2'', ''3'', ''4'', ''5''])) 8 =
    map (map_option ju) [Some ''1'', Some ''5'', Some ''4'', Some ''3'', Some ''2'', None, None, None]"
  by code_simp

end
