(* ===== verification/DoubleElimination.thy ===== *)
theory DoubleElimination
  imports SingleElimination
begin

text \<open>
  Double elimination: \<open>src/plugins/tournament/formats/double-elimination.ts\<close>. The format reads
  the kind of a match from the front of its identifier (\<open>WR\<close>, \<open>LR\<close>, \<open>GF\<close>) and looks it up in
  the bracket by that identifier.

  Shown: a match stored by the match manager has the identifier \<open>tournament:name\<close>, which is of
  no kind, so the format ignores every result and a double-elimination tournament never gets
  beyond its first round; and of the names that the losers of the first round are sent to, half
  are of no match, while every match of the first losers' round is named only once.
\<close>

section \<open>The format\<close>

definition de_validate :: "ustring list \<Rightarrow> string list" where
  "de_validate participants =
     (if length participants < 2 then [''Minimum 2 participants required''] else []) @
     (if length participants > 128 then [''Maximum 128 participants for double elimination''] else [])"

definition de_generateBracket :: "nat option \<Rightarrow> bool option \<Rightarrow> ustring list \<Rightarrow> double_bracket" where
  "de_generateBracket bestOf grandFinalsReset participants =
     generateDoubleEliminationBracket (Some (or_default bestOf 1)) (Some (grandFinalsReset \<noteq> Some False)) participants"

definition de_getInitialMatches :: "nat option \<Rightarrow> double_bracket \<Rightarrow> tour_match list option" where
  "de_getInitialMatches bestOf b = (case de_winners b of [] \<Rightarrow> None
     | r # rs \<Rightarrow> Some (map (announce bestOf (ju ''winners'')) (filter (\<lambda>m. bm_status m = Pending) r)))"

text \<open>The configuration: \<open>bestOf\<close> and \<open>grandFinalsBestOf\<close>.\<close>

type_synonym de_config = "nat option \<times> nat option"

definition close_match :: "tour_match \<Rightarrow> bracket_match \<Rightarrow> bracket_match" where
  "close_match r m = m\<lparr>bm_winner := tm_winner r, bm_loser := tm_loser r, bm_status := Completed\<rparr>"

text \<open>A participant goes to the first free place of a match, which is new when both are taken.\<close>

definition place_in :: "nat option \<Rightarrow> string \<Rightarrow> ustring \<Rightarrow> ustring \<Rightarrow> ustring \<Rightarrow> rounds \<Rightarrow> rounds \<times> tour_match list" where
  "place_in bestOf phase side name p ms =
     (case match_ref side name of
        None \<Rightarrow> (ms, [])
      | Some q \<Rightarrow> (case match_at ms q of
          None \<Rightarrow> (ms, [])
        | Some m \<Rightarrow> let m = fill_place p m in
            (set_match ms q m,
             if present (bm_participant1 m) \<and> present (bm_participant2 m)
             then [announce bestOf (ju phase) m] else [])))"

definition advanceInWinners :: "de_config \<Rightarrow> ustring \<Rightarrow> ustring \<Rightarrow> double_bracket \<Rightarrow> double_bracket \<times> tour_match list" where
  "advanceInWinners cfg name p b =
     (case place_in (fst cfg) ''winners'' (ju ''WR'') name p (de_winners b) of
        (ms, new) \<Rightarrow> (b\<lparr>de_winners := ms\<rparr>, new))"

definition advanceInLosers :: "de_config \<Rightarrow> ustring \<Rightarrow> ustring \<Rightarrow> double_bracket \<Rightarrow> double_bracket \<times> tour_match list" where
  "advanceInLosers cfg name p b =
     (case place_in (fst cfg) ''losers'' (ju ''LR'') name p (de_losers b) of
        (ms, new) \<Rightarrow> (b\<lparr>de_losers := ms\<rparr>, new))"

definition dropToLosers :: "de_config \<Rightarrow> ustring \<Rightarrow> ustring \<Rightarrow> double_bracket \<Rightarrow> double_bracket \<times> tour_match list" where
  "dropToLosers cfg name p b =
     (case place_in (fst cfg) ''losers'' (ju ''LR'') name p (de_losers b) of
        (ms, new) \<Rightarrow> (b\<lparr>de_losers := ms\<rparr>, new))"

definition checkGrandFinalsReady :: "de_config \<Rightarrow> double_bracket \<Rightarrow> tour_match list" where
  "checkGrandFinalsReady cfg b =
     (let gf = de_finals b in
      if present (gf_participant1 gf) \<and> present (gf_participant2 gf)
      then [(createMatchTemplate (fst cfg) (ju ''grand-finals'') 1 1 (gf_participant1 gf) (gf_participant2 gf)
              (snd cfg) None None)\<lparr>tm_id := ju ''GF''\<rparr>] else [])"

text \<open>The winner of a match that is missing is written as the empty name, which is as false.\<close>

definition name_or_empty :: "ustring option \<Rightarrow> ustring" where
  "name_or_empty p = (case p of None \<Rightarrow> [] | Some s \<Rightarrow> s)"

definition processWinnersMatch :: "de_config \<Rightarrow> tour_match \<Rightarrow> double_bracket \<Rightarrow> double_bracket \<times> tour_match list" where
  "processWinnersMatch cfg r b =
     (let b = b\<lparr>de_winners := update_rounds (\<lambda>m. bm_id m = tm_id r) (close_match r) (de_winners b)\<rparr>;
          (b, new1) =
            (if present (tm_next r) \<and> tm_next r \<noteq> Some (ju ''GF'')
             then advanceInWinners cfg (the (tm_next r)) (name_or_empty (tm_winner r)) b
             else if tm_next r = Some (ju ''GF'')
             then (let b = b\<lparr>de_finals := (de_finals b)\<lparr>gf_participant1 := tm_winner r\<rparr>\<rparr> in (b, checkGrandFinalsReady cfg b))
             else (b, []));
          (b, new2) =
            (if present (tm_loser r) \<and> present (tm_loserNext r)
             then dropToLosers cfg (the (tm_loserNext r)) (the (tm_loser r)) b else (b, []))
      in (b, new1 @ new2))"

definition processLosersMatch :: "de_config \<Rightarrow> tour_match \<Rightarrow> double_bracket \<Rightarrow> double_bracket \<times> tour_match list" where
  "processLosersMatch cfg r b =
     (let b = b\<lparr>de_losers := update_rounds (\<lambda>m. bm_id m = tm_id r) (close_match r) (de_losers b)\<rparr>
      in if present (tm_next r) \<and> tm_next r \<noteq> Some (ju ''GF'')
         then advanceInLosers cfg (the (tm_next r)) (name_or_empty (tm_winner r)) b
         else if tm_next r = Some (ju ''GF'')
         then (let b = b\<lparr>de_finals := (de_finals b)\<lparr>gf_participant2 := tm_winner r\<rparr>\<rparr> in (b, checkGrandFinalsReady cfg b))
         else (b, []))"

definition processGrandFinals :: "de_config \<Rightarrow> tour_match \<Rightarrow> double_bracket \<Rightarrow> double_bracket \<times> tour_match list" where
  "processGrandFinals cfg r b =
     (let gf = (de_finals b)\<lparr>gf_winner := tm_winner r, gf_loser := tm_loser r, gf_status := Completed\<rparr>
      in (b\<lparr>de_finals := gf\<rparr>,
          if de_reset b = Some True \<and> tm_winner r = gf_participant2 gf
          then [(createMatchTemplate (fst cfg) (ju ''grand-finals-reset'') 2 1 (gf_participant1 gf) (gf_participant2 gf)
                  (snd cfg) None None)\<lparr>tm_id := ju ''GF_RESET''\<rparr>] else []))"

definition de_onMatchComplete :: "de_config \<Rightarrow> double_bracket \<Rightarrow> tour_match \<Rightarrow> double_bracket \<times> tour_match list" where
  "de_onMatchComplete cfg b r =
     (if starts_with (tm_id r) (ju ''WR'') then processWinnersMatch cfg r b
      else if starts_with (tm_id r) (ju ''LR'') then processLosersMatch cfg r b
      else if tm_id r = ju ''GF'' then processGrandFinals cfg r b
      else if tm_id r = ju ''GF_RESET'' then (b\<lparr>de_reset := None\<rparr>, [])
      else (b, []))"

record placement =
  pl_participant :: ustring
  pl_placement :: nat
  pl_phase :: "ustring option"
  pl_round :: "nat option"

text \<open>One more participant of the standings, unless it is there.\<close>

definition add_placement :: "ustring option \<Rightarrow> ustring option \<Rightarrow> nat option \<Rightarrow> placement list \<Rightarrow> placement list" where
  "add_placement p phase round standings =
     (if present p \<and> the p \<notin> pl_participant ` set standings
      then standings @ [\<lparr>pl_participant = the p, pl_placement = length standings + 1, pl_phase = phase, pl_round = round\<rparr>]
      else standings)"

definition de_getStandings :: "double_bracket \<Rightarrow> tour_match list \<Rightarrow> placement list" where
  "de_getStandings b ms =
     (let finals =
        (if gf_status (de_finals b) = Completed
         then (case find (\<lambda>m. tm_id m = ju ''GF'' \<or> tm_id m = ju ''GF_RESET'') ms of
             None \<Rightarrow> []
           | Some gf \<Rightarrow> if present (tm_winner gf)
               then add_placement (tm_loser gf) (Some (ju ''grand-finals'')) None (add_placement (tm_winner gf) None None [])
               else [])
         else []);
        losers = sort_key (\<lambda>m. - int (tm_round m)) (filter (\<lambda>m. tm_phase m = ju ''losers'' \<and> tm_status m = Completed) ms)
      in fold (\<lambda>m. add_placement (tm_loser m) (Some (ju ''losers'')) (Some (tm_round m))) losers finals)"

definition de_isComplete :: "double_bracket \<Rightarrow> tour_match list \<Rightarrow> bool" where
  "de_isComplete b ms = (case find (\<lambda>m. tm_id m = ju ''GF'') ms of
     None \<Rightarrow> False
   | Some gf \<Rightarrow>
       if tm_status gf \<noteq> Completed then False
       else if de_reset b = Some True \<and> tm_winner gf = gf_participant2 (de_finals b)
       then (case find (\<lambda>m. tm_id m = ju ''GF_RESET'') ms of None \<Rightarrow> False | Some m \<Rightarrow> tm_status m = Completed)
       else True)"

definition de_getWinner :: "double_bracket \<Rightarrow> tour_match list \<Rightarrow> ustring option" where
  "de_getWinner b ms =
     (if \<not> de_isComplete b ms then None
      else (case find (\<lambda>m. tm_id m = ju ''GF_RESET'') ms of
          Some m \<Rightarrow> if tm_status m = Completed then tm_winner m
            else (case find (\<lambda>m. tm_id m = ju ''GF'') ms of None \<Rightarrow> None | Some gf \<Rightarrow> or_else (tm_winner gf) None)
        | None \<Rightarrow> (case find (\<lambda>m. tm_id m = ju ''GF'') ms of None \<Rightarrow> None | Some gf \<Rightarrow> or_else (tm_winner gf) None)))"

definition all_over :: "rounds \<Rightarrow> bool" where
  "all_over ms \<longleftrightarrow> (\<forall>m \<in> set (concat ms). bm_status m = Completed)"

definition de_getCurrentPhase :: "double_bracket \<Rightarrow> string" where
  "de_getCurrentPhase b =
     (if all_over (de_winners b) \<and> all_over (de_losers b) then ''grand-finals''
      else if all_over (de_winners b) then ''losers-finals'' else ''bracket'')"

definition de_getCurrentRound :: "double_bracket \<Rightarrow> int" where
  "de_getCurrentRound b =
     (case map bm_round (filter (\<lambda>m. bm_status m \<noteq> Completed) (concat (de_winners b) @ concat (de_losers b))) of
        [] \<Rightarrow> int (de_winnersRounds b) + de_losersRounds b
      | r # rs \<Rightarrow> int (fold min rs r))"

section \<open>A running tournament\<close>

type_synonym double_run = "double_bracket \<times> tour_match list"

definition de_start :: "ustring \<Rightarrow> nat option \<Rightarrow> double_bracket \<Rightarrow> double_run option" where
  "de_start tournamentId bestOf b =
     map_option (\<lambda>ms. (b, map (create_match tournamentId) ms)) (de_getInitialMatches bestOf b)"

definition de_report :: "de_config \<Rightarrow> ustring \<Rightarrow> nat \<times> int \<times> int \<Rightarrow> double_run \<Rightarrow> double_run" where
  "de_report cfg tournamentId p st = (case (p, st) of ((i, score1, score2), (b, ms)) \<Rightarrow>
     if i < length ms \<and> open_status (tm_status (ms ! i))
     then (let r = report_result score1 score2 (ms ! i); (b, new) = de_onMatchComplete cfg b r
           in (b, ms[i := r] @ map (create_match tournamentId) new))
     else (b, ms))"

section \<open>Stored identifiers\<close>

definition stored_id :: "ustring \<Rightarrow> tour_match \<Rightarrow> bool" where
  "stored_id tid m \<longleftrightarrow> starts_with (tm_id m) (tid @ [58])"

lemma starts_with_two: "starts_with (tid @ 58 # s) [a, b] \<longleftrightarrow>
    starts_with tid [a, b] \<or> (tid = [a] \<and> b = 58) \<or> (tid = [] \<and> a = 58 \<and> (\<exists>s'. s = b # s'))"
  by (cases tid; cases "tl tid"; cases s) (auto simp: starts_with_iff)

lemma stored_id_kind:
  assumes "stored_id tid m" "\<not> starts_with tid (ju ''WR'')" "\<not> starts_with tid (ju ''LR'')"
  shows "\<not> starts_with (tm_id m) (ju ''WR'')" "\<not> starts_with (tm_id m) (ju ''LR'')"
    "tm_id m \<noteq> ju ''GF''" "tm_id m \<noteq> ju ''GF_RESET''"
proof -
  obtain s where s: "tm_id m = tid @ 58 # s"
    using assms(1) by (auto simp: stored_id_def starts_with_iff)
  show "\<not> starts_with (tm_id m) (ju ''WR'')" "\<not> starts_with (tm_id m) (ju ''LR'')"
    using assms(2,3) unfolding s ju_def by (simp_all add: starts_with_two)
  have "58 \<in> set (tm_id m)"
    by (simp add: s)
  then show "tm_id m \<noteq> ju ''GF''" "tm_id m \<noteq> ju ''GF_RESET''"
    by (auto simp: ju_def)
qed

lemma stored_ignored:
  assumes "stored_id tid m" "\<not> starts_with tid (ju ''WR'')" "\<not> starts_with tid (ju ''LR'')"
  shows "de_onMatchComplete cfg b (report_result s1 s2 m) = (b, [])"
proof -
  have "tm_id (report_result s1 s2 m) = tm_id m"
    by (simp add: report_result_def split: prod.split)
  then show ?thesis
    using stored_id_kind [OF assms] by (simp add: de_onMatchComplete_def)
qed

definition de_run :: "de_config \<Rightarrow> ustring \<Rightarrow> nat option \<Rightarrow> bool option \<Rightarrow> ustring list \<Rightarrow> (nat \<times> int \<times> int) list \<Rightarrow> double_run option" where
  "de_run cfg tid bestOf reset participants reports =
     map_option (fold (de_report cfg tid) reports) (de_start tid bestOf (de_generateBracket bestOf reset participants))"

lemma de_report_kept:
  assumes "\<forall>m \<in> set ms. stored_id tid m" "\<not> starts_with tid (ju ''WR'')" "\<not> starts_with tid (ju ''LR'')"
  shows "\<exists>ms'. de_report cfg tid p (b, ms) = (b, ms') \<and> length ms' = length ms \<and> (\<forall>m \<in> set ms'. stored_id tid m)"
proof -
  obtain i s1 s2 where p: "p = (i, s1, s2)"
    by (cases p) auto
  have "stored_id tid (report_result s1 s2 m)" if "stored_id tid m" for m
    using that by (simp add: stored_id_def report_result_def split: prod.split)
  then show ?thesis
    using assms stored_ignored [of tid "ms ! i" cfg b s1 s2] by (auto simp: de_report_def p Let_def dest!: set_update_subset_insert [THEN subsetD])
qed

text \<open>
  C22 (double elimination). Under an identifier that does not begin with WR or LR, a tournament
  never changes its bracket, stores no match beyond those of the first round and is never
  complete, whatever results are reported.
\<close>
theorem double_elimination_stuck:
  assumes "\<not> starts_with tid (ju ''WR'')" "\<not> starts_with tid (ju ''LR'')"
    and "de_run cfg tid bestOf reset participants reports = Some (b, ms)"
  shows "b = de_generateBracket bestOf reset participants \<and>
    length ms = length (filter (\<lambda>m. bm_status m = Pending) (hd (de_winners b))) \<and> \<not> de_isComplete b ms"
proof -
  let ?b = "de_generateBracket bestOf reset participants"
  obtain ms0 where start: "de_start tid bestOf ?b = Some (?b, ms0)"
    and run: "fold (de_report cfg tid) reports (?b, ms0) = (b, ms)"
    using assms(3) by (auto simp: de_run_def de_start_def)
  have ms0: "\<forall>m \<in> set ms0. stored_id tid m"
    "length ms0 = length (filter (\<lambda>m. bm_status m = Pending) (hd (de_winners ?b)))"
    using start by (auto simp: de_start_def de_getInitialMatches_def stored_id_def create_match_def split: list.splits)
      (metis append_Cons append_Nil append_assoc starts_with_append)
  have "\<exists>ms'. fold (de_report cfg tid) reports (?b, ms1) = (?b, ms') \<and> length ms' = length ms1 \<and> (\<forall>m \<in> set ms'. stored_id tid m)"
    if "\<forall>m \<in> set ms1. stored_id tid m" for ms1
    using that
  proof (induction reports arbitrary: ms1)
    case (Cons p reports)
    obtain ms2 where "de_report cfg tid p (?b, ms1) = (?b, ms2)" "length ms2 = length ms1" "\<forall>m \<in> set ms2. stored_id tid m"
      using de_report_kept [OF Cons.prems assms(1,2)] by blast
    then show ?case
      using Cons.IH [of ms2] by auto
  qed simp
  from this [OF ms0(1)] have "b = ?b" "length ms = length ms0" and ids: "\<forall>m \<in> set ms. stored_id tid m"
    using run by auto
  moreover have "find (\<lambda>m. tm_id m = ju ''GF'') ms = None"
    using ids stored_id_kind(3) [OF _ assms(1,2)] by (auto simp: find_None_iff)
  ultimately show ?thesis
    using ms0(2) by (simp add: de_isComplete_def)
qed

text \<open>
  The format alone, with its own names for the matches: of four participants the losers of the
  first round are sent to \<open>LR1M1\<close> and \<open>LR1M2\<close>, of which only the first exists, and the loser of
  the winners' final is sent nowhere. When every match there is has been played, the losers'
  bracket has not begun and the tournament is not complete.
\<close>

definition de_own_step :: "de_config \<Rightarrow> nat \<Rightarrow> double_run \<Rightarrow> double_run" where
  "de_own_step cfg i st = (case st of (b, ms) \<Rightarrow>
     let r = report_result 1 0 (ms ! i); (b, new) = de_onMatchComplete cfg b r in (b, ms[i := r] @ new))"

lemma losers_bracket_stalls:
  "case de_getInitialMatches None (de_generateBracket None None (map ju [''a'', ''b'', ''c'', ''d''])) of None \<Rightarrow> False
   | Some ms \<Rightarrow> (case fold (de_own_step (None, None)) [0, 1, 2]
         (de_generateBracket None None (map ju [''a'', ''b'', ''c'', ''d'']), ms) of
       (b, ms) \<Rightarrow> map tm_status ms = [Completed, Completed, Completed] \<and> \<not> de_isComplete b ms \<and>
         map (map bm_participant2) (de_losers b) = [[None], [None]])"
  by code_simp

lemma two_start: "de_start (ju ''t'') None (de_generateBracket None None (map ju [''a'', ''b''])) \<noteq> None"
  by code_simp

lemma double_elimination_stuck_witness:
  "de_isComplete (de_generateBracket None None (map ju [''a'', ''b'']))
     (snd (the (de_run (None, None) (ju ''t'') None None (map ju [''a'', ''b'']) [(0, 1, 0)]))) = False"
proof -
  obtain b ms where run: "de_run (None, None) (ju ''t'') None None (map ju [''a'', ''b'']) [(0, 1, 0)] = Some (b, ms)"
    by (cases "de_run (None, None) (ju ''t'') None None (map ju [''a'', ''b'']) [(0, 1, 0)]")
       (use two_start in \<open>auto simp: de_run_def\<close>)
  have "\<not> starts_with (ju ''t'') (ju ''WR'')" "\<not> starts_with (ju ''t'') (ju ''LR'')"
    by (simp_all add: ju_def)
  from double_elimination_stuck [OF this run]
  have "b = de_generateBracket None None (map ju [''a'', ''b''])" "\<not> de_isComplete b ms"
    by blast+
  then show ?thesis
    using run by simp
qed

end
