(* ===== verification/Standings.thy ===== *)
theory Standings
  imports Tournament Complex_Main "HOL-Library.Product_Lexorder" "HOL-Library.Multiset"
begin

text \<open>
  The tables of a tournament: \<open>src/plugins/tournament/standings-calculator.ts\<close>. The statistics of
  the participants are a \<open>Map\<close> in insertion order whose entries are changed in place, one
  assignment after the other, so that a match of a participant against itself changes its one entry
  twice. Points are rational numbers. \<open>Array.sort\<close> is stable, and the comparators are the
  order of tuples of negated fields.

  Shown: every row of a league table adds up, goals won and lost balance, rows are ranked by
  points, goal difference, goals and wins; a Swiss table shares one point for every match; the table of
  an elimination places every participant once; and the head-to-head order changes only the order
  of rows with equal points.
\<close>

section \<open>Rows\<close>

record standing =
  sg_participant :: ustring
  sg_points :: rat
  sg_wins :: int
  sg_losses :: int
  sg_draws :: int
  sg_played :: int
  sg_goalsFor :: int
  sg_goalsAgainst :: int
  sg_goalDifference :: int
  sg_buchholz :: rat
  sg_rank :: nat

definition createStanding :: "ustring \<Rightarrow> standing" where
  "createStanding p =
     \<lparr>sg_participant = p, sg_points = 0, sg_wins = 0, sg_losses = 0, sg_draws = 0, sg_played = 0,
      sg_goalsFor = 0, sg_goalsAgainst = 0, sg_goalDifference = 0, sg_buchholz = 0, sg_rank = 0\<rparr>"

type_synonym stats = "(ustring \<times> standing) list"

definition ensure :: "ustring \<Rightarrow> stats \<Rightarrow> stats" where
  "ensure p stats = (if map_of stats p = None then AList.update p (createStanding p) stats else stats)"

definition bump :: "ustring \<Rightarrow> (standing \<Rightarrow> standing) \<Rightarrow> stats \<Rightarrow> stats" where
  "bump p f stats = (case map_of stats p of None \<Rightarrow> stats | Some s \<Rightarrow> AList.update p (f s) stats)"

text \<open>A completed match with both participants.\<close>

definition counted :: "tour_match \<Rightarrow> bool" where
  "counted m \<longleftrightarrow> tm_status m = Completed \<and> present (tm_participant1 m) \<and> present (tm_participant2 m)"

section \<open>League\<close>

record points_config =
  pc_win :: rat
  pc_draw :: rat
  pc_loss :: rat

definition default_points :: "rat option \<Rightarrow> rat option \<Rightarrow> rat option \<Rightarrow> points_config" where
  "default_points w d l = \<lparr>pc_win = (case w of None \<Rightarrow> 3 | Some x \<Rightarrow> x),
     pc_draw = (case d of None \<Rightarrow> 1 | Some x \<Rightarrow> x), pc_loss = (case l of None \<Rightarrow> 0 | Some x \<Rightarrow> x)\<rparr>"

definition add_played :: "standing \<Rightarrow> standing" where
  "add_played s = s\<lparr>sg_played := sg_played s + 1\<rparr>"

definition add_goals :: "int \<Rightarrow> int \<Rightarrow> standing \<Rightarrow> standing" where
  "add_goals goalsFor against s =
     s\<lparr>sg_goalsFor := sg_goalsFor s + goalsFor, sg_goalsAgainst := sg_goalsAgainst s + against\<rparr>"

definition add_win :: "rat \<Rightarrow> standing \<Rightarrow> standing" where
  "add_win points s = s\<lparr>sg_wins := sg_wins s + 1, sg_points := sg_points s + points\<rparr>"

definition add_loss :: "rat \<Rightarrow> standing \<Rightarrow> standing" where
  "add_loss points s = s\<lparr>sg_losses := sg_losses s + 1, sg_points := sg_points s + points\<rparr>"

definition add_draw :: "rat \<Rightarrow> standing \<Rightarrow> standing" where
  "add_draw points s = s\<lparr>sg_draws := sg_draws s + 1, sg_points := sg_points s + points\<rparr>"

definition set_difference :: "standing \<Rightarrow> standing" where
  "set_difference s = s\<lparr>sg_goalDifference := sg_goalsFor s - sg_goalsAgainst s\<rparr>"

definition league_result :: "points_config \<Rightarrow> tour_match \<Rightarrow> ustring \<Rightarrow> ustring \<Rightarrow> stats \<Rightarrow> stats" where
  "league_result cfg m p1 p2 stats =
     (if tm_winner m = Some p1 then bump p2 (add_loss (pc_loss cfg)) (bump p1 (add_win (pc_win cfg)) stats)
      else if tm_winner m = Some p2 then bump p1 (add_loss (pc_loss cfg)) (bump p2 (add_win (pc_win cfg)) stats)
      else bump p2 (add_draw (pc_draw cfg)) (bump p1 (add_draw (pc_draw cfg)) stats))"

definition league_match :: "points_config \<Rightarrow> tour_match \<Rightarrow> stats \<Rightarrow> stats" where
  "league_match cfg m stats =
     (if counted m
      then (let p1 = the (tm_participant1 m); p2 = the (tm_participant2 m);
                stats = ensure p2 (ensure p1 stats);
                stats = bump p2 add_played (bump p1 add_played stats);
                stats = bump p1 (add_goals (tm_score1 m) (tm_score2 m)) stats;
                stats = bump p2 (add_goals (tm_score2 m) (tm_score1 m)) stats;
                stats = league_result cfg m p1 p2 stats
            in bump p2 set_difference (bump p1 set_difference stats))
      else stats)"

definition set_ranks :: "standing list \<Rightarrow> standing list" where
  "set_ranks rows = map2 (\<lambda>s i. s\<lparr>sg_rank := i + 1\<rparr>) rows [0..<length rows]"

definition table_key :: "standing \<Rightarrow> rat \<times> int \<times> int \<times> int" where
  "table_key s = (- sg_points s, - sg_goalDifference s, - sg_goalsFor s, - sg_wins s)"

definition sortStandings :: "standing list \<Rightarrow> standing list" where
  "sortStandings rows = set_ranks (sort_key table_key rows)"

definition calculateRoundRobinStandings :: "points_config \<Rightarrow> tour_match list \<Rightarrow> standing list" where
  "calculateRoundRobinStandings cfg ms = sortStandings (map snd (fold (league_match cfg) ms []))"

subsection \<open>What a league table says\<close>

lemma map_of_bump:
  "map_of (bump p f st) q = (if q = p then map_option f (map_of st p) else map_of st q)"
  by (auto simp: bump_def update_conv' split: option.splits)

lemma map_of_ensure:
  "map_of (ensure p st) q = (if q = p \<and> map_of st p = None then Some (createStanding p) else map_of st q)"
  by (auto simp: ensure_def update_conv')

lemma domain_update: "map fst (AList.update k v st) = (if k \<in> fst ` set st then map fst st else map fst st @ [k])"
  by (induction st) auto

lemma keys_bump [simp]: "map fst (bump p f st) = map fst st"
  by (auto simp: bump_def domain_update map_of_eq_None_iff split: option.splits dest: map_of_SomeD intro: rev_image_eqI)

lemma keys_ensure: "map fst (ensure p st) = (if p \<in> fst ` set st then map fst st else map fst st @ [p])"
  by (auto simp: ensure_def domain_update map_of_eq_None_iff)

text \<open>
  The reference table: a row is a sum over the sides of the counted matches, the home side first.
  A side is its name, its goals, the goals against it and its result.
\<close>

datatype side_result = Win | Draw | Loss

definition home_result :: "tour_match \<Rightarrow> side_result" where
  "home_result m = (if tm_winner m = tm_participant1 m then Win
     else if tm_winner m = tm_participant2 m then Loss else Draw)"

definition away_result :: "tour_match \<Rightarrow> side_result" where
  "away_result m = (case home_result m of Win \<Rightarrow> Loss | Loss \<Rightarrow> Win | Draw \<Rightarrow> Draw)"

type_synonym match_side = "ustring \<times> int \<times> int \<times> side_result"

definition sides_of :: "tour_match \<Rightarrow> match_side list" where
  "sides_of m = (if counted m
     then [(the (tm_participant1 m), tm_score1 m, tm_score2 m, home_result m),
           (the (tm_participant2 m), tm_score2 m, tm_score1 m, away_result m)]
     else [])"

definition match_sides :: "tour_match list \<Rightarrow> match_side list" where
  "match_sides ms = concat (map sides_of ms)"

definition result_points :: "points_config \<Rightarrow> side_result \<Rightarrow> rat" where
  "result_points cfg r = (case r of Win \<Rightarrow> pc_win cfg | Draw \<Rightarrow> pc_draw cfg | Loss \<Rightarrow> pc_loss cfg)"

definition own_sides :: "ustring \<Rightarrow> match_side list \<Rightarrow> match_side list" where
  "own_sides p xs = filter (\<lambda>x. fst x = p) xs"

definition with_result :: "side_result \<Rightarrow> match_side list \<Rightarrow> int" where
  "with_result r xs = int (length (filter (\<lambda>x. snd (snd (snd x)) = r) xs))"

definition row_of :: "points_config \<Rightarrow> ustring \<Rightarrow> match_side list \<Rightarrow> standing" where
  "row_of cfg p xs =
     \<lparr>sg_participant = p, sg_points = sum_list (map (\<lambda>x. result_points cfg (snd (snd (snd x)))) xs),
      sg_wins = with_result Win xs, sg_losses = with_result Loss xs, sg_draws = with_result Draw xs,
      sg_played = int (length xs),
      sg_goalsFor = sum_list (map (\<lambda>x. fst (snd x)) xs),
      sg_goalsAgainst = sum_list (map (\<lambda>x. fst (snd (snd x))) xs),
      sg_goalDifference = sum_list (map (\<lambda>x. fst (snd x)) xs) - sum_list (map (\<lambda>x. fst (snd (snd x))) xs),
      sg_buchholz = 0, sg_rank = 0\<rparr>"

definition league_rows :: "points_config \<Rightarrow> tour_match list \<Rightarrow> standing list" where
  "league_rows cfg ms =
     map (\<lambda>p. row_of cfg p (own_sides p (match_sides ms))) (remdups_first (map fst (match_sides ms)))"

lemma set_remdups_first [simp]: "set (remdups_first xs) = set xs"
  by (induction xs) auto

lemma distinct_remdups_first [simp]: "distinct (remdups_first xs)"
  by (induction xs) auto

lemma remdups_first_snoc:
  "remdups_first (xs @ [x]) = (if x \<in> set xs then remdups_first xs else remdups_first xs @ [x])"
  by (induction xs) auto

definition add_side :: "points_config \<Rightarrow> match_side \<Rightarrow> standing \<Rightarrow> standing" where
  "add_side cfg x s = (case x of (p, own, other, r) \<Rightarrow>
     set_difference ((case r of Win \<Rightarrow> add_win (pc_win cfg) | Draw \<Rightarrow> add_draw (pc_draw cfg)
        | Loss \<Rightarrow> add_loss (pc_loss cfg)) (add_goals own other (add_played s))))"

lemmas standing_steps = add_played_def add_goals_def add_win_def add_draw_def add_loss_def set_difference_def

lemma row_of_snoc: "row_of cfg p (xs @ [x]) = add_side cfg x (row_of cfg p xs)"
  by (cases x; cases "snd (snd (snd x))")
     (simp_all add: row_of_def add_side_def standing_steps with_result_def result_points_def)

lemma row_of_Nil: "row_of cfg p [] = createStanding p"
  by (simp add: row_of_def createStanding_def with_result_def)

text \<open>The order of the assignments of one match does not matter: it adds its two sides.\<close>

lemma league_match_sides:
  assumes "counted m"
  shows "map_of (league_match cfg m st) q =
    map_of (fold (\<lambda>x st. bump (fst x) (add_side cfg x) (ensure (fst x) st)) (sides_of m) st) q"
proof -
  obtain a b where ab: "tm_participant1 m = Some a" "tm_participant2 m = Some b"
    using assms by (cases "tm_participant1 m"; cases "tm_participant2 m") (auto simp: counted_def present_def)
  show ?thesis
    using assms ab
    by (auto simp: league_match_def sides_of_def Let_def map_of_bump map_of_ensure league_result_def
          home_result_def away_result_def add_side_def standing_steps createStanding_def
          option.map_comp comp_def split: option.splits)
qed

lemma league_match_keys:
  assumes "counted m"
  shows "map fst (league_match cfg m st) =
    map fst (fold (\<lambda>x st. bump (fst x) (add_side cfg x) (ensure (fst x) st)) (sides_of m) st)"
  using assms
  by (auto simp: league_match_def sides_of_def Let_def league_result_def keys_ensure simp flip: set_map)

definition table_inv :: "points_config \<Rightarrow> match_side list \<Rightarrow> stats \<Rightarrow> bool" where
  "table_inv cfg xs st \<longleftrightarrow> map fst st = remdups_first (map fst xs) \<and>
     (\<forall>q. map_of st q = (if q \<in> fst ` set xs then Some (row_of cfg q (own_sides q xs)) else None))"

lemma table_inv_side:
  assumes "table_inv cfg xs st"
  shows "table_inv cfg (xs @ [x]) (bump (fst x) (add_side cfg x) (ensure (fst x) st))"
proof -
  have k: "fst ` set st = fst ` set xs"
    using assms by (metis table_inv_def set_map set_remdups_first)
  have none: "own_sides q xs = []" if "q \<notin> fst ` set xs" for q
    using that by (auto simp: own_sides_def filter_empty_conv)
  show ?thesis
    using assms none
    by (auto simp: table_inv_def keys_ensure k remdups_first_snoc map_of_bump map_of_ensure own_sides_def
          row_of_snoc row_of_Nil)
qed

lemma table_inv_fold:
  "table_inv cfg xs st \<Longrightarrow>
   table_inv cfg (xs @ ys) (fold (\<lambda>x st. bump (fst x) (add_side cfg x) (ensure (fst x) st)) ys st)"
proof (induction ys arbitrary: xs st)
  case (Cons y ys)
  from Cons.IH [OF table_inv_side [OF Cons.prems, of y]] show ?case by simp
qed simp

lemma table_inv_matches: "table_inv cfg (match_sides ms) (fold (league_match cfg) ms [])"
proof (induction ms rule: rev_induct)
  case (snoc m ms)
  have "table_inv cfg (match_sides ms @ sides_of m) (league_match cfg m (fold (league_match cfg) ms []))"
  proof (cases "counted m")
    case True
    then show ?thesis
      using table_inv_fold [OF snoc, of "sides_of m"]
      by (simp add: table_inv_def league_match_sides league_match_keys)
  next
    case False
    then have "league_match cfg m st = st" "sides_of m = []" for st
      by (simp_all add: league_match_def sides_of_def)
    then show ?thesis using snoc by simp
  qed
  then show ?case by (simp add: match_sides_def)
qed (simp add: match_sides_def table_inv_def)

lemma table_inv_rows:
  assumes "table_inv cfg xs st"
  shows "map snd st = map (\<lambda>p. row_of cfg p (own_sides p xs)) (remdups_first (map fst xs))"
proof -
  have d: "distinct (map fst st)" using assms by (simp add: table_inv_def)
  have "snd x = row_of cfg (fst x) (own_sides (fst x) xs)" if "x \<in> set st" for x
    using assms map_of_is_SomeI [OF d, of "fst x" "snd x"] that
    by (auto simp: table_inv_def split: if_splits)
  then have "map snd st = map (\<lambda>p. row_of cfg p (own_sides p xs)) (map fst st)" by simp
  moreover have "map fst st = remdups_first (map fst xs)" using assms by (simp add: table_inv_def)
  ultimately show ?thesis by metis
qed

text \<open>
  C14 (league tables). The league table computed in one pass over the matches, changing the rows of both
  participants in place, is the ranking of the reference table: one row per participant of a completed
  match, in the order of first appearance, whose played, won, drawn, lost, goals and points are the
  counts and sums over the sides of that participant.
\<close>

theorem league_table_is_sums:
  "calculateRoundRobinStandings cfg ms = sortStandings (league_rows cfg ms)"
  using table_inv_rows [OF table_inv_matches]
  by (simp add: calculateRoundRobinStandings_def league_rows_def)

lemma rows_add_up:
  "sg_played (row_of cfg p xs) = sg_wins (row_of cfg p xs) + sg_draws (row_of cfg p xs) + sg_losses (row_of cfg p xs)"
  "sg_points (row_of cfg p xs) = pc_win cfg * of_int (sg_wins (row_of cfg p xs)) +
     pc_draw cfg * of_int (sg_draws (row_of cfg p xs)) + pc_loss cfg * of_int (sg_losses (row_of cfg p xs))"
proof -
  have "sg_played (row_of cfg p xs) = sg_wins (row_of cfg p xs) + sg_draws (row_of cfg p xs) + sg_losses (row_of cfg p xs) \<and>
    sg_points (row_of cfg p xs) = pc_win cfg * of_int (sg_wins (row_of cfg p xs)) +
     pc_draw cfg * of_int (sg_draws (row_of cfg p xs)) + pc_loss cfg * of_int (sg_losses (row_of cfg p xs))"
  proof (induction xs)
    case (Cons x xs)
    then show ?case
      by (cases "snd (snd (snd x))") (simp_all add: row_of_def with_result_def result_points_def distrib_left)
  qed (simp add: row_of_def with_result_def)
  then show "sg_played (row_of cfg p xs) = sg_wins (row_of cfg p xs) + sg_draws (row_of cfg p xs) + sg_losses (row_of cfg p xs)"
    "sg_points (row_of cfg p xs) = pc_win cfg * of_int (sg_wins (row_of cfg p xs)) +
     pc_draw cfg * of_int (sg_draws (row_of cfg p xs)) + pc_loss cfg * of_int (sg_losses (row_of cfg p xs))"
    by auto
qed

text \<open>The rows of a table are ranked from 1, and a row with fewer points never stands above one with more.\<close>

lemma set_ranks_ranks: "map sg_rank (set_ranks rows) = [1..<Suc (length rows)]"
  by (rule nth_equalityI) (simp_all add: set_ranks_def del: upt_Suc)

lemma set_ranks_keeps:
  assumes "\<And>s n. f (s\<lparr>sg_rank := n\<rparr>) = f s"
  shows "map f (set_ranks rows) = map f rows"
  by (rule nth_equalityI) (simp_all add: set_ranks_def assms)

lemma table_is_sorted: "sorted (map table_key (sortStandings rows))"
proof -
  have "map table_key (sortStandings rows) = map table_key (sort_key table_key rows)"
    unfolding sortStandings_def by (rule set_ranks_keeps) (simp add: table_key_def)
  then show ?thesis by simp
qed

lemma sum_sort_key:
  fixes g :: "standing \<Rightarrow> 'b::comm_monoid_add"
  shows "sum_list (map g (sort_key f rows)) = sum_list (map g rows)"
  by (simp flip: sum_mset_sum_list)

lemma sum_sortStandings:
  fixes g :: "standing \<Rightarrow> 'b::comm_monoid_add"
  assumes "\<And>s n. g (s\<lparr>sg_rank := n\<rparr>) = g s"
  shows "sum_list (map g (sortStandings rows)) = sum_list (map g rows)"
  by (simp add: sortStandings_def set_ranks_keeps [OF assms] sum_sort_key)

lemma sum_own_sides:
  fixes g :: "match_side \<Rightarrow> 'b::comm_monoid_add"
  assumes "distinct ps" "fst ` set xs \<subseteq> set ps"
  shows "sum_list (map (\<lambda>p. sum_list (map g (own_sides p xs))) ps) = sum_list (map g xs)"
  using assms(2)
proof (induction xs)
  case (Cons x xs)
  have "sum_list (map (\<lambda>p. sum_list (map g (own_sides p (x # xs)))) ps) =
      sum_list (map (\<lambda>p. (if p = fst x then g x else 0) + sum_list (map g (own_sides p xs))) ps)"
    by (rule arg_cong [where f = sum_list]) (auto simp: own_sides_def)
  also have "\<dots> = g x + sum_list (map g xs)"
    using Cons assms(1) by (simp add: sum_list_addf sum_list_distinct_conv_sum_set)
  finally show ?case by simp
qed (simp add: own_sides_def)

lemma sum_league_rows:
  fixes g :: "standing \<Rightarrow> 'b::comm_monoid_add"
  assumes "\<And>p xs. g (row_of cfg p xs) = sum_list (map h xs)"
  shows "sum_list (map g (league_rows cfg ms)) = sum_list (map h (match_sides ms))"
  by (simp add: league_rows_def comp_def assms sum_own_sides)

lemma with_result_sum: "with_result r xs = sum_list (map (\<lambda>x. if snd (snd (snd x)) = r then 1 else 0) xs)"
  by (induction xs) (simp_all add: with_result_def)

text \<open>Every counted match gives its two sides the opposite goals and the opposite results.\<close>

lemma sides_balance:
  "sum_list (map (\<lambda>x. fst (snd x)) (match_sides ms)) = sum_list (map (\<lambda>x. fst (snd (snd x))) (match_sides ms))"
  "with_result Win (match_sides ms) = with_result Loss (match_sides ms)"
  "length (match_sides ms) = 2 * length (filter counted ms)"
proof -
  have "sum_list (map (\<lambda>x. fst (snd x)) (match_sides ms)) = sum_list (map (\<lambda>x. fst (snd (snd x))) (match_sides ms)) \<and>
    with_result Win (match_sides ms) = with_result Loss (match_sides ms) \<and>
    length (match_sides ms) = 2 * length (filter counted ms)"
    by (induction ms) (auto simp: match_sides_def sides_of_def away_result_def with_result_sum split: side_result.splits)
  then show
    "sum_list (map (\<lambda>x. fst (snd x)) (match_sides ms)) = sum_list (map (\<lambda>x. fst (snd (snd x))) (match_sides ms))"
    "with_result Win (match_sides ms) = with_result Loss (match_sides ms)"
    "length (match_sides ms) = 2 * length (filter counted ms)"
    by auto
qed

lemma league_table_balances:
  defines "table \<equiv> calculateRoundRobinStandings"
  shows "sum_list (map sg_goalsFor (table cfg ms)) = sum_list (map sg_goalsAgainst (table cfg ms))"
    and "sum_list (map sg_wins (table cfg ms)) = sum_list (map sg_losses (table cfg ms))"
    and "sum_list (map sg_played (table cfg ms)) = 2 * int (length (filter counted ms))"
proof -
  have T: "table cfg ms = sortStandings (league_rows cfg ms)"
    using table_inv_rows [OF table_inv_matches]
    by (simp add: table_def calculateRoundRobinStandings_def league_rows_def)
  have S: "sum_list (map sg_goalsFor (league_rows cfg ms)) = sum_list (map (\<lambda>x. fst (snd x)) (match_sides ms))"
    "sum_list (map sg_goalsAgainst (league_rows cfg ms)) = sum_list (map (\<lambda>x. fst (snd (snd x))) (match_sides ms))"
    "sum_list (map sg_wins (league_rows cfg ms)) = with_result Win (match_sides ms)"
    "sum_list (map sg_losses (league_rows cfg ms)) = with_result Loss (match_sides ms)"
    "sum_list (map sg_played (league_rows cfg ms)) = sum_list (map (\<lambda>x. 1) (match_sides ms))"
    unfolding with_result_sum
    by (rule sum_league_rows, simp add: row_of_def with_result_sum sum_list_triv)+
  show "sum_list (map sg_goalsFor (table cfg ms)) = sum_list (map sg_goalsAgainst (table cfg ms))"
    "sum_list (map sg_wins (table cfg ms)) = sum_list (map sg_losses (table cfg ms))"
    "sum_list (map sg_played (table cfg ms)) = 2 * int (length (filter counted ms))"
    by (simp_all add: T sum_sortStandings S sides_balance sum_list_triv)
qed

section \<open>Head to head\<close>

text \<open>The points of the tied participants against each other.\<close>

definition head_to_head :: "ustring list \<Rightarrow> tour_match list \<Rightarrow> (ustring \<times> int) list" where
  "head_to_head tied ms =
     fold (\<lambda>m h. if counted m \<and> the (tm_participant1 m) \<in> set tied \<and> the (tm_participant2 m) \<in> set tied
        then (let p1 = the (tm_participant1 m); p2 = the (tm_participant2 m);
                  add = (\<lambda>p n h. AList.update p ((case map_of h p of None \<Rightarrow> 0 | Some x \<Rightarrow> x) + n) h)
              in if tm_winner m = Some p1 then add p1 3 h
                 else if tm_winner m = Some p2 then add p2 3 h
                 else add p2 1 (add p1 1 h))
        else h) ms (fold (\<lambda>p h. AList.update p 0 h) tied [])"

definition sortByHeadToHead :: "standing list \<Rightarrow> tour_match list \<Rightarrow> standing list" where
  "sortByHeadToHead tied ms =
     (let h = head_to_head (map sg_participant tied) ms
      in sort_key (\<lambda>s. (- (case map_of h (sg_participant s) of None \<Rightarrow> 0 | Some x \<Rightarrow> x), - sg_goalDifference s)) tied)"

text \<open>The loop over the runs of rows with equal points.\<close>

function tie_groups :: "tour_match list \<Rightarrow> standing list \<Rightarrow> standing list" where
  "tie_groups ms [] = []"
| "tie_groups ms (s # rows) =
     (let tied = s # takeWhile (\<lambda>t. sg_points t = sg_points s) rows;
          rest = dropWhile (\<lambda>t. sg_points t = sg_points s) rows
      in (if length tied > 1 then sortByHeadToHead tied ms else tied) @ tie_groups ms rest)"
  by pat_completeness auto
termination
  by (relation "measure (length \<circ> snd)") (auto simp: le_imp_less_Suc length_dropWhile_le)

definition applyHeadToHead :: "standing list \<Rightarrow> tour_match list \<Rightarrow> standing list" where
  "applyHeadToHead rows ms = set_ranks (tie_groups ms rows)"

text \<open>\<open>getStandings\<close> of \<open>formats/round-robin.ts\<close>: the rows by their points, in the order of a \<open>Map\<close>.\<close>

definition point_groups :: "standing list \<Rightarrow> (rat \<times> standing list) list" where
  "point_groups rows =
     fold (\<lambda>s g. AList.update (sg_points s) ((case map_of g (sg_points s) of None \<Rightarrow> [] | Some xs \<Rightarrow> xs) @ [s]) g) rows []"

definition rr_getStandings :: "points_config \<Rightarrow> bool \<Rightarrow> tour_match list \<Rightarrow> standing list" where
  "rr_getStandings cfg headToHead ms =
     (let standings = calculateRoundRobinStandings cfg ms in
      if headToHead
      then sort_key (\<lambda>s. - sg_points s) (concat (map (\<lambda>(points, group).
             if length group > 1 then applyHeadToHead group ms else group) (point_groups standings)))
      else standings)"

lemma mset_sortByHeadToHead [simp]: "mset (sortByHeadToHead tied ms) = mset tied"
  by (simp add: sortByHeadToHead_def Let_def)

lemma mset_tie_groups: "mset (tie_groups ms rows) = mset rows"
proof (induction ms rows rule: tie_groups.induct)
  case (2 ms s rows)
  let ?P = "\<lambda>t. sg_points t = sg_points s"
  have "mset rows = mset (takeWhile ?P rows) + mset (dropWhile ?P rows)"
    by (metis mset_append takeWhile_dropWhile_id)
  then show ?case
    using 2 by (simp add: Let_def)
qed simp

lemma same_points_reordered:
  assumes "mset xs = mset ys" "\<forall>t\<in>set ys. f t = c"
  shows "map f xs = map f ys"
proof -
  have "map f zs = replicate (length zs) c" if "\<forall>t\<in>set zs. f t = c" for zs
    using that by (induction zs) auto
  moreover have "set xs = set ys" "length xs = length ys"
    using assms(1) by (metis set_mset_mset, metis size_mset)
  ultimately show ?thesis using assms(2) by simp
qed

lemma tie_groups_points: "map sg_points (tie_groups ms rows) = map sg_points rows"
proof (induction ms rows rule: tie_groups.induct)
  case (2 ms s rows)
  let ?P = "\<lambda>t. sg_points t = sg_points s"
  have "map sg_points (sortByHeadToHead (s # takeWhile ?P rows) ms) = map sg_points (s # takeWhile ?P rows)"
    by (rule same_points_reordered [where c = "sg_points s"]) (auto dest: set_takeWhileD)
  moreover have "map sg_points rows = map sg_points (takeWhile ?P rows) @ map sg_points (dropWhile ?P rows)"
    by (metis map_append takeWhile_dropWhile_id)
  ultimately show ?case
    using 2 by (simp add: Let_def)
qed simp

text \<open>
  The head-to-head order changes only the order inside a run of equal points: the sequence of points
  and the participants are those of the given rows.
\<close>

lemma head_to_head_keeps_points:
  "map sg_points (applyHeadToHead rows ms) = map sg_points rows"
  "mset (map sg_participant (applyHeadToHead rows ms)) = mset (map sg_participant rows)"
  "map sg_rank (applyHeadToHead rows ms) = [1..<Suc (length rows)]"
proof -
  show "map sg_points (applyHeadToHead rows ms) = map sg_points rows"
    by (simp add: applyHeadToHead_def set_ranks_keeps tie_groups_points)
  show "mset (map sg_participant (applyHeadToHead rows ms)) = mset (map sg_participant rows)"
    by (simp add: applyHeadToHead_def set_ranks_keeps mset_tie_groups)
  have "length (tie_groups ms rows) = length rows"
    using mset_tie_groups by (metis size_mset)
  then show "map sg_rank (applyHeadToHead rows ms) = [1..<Suc (length rows)]"
    by (simp add: applyHeadToHead_def set_ranks_ranks)
qed

text \<open>
  With the tiebreaker \<open>head-to-head\<close> a league ranks every group of equal points from 1 again:
  \<open>applyHeadToHead\<close> numbers the rows it is given, and \<open>getStandings\<close> gives it one group at a time.
\<close>

definition played_match :: "string \<Rightarrow> string \<Rightarrow> tour_match" where
  "played_match a b = \<lparr>tm_id = [], tm_phase = ju ''league'', tm_round = 1, tm_number = 1,
     tm_participant1 = Some (ju a), tm_participant2 = Some (ju b), tm_bestOf = 1, tm_score1 = 1, tm_score2 = 0,
     tm_winner = Some (ju a), tm_loser = Some (ju b), tm_status = Completed, tm_next = None, tm_loserNext = None,
     tm_groupId = None, tm_matchRef = None\<rparr>"

lemma head_to_head_ranks_restart:
  "map (\<lambda>s. (sg_participant s, sg_rank s))
     (rr_getStandings (default_points None None None) True [played_match ''a'' ''c'', played_match ''b'' ''d'']) =
   [(ju ''a'', 1), (ju ''b'', 2), (ju ''c'', 1), (ju ''d'', 2)]"
  by code_simp

section \<open>Swiss\<close>

text \<open>\<open>None\<close> is the TypeError of a participant that is not in the table.\<close>

definition swiss_match :: "tour_match \<Rightarrow> stats option \<Rightarrow> stats option" where
  "swiss_match m st = (case st of None \<Rightarrow> None | Some stats \<Rightarrow>
     if counted m
     then (let p1 = the (tm_participant1 m); p2 = the (tm_participant2 m) in
       if map_of stats p1 = None \<or> map_of stats p2 = None then None
       else (let stats = bump p2 add_played (bump p1 add_played stats)
             in Some (if tm_winner m = Some p1 then bump p2 (add_loss 0) (bump p1 (add_win 1) stats)
                else if tm_winner m = Some p2 then bump p1 (add_loss 0) (bump p2 (add_win 1) stats)
                else bump p2 (add_draw (1 / 2)) (bump p1 (add_draw (1 / 2)) stats))))
     else Some stats)"

definition opponents_of :: "tour_match list \<Rightarrow> (ustring \<times> ustring list) list" where
  "opponents_of ms =
     fold (\<lambda>m op. if counted m
        then (let p1 = the (tm_participant1 m); p2 = the (tm_participant2 m);
                  has = (\<lambda>p op. if map_of op p = None then AList.update p [] op else op);
                  push = (\<lambda>p q op. AList.update p (the (map_of op p) @ [q]) op)
              in push p2 p1 (push p1 p2 (has p2 (has p1 op))))
        else op) ms []"

definition calculateBuchholz :: "tour_match list \<Rightarrow> stats \<Rightarrow> stats" where
  "calculateBuchholz ms stats =
     fold (\<lambda>(p, opponents) st. bump p (\<lambda>s. s\<lparr>sg_buchholz :=
        sum_list (map (\<lambda>q. case map_of st q of None \<Rightarrow> 0 | Some t \<Rightarrow> sg_points t) opponents)\<rparr>) st) (opponents_of ms) stats"

definition swiss_key :: "standing \<Rightarrow> rat \<times> rat \<times> int" where
  "swiss_key s = (- sg_points s, - sg_buchholz s, - sg_wins s)"

definition calculateSwissStandings :: "tour_match list \<Rightarrow> ustring list \<Rightarrow> standing list option" where
  "calculateSwissStandings ms participants =
     map_option (\<lambda>stats. sort_key swiss_key (map snd (calculateBuchholz ms stats)))
       (fold swiss_match ms (Some (fold (\<lambda>p stats. AList.update p (createStanding p) stats) participants [])))"

section \<open>Elimination, circuits\<close>

record elimination_row =
  er_participant :: ustring
  er_placement :: nat
  er_wins :: nat
  er_losses :: nat
  er_phase :: "ustring option"
  er_round :: "nat option"

definition countWins :: "tour_match list \<Rightarrow> ustring \<Rightarrow> nat" where
  "countWins ms p = length (filter (\<lambda>m. tm_status m = Completed \<and> tm_winner m = Some p) ms)"

definition countLosses :: "tour_match list \<Rightarrow> ustring \<Rightarrow> nat" where
  "countLosses ms p = length (filter (\<lambda>m. tm_status m = Completed \<and> tm_loser m = Some p) ms)"

definition place_row :: "ustring \<Rightarrow> nat \<Rightarrow> nat \<Rightarrow> ustring option \<Rightarrow> nat option \<Rightarrow>
    elimination_row list \<Rightarrow> elimination_row list" where
  "place_row p wins losses phase rnd rows =
     (if p \<in> er_participant ` set rows then rows
      else rows @ [\<lparr>er_participant = p, er_placement = length rows + 1, er_wins = wins, er_losses = losses,
             er_phase = phase, er_round = rnd\<rparr>])"

definition place_match :: "tour_match list \<Rightarrow> tour_match \<Rightarrow> elimination_row list \<Rightarrow> elimination_row list" where
  "place_match ms m rows =
     (let rows = (if present (tm_winner m)
            then (let p = the (tm_winner m) in place_row p (countWins ms p) (countLosses ms p) None None rows) else rows)
      in if present (tm_loser m)
         then (let p = the (tm_loser m) in place_row p (countWins ms p) (countLosses ms p) (Some (tm_phase m)) (Some (tm_round m)) rows)
         else rows)"

text \<open>The last loop does not add to the set of processed names, but reads it once per participant.\<close>

definition place_rest :: "ustring set \<Rightarrow> ustring \<Rightarrow> elimination_row list \<Rightarrow> elimination_row list" where
  "place_rest processed p rows =
     (if p \<in> processed then rows
      else rows @ [\<lparr>er_participant = p, er_placement = length rows + 1, er_wins = 0, er_losses = 0,
             er_phase = None, er_round = None\<rparr>])"

definition calculateEliminationStandings :: "tour_match list \<Rightarrow> ustring list \<Rightarrow> elimination_row list" where
  "calculateEliminationStandings ms participants =
     (let sorted = sort_key (\<lambda>m. - int (tm_round m)) (filter (\<lambda>m. tm_status m = Completed) ms);
          rows = fold (place_match ms) sorted []
      in fold (place_rest (er_participant ` set rows)) participants rows)"

definition calculateCircuitStandings :: "(ustring \<times> int) list list \<Rightarrow> (ustring \<times> int \<times> nat) list" where
  "calculateCircuitStandings events =
     (let totals = fold (\<lambda>results totals. fold (\<lambda>(p, n) t.
            AList.update p ((case map_of t p of None \<Rightarrow> 0 | Some x \<Rightarrow> x) + n) t) results totals) events [];
          rows = sort_key (\<lambda>(p, n). - n) totals
      in map2 (\<lambda>(p, n) i. (p, n, i + 1)) rows [0..<length rows])"

subsection \<open>What the Swiss and elimination tables say\<close>

lemma sum_update:
  fixes g :: "standing \<Rightarrow> 'b::ab_group_add"
  assumes "distinct (map fst st)" "map_of st p = Some s"
  shows "sum_list (map (g \<circ> snd) (AList.update p t st)) = sum_list (map (g \<circ> snd) st) + (g t - g s)"
  using assms by (induction st) (auto simp: comp_def split: if_splits)

lemma bump_domain [simp]: "fst ` set (bump p f st) = fst ` set st"
  by (simp flip: set_map)

lemma sum_bump:
  fixes g :: "standing \<Rightarrow> 'b::ab_group_add"
  assumes "distinct (map fst st)" "p \<in> fst ` set st" "\<And>s. g (f s) = g s + c"
  shows "sum_list (map (g \<circ> snd) (bump p f st)) = sum_list (map (g \<circ> snd) st) + c"
proof -
  obtain s where s: "map_of st p = Some s"
    using assms(2) by (metis map_of_eq_None_iff option.exhaust)
  then have "bump p f st = AList.update p (f s) st" by (simp add: bump_def)
  then show ?thesis by (simp only: sum_update [OF assms(1) s] assms(3)) simp
qed

lemmas sum_points_bump =
  sum_bump [where g = sg_points and f = add_played and c = 0]
  sum_bump [where g = sg_points and f = "add_win n" and c = n for n]
  sum_bump [where g = sg_points and f = "add_loss n" and c = n for n]
  sum_bump [where g = sg_points and f = "add_draw n" and c = n for n]

definition swiss_table_inv :: "ustring list \<Rightarrow> tour_match list \<Rightarrow> stats \<Rightarrow> bool" where
  "swiss_table_inv ps ms st \<longleftrightarrow> map fst st = ps \<and>
     sum_list (map (sg_points \<circ> snd) st) = of_nat (length (filter counted ms))"

lemma swiss_step_inv:
  assumes "swiss_table_inv ps ms st" "distinct ps" "swiss_match m (Some st) = Some st'"
  shows "swiss_table_inv ps (ms @ [m]) st'"
proof (cases "counted m")
  case True
  obtain p q where pq: "tm_participant1 m = Some p" "tm_participant2 m = Some q"
    using True by (cases "tm_participant1 m"; cases "tm_participant2 m") (auto simp: counted_def)
  have d: "distinct (map fst st)" using assms by (simp add: swiss_table_inv_def)
  have k: "p \<in> fst ` set st" "q \<in> fst ` set st"
    using True assms(3) pq by (auto simp: swiss_match_def map_of_eq_None_iff split: if_splits)
  then have "map_of st p \<noteq> None" "map_of st q \<noteq> None" by (simp_all add: map_of_eq_None_iff)
  then have "st' = (let stats = bump q add_played (bump p add_played st)
      in if tm_winner m = Some p then bump q (add_loss 0) (bump p (add_win 1) stats)
         else if tm_winner m = Some q then bump p (add_loss 0) (bump q (add_win 1) stats)
         else bump q (add_draw (1 / 2)) (bump p (add_draw (1 / 2)) stats))"
    using True assms(3) pq by (auto simp: swiss_match_def Let_def split: if_splits)
  then show ?thesis
    using True assms(1) k d
    by (simp add: swiss_table_inv_def Let_def sum_points_bump standing_steps)
next
  case False
  then show ?thesis using assms by (simp add: swiss_table_inv_def swiss_match_def)
qed

lemma swiss_match_defined:
  "swiss_match m (Some st) = None \<longleftrightarrow> counted m \<and> \<not> {the (tm_participant1 m), the (tm_participant2 m)} \<subseteq> fst ` set st"
  by (auto simp: swiss_match_def Let_def map_of_eq_None_iff)

lemma swiss_match_None: "fold swiss_match ms None = None"
  by (induction ms) (simp_all add: swiss_match_def)

lemma swiss_run:
  assumes "distinct ps" "swiss_table_inv ps ms st" "fold swiss_match ms' (Some st) = Some st'"
  shows "swiss_table_inv ps (ms @ ms') st'"
  using assms(2,3)
proof (induction ms' arbitrary: ms st)
  case (Cons m ms')
  then obtain st1 where st1: "swiss_match m (Some st) = Some st1" "fold swiss_match ms' (Some st1) = Some st'"
    by (cases "swiss_match m (Some st)") (simp_all add: swiss_match_None)
  from Cons.IH [OF swiss_step_inv [OF Cons.prems(1) assms(1) st1(1)] st1(2)] show ?case by simp
qed simp

lemma swiss_run_defined:
  assumes "distinct ps" "swiss_table_inv ps ms st"
  shows "fold swiss_match ms' (Some st) = None \<longleftrightarrow>
    (\<exists>m\<in>set ms'. counted m \<and> \<not> {the (tm_participant1 m), the (tm_participant2 m)} \<subseteq> set ps)"
  using assms(2)
proof (induction ms' arbitrary: ms st)
  case (Cons m ms')
  have k: "fst ` set st = set ps" using Cons.prems by (metis swiss_table_inv_def set_map)
  show ?case
  proof (cases "swiss_match m (Some st)")
    case None
    then have "counted m \<and> \<not> {the (tm_participant1 m), the (tm_participant2 m)} \<subseteq> set ps"
      using swiss_match_defined [of m st] k by simp
    then show ?thesis using None by (simp add: swiss_match_None)
  next
    case (Some st1)
    then have "\<not> (counted m \<and> \<not> {the (tm_participant1 m), the (tm_participant2 m)} \<subseteq> set ps)"
      using swiss_match_defined [of m st] k by simp
    then show ?thesis
      using Cons.IH [OF swiss_step_inv [OF Cons.prems assms(1) Some]] Some by auto
  qed
qed simp

lemma swiss_start:
  "distinct ps \<Longrightarrow> swiss_table_inv ps [] (fold (\<lambda>p st. AList.update p (createStanding p) st) ps [])"
proof -
  have "fold (\<lambda>p st. AList.update p (createStanding p) st) ps st = st @ map (\<lambda>p. (p, createStanding p)) ps"
    if "distinct (map fst st @ ps)" for st
    using that
  proof (induction ps arbitrary: st)
    case (Cons p ps)
    have "AList.update p (createStanding p) st = st @ [(p, createStanding p)]" if "p \<notin> fst ` set st" for p st
      using that by (induction st) auto
    then show ?case using Cons by auto
  qed simp
  moreover assume "distinct ps"
  ultimately show ?thesis by (simp add: swiss_table_inv_def comp_def createStanding_def)
qed

lemma bump_keeps:
  assumes "\<And>s. g (f s) = g s"
  shows "map (g \<circ> snd) (bump p f st) = map (g \<circ> snd) st"
proof -
  have "map (g \<circ> snd) (AList.update p (f s) st) = map (g \<circ> snd) st" if "map_of st p = Some s" for s
    using that by (induction st) (auto simp: assms split: if_splits)
  then show ?thesis by (simp add: bump_def split: option.split)
qed

lemma buchholz_keeps: "map (sg_points \<circ> snd) (calculateBuchholz ms st) = map (sg_points \<circ> snd) st"
proof -
  have "map (sg_points \<circ> snd) (fold (\<lambda>(p, opponents) st. bump p (F p opponents st) st) ops st) = map (sg_points \<circ> snd) st"
    if "\<And>p ops st s. sg_points (F p ops st s) = sg_points s" for F :: "ustring \<Rightarrow> ustring list \<Rightarrow> stats \<Rightarrow> standing \<Rightarrow> standing" and ops
    by (induction ops arbitrary: st) (auto simp: bump_keeps that)
  then show ?thesis unfolding calculateBuchholz_def by simp
qed

text \<open>
  C29 (Swiss tables). A Swiss table is computed unless a completed match names a participant who is not entered, which
  is a TypeError; when it is, its points are those of the matches, one for each, and it has one row per
  participant.
\<close>

theorem swiss_points_shared:
  assumes "distinct participants"
  shows "(calculateSwissStandings ms participants = None \<longleftrightarrow>
      (\<exists>m\<in>set ms. counted m \<and> \<not> {the (tm_participant1 m), the (tm_participant2 m)} \<subseteq> set participants)) \<and>
    (\<forall>table. calculateSwissStandings ms participants = Some table \<longrightarrow>
      length table = length participants \<and>
      sum_list (map sg_points table) = of_nat (length (filter counted ms)))"
proof -
  let ?start = "fold (\<lambda>p st. AList.update p (createStanding p) st) participants []"
  note start = swiss_start [OF assms]
  have "length table = length participants \<and> sum_list (map sg_points table) = of_nat (length (filter counted ms))"
    if t: "calculateSwissStandings ms participants = Some table" for table
  proof -
    obtain st where st: "fold swiss_match ms (Some ?start) = Some st"
      "table = sort_key swiss_key (map snd (calculateBuchholz ms st))"
      using t by (auto simp: calculateSwissStandings_def)
    have inv: "swiss_table_inv participants ms st"
      using swiss_run [OF assms start st(1)] by simp
    have "length (calculateBuchholz ms st) = length st"
      using buchholz_keeps by (metis length_map)
    moreover have "sum_list (map sg_points (map snd (calculateBuchholz ms st))) = sum_list (map (sg_points \<circ> snd) st)"
      by (metis buchholz_keeps map_map)
    ultimately show ?thesis
      using inv by (auto simp: st(2) sum_sort_key swiss_table_inv_def comp_def)
  qed
  then show ?thesis
    using swiss_run_defined [OF assms start] by (simp add: calculateSwissStandings_def)
qed

lemma swiss_points_shared_witness:
  "let m = \<lparr>tm_id = ju ''m'', tm_phase = ju ''swiss'', tm_round = 1, tm_number = 1, tm_participant1 = Some (ju ''a''),
       tm_participant2 = Some (ju ''b''), tm_bestOf = 3, tm_score1 = 1, tm_score2 = 1, tm_winner = None, tm_loser = None,
       tm_status = Completed, tm_next = None, tm_loserNext = None, tm_groupId = None, tm_matchRef = None\<rparr>
   in calculateSwissStandings [m] [ju ''a''] = None \<and>
     (\<forall>table. calculateSwissStandings [m] [ju ''a'', ju ''b''] = Some table \<longrightarrow>
        length table = 2 \<and> sum_list (map sg_points table) = 1)"
  using swiss_points_shared [of "[ju ''a'']"] swiss_points_shared [of "[ju ''a'', ju ''b'']"]
  by (simp add: Let_def counted_def present_def ju_def)

text \<open>The rows of an elimination table are placed 1, 2, 3, and so on, with no participant twice.\<close>

definition rows_inv :: "elimination_row list \<Rightarrow> bool" where
  "rows_inv rows \<longleftrightarrow> distinct (map er_participant rows) \<and> map er_placement rows = [1..<Suc (length rows)]"

lemma place_row_inv: "rows_inv rows \<Longrightarrow> rows_inv (place_row p w l ph rnd rows)"
  by (auto simp: rows_inv_def place_row_def)

lemma place_row_covers: "er_participant ` set (place_row p w l ph rnd rows) = insert p (er_participant ` set rows)"
  by (auto simp: place_row_def)

lemma place_match_inv: "rows_inv rows \<Longrightarrow> rows_inv (place_match ms m rows)"
  by (simp add: place_match_def Let_def place_row_inv)

lemma place_matches_inv: "rows_inv rows \<Longrightarrow> rows_inv (fold (place_match ms) ms' rows)"
  by (induction ms' arbitrary: rows) (simp_all add: place_match_inv)

lemma place_match_covers:
  "er_participant ` set (place_match ms m rows) = er_participant ` set rows \<union>
     {p. p \<noteq> [] \<and> (tm_winner m = Some p \<or> tm_loser m = Some p)}"
  by (cases "tm_winner m"; cases "tm_loser m") (auto simp: place_match_def Let_def place_row_covers present_def)

lemma place_matches_covers:
  "er_participant ` set (fold (place_match ms) ms' rows) = er_participant ` set rows \<union>
     {p. p \<noteq> [] \<and> (\<exists>m\<in>set ms'. tm_winner m = Some p \<or> tm_loser m = Some p)}"
  by (induction ms' arbitrary: rows) (auto simp: place_match_covers)

lemma place_rest_inv:
  assumes "rows_inv rows" "distinct ps" "er_participant ` set rows \<inter> set ps \<subseteq> processed"
  shows "rows_inv (fold (place_rest processed) ps rows) \<and>
    er_participant ` set (fold (place_rest processed) ps rows) = er_participant ` set rows \<union> (set ps - processed)"
  using assms
proof (induction ps arbitrary: rows)
  case (Cons p ps)
  have "rows_inv (place_rest processed p rows)"
    using Cons.prems by (auto simp: rows_inv_def place_rest_def)
  moreover have "er_participant ` set (place_rest processed p rows) = er_participant ` set rows \<union> ({p} - processed)"
    by (auto simp: place_rest_def)
  ultimately show ?case
    using Cons.IH [of "place_rest processed p rows"] Cons.prems by (auto simp: Un_assoc)
qed simp

text \<open>
  Elimination tables. An elimination table places the entered participants and everyone named as winner or loser of a
  completed match, each exactly once, with the placements 1 to n in the order of the rows.
\<close>

theorem elimination_table_places_all:
  assumes "distinct participants"
  shows "distinct (map er_participant (calculateEliminationStandings ms participants)) \<and>
    map er_placement (calculateEliminationStandings ms participants) =
      [1..<Suc (length (calculateEliminationStandings ms participants))] \<and>
    er_participant ` set (calculateEliminationStandings ms participants) = set participants \<union>
      {p. p \<noteq> [] \<and> (\<exists>m\<in>set ms. tm_status m = Completed \<and> (tm_winner m = Some p \<or> tm_loser m = Some p))}"
proof -
  define sorted where "sorted = sort_key (\<lambda>m. - int (tm_round m)) (filter (\<lambda>m. tm_status m = Completed) ms)"
  define rows where "rows = fold (place_match ms) sorted []"
  have "rows_inv rows"
    unfolding rows_def by (rule place_matches_inv) (simp add: rows_inv_def)
  from place_rest_inv [OF this assms, of "er_participant ` set rows"]
  have "rows_inv (calculateEliminationStandings ms participants) \<and>
      er_participant ` set (calculateEliminationStandings ms participants) = er_participant ` set rows \<union> set participants"
    by (simp add: calculateEliminationStandings_def rows_def sorted_def Let_def)
  moreover have "er_participant ` set rows =
      {p. p \<noteq> [] \<and> (\<exists>m\<in>set ms. tm_status m = Completed \<and> (tm_winner m = Some p \<or> tm_loser m = Some p))}"
    by (auto simp: rows_def place_matches_covers sorted_def)
  ultimately show ?thesis by (auto simp: rows_inv_def)
qed

lemma elimination_table_places_all_witness:
  "distinct (map er_participant (calculateEliminationStandings [] [ju ''a'', ju ''b''])) \<and>
   er_participant ` set (calculateEliminationStandings [] [ju ''a'', ju ''b'']) = {ju ''a'', ju ''b''}"
  using elimination_table_places_all [of "[ju ''a'', ju ''b'']" "[]"] by (simp add: ju_def)

end
