(* ===== verification/ResourceQuery.thy ===== *)
theory ResourceQuery
  imports Partitions "HOL-Library.Product_Lexorder"
begin

text \<open>
  Queries of a resource: \<open>src/core/resource-query.class.ts\<close>, over the partitions of
  \<open>Partitions\<close>. A query plans a partition from its filter, reads pages of at most 50
  records and keeps those whose fields are identical to the filter. The records are listed in the order
  of their ids, the references in the order of their keys. Reading a record (\<open>resource.get\<close>) is
  the parameter \<open>get\<close>: no value is an error, which \<open>_executeBatchHelper\<close> turns into a missing
  entry of the batch; a record that cannot be decrypted is a value.

  Shown: the loop of \<open>query\<close> returns the slice of the matching records that its limit and offset
  name; after any inserts, updates and deletes a query whose plan gives every field of its
  partition returns exactly the records that match; and what is lost when the plan does not, or when a
  reference has lost its record.
\<close>

section \<open>Filters and plans\<close>

type_synonym query_filter = "part_value jsobj"
type_synonym doc = "part_value jsobj"

text \<open>\<open>===\<close> of a field that was read and a value of the filter; two objects are never the same.\<close>

definition strict_equal :: "part_value \<Rightarrow> part_value \<Rightarrow> bool" where
  "strict_equal v w = (case (v, w) of
     (Js (VArr xs), _) \<Rightarrow> False
   | (Js (VObj kvs), _) \<Rightarrow> False
   | (Js a, Js b) \<Rightarrow> a = b \<and> a \<noteq> VNum (ju ''NaN'')
   | _ \<Rightarrow> False)"

definition field_value :: "doc \<Rightarrow> ustring \<Rightarrow> part_value" where
  "field_value d k = (case map_of d k of None \<Rightarrow> Js VUndef | Some v \<Rightarrow> v)"

definition matches_filter :: "query_filter \<Rightarrow> doc \<Rightarrow> bool" where
  "matches_filter flt d = list_all (\<lambda>(k, v). strict_equal (field_value d k) v) (obj_entries flt)"

record planner_candidate =
  cd_partition :: ustring
  cd_values :: "part_value jsobj"
  cd_matchCount :: nat
  cd_totalFields :: nat

fun planned_values :: "part_host \<Rightarrow> query_filter \<Rightarrow> (ustring \<times> ustring) list \<Rightarrow> part_error + part_value jsobj" where
  "planned_values h flt [] = Inr []"
| "planned_values h flt ((f, rule) # fs) = (case map_of flt f of
     None \<Rightarrow> planned_values h flt fs
   | Some v \<Rightarrow> if nullish v then planned_values h flt fs
       else (case applyRule h v rule of
           Inl e \<Rightarrow> Inl e
         | Inr w \<Rightarrow> map_sum id ((#) (f, w)) (planned_values h flt fs)))"

definition buildPlannerCandidate :: "part_host \<Rightarrow> query_filter \<Rightarrow> ustring \<Rightarrow> part_fields \<Rightarrow> part_error + planner_candidate option" where
  "buildPlannerCandidate h flt p flds = map_sum id (\<lambda>vs. if vs = [] then None
     else Some \<lparr>cd_partition = p, cd_values = vs, cd_matchCount = length vs, cd_totalFields = length flds\<rparr>)
     (planned_values h flt (obj_entries flds))"

fun planner_candidates :: "part_host \<Rightarrow> query_filter \<Rightarrow> (ustring \<times> part_fields) list \<Rightarrow> part_error + planner_candidate list" where
  "planner_candidates h flt [] = Inr []"
| "planner_candidates h flt ((p, flds) # ps) =
     (if flds = [] then planner_candidates h flt ps
      else (case buildPlannerCandidate h flt p flds of
          Inl e \<Rightarrow> Inl e
        | Inr None \<Rightarrow> planner_candidates h flt ps
        | Inr (Some c) \<Rightarrow> map_sum id ((#) c) (planner_candidates h flt ps)))"

definition candidate_order :: "part_host \<Rightarrow> planner_candidate \<Rightarrow> int \<times> nat \<times> nat list" where
  "candidate_order h c = (- int (cd_matchCount c), cd_totalFields c, ph_collate h (cd_partition c))"

definition resolvePartitionFromFilter :: "part_host \<Rightarrow> part_resource \<Rightarrow> query_filter \<Rightarrow>
    part_error + (ustring \<times> part_value jsobj) option" where
  "resolvePartitionFromFilter h r flt =
     map_sum id (\<lambda>cs. case sort_key (candidate_order h) cs of
         [] \<Rightarrow> None
       | c # rest \<Rightarrow> Some (cd_partition c, cd_values c)) (planner_candidates h flt (obj_entries (pr_partitions r)))"

section \<open>Pages of records\<close>

type_synonym reader = "ustring \<Rightarrow> doc option"

definition amount_of :: "nat \<Rightarrow> nat" where
  "amount_of limit = (if limit = 0 then 1000 else limit)"

definition page_of :: "nat \<Rightarrow> nat \<Rightarrow> 'a list \<Rightarrow> 'a list" where
  "page_of limit offset xs = take (amount_of limit) (drop offset xs)"

definition listMain :: "reader \<Rightarrow> ustring list \<Rightarrow> nat \<Rightarrow> nat \<Rightarrow> doc list" where
  "listMain get ids limit offset = List.map_filter get (page_of limit offset (sort ids))"

definition partition_doc :: "ustring \<Rightarrow> (ustring \<times> ustring) list \<Rightarrow> ustring list \<Rightarrow> reader \<Rightarrow> ustring \<Rightarrow> doc option" where
  "partition_doc p flds keys get i = (case extractValuesFromKey i keys flds of
     Inl e \<Rightarrow> None
   | Inr vs \<Rightarrow> map_option (\<lambda>d. AList.update (ju ''_partitionValues'') (Js (VObj (map (\<lambda>(k, s). (k, VStr s)) vs)))
         (AList.update (ju ''_partition'') (Js (VStr p)) d)) (get i))"

definition processPartitionResults :: "part_host \<Rightarrow> ustring \<Rightarrow> part_fields \<Rightarrow> ustring list \<Rightarrow> reader \<Rightarrow> doc list" where
  "processPartitionResults h p flds keys get =
     List.map_filter (partition_doc p (partition_sorted_fields h flds) keys get) (extractIdsFromKeys keys)"

definition listPartition :: "part_host \<Rightarrow> part_resource \<Rightarrow> reader \<Rightarrow> ustring \<Rightarrow> part_value jsobj \<Rightarrow> nat \<Rightarrow> nat \<Rightarrow>
    ref_store \<Rightarrow> part_error + doc list" where
  "listPartition h r get p values limit offset st = (case map_of (pr_partitions r) p of
     None \<Rightarrow> Inr []
   | Some flds \<Rightarrow> (case buildPrefix h r p flds values of
       Inl e \<Rightarrow> Inl e
     | Inr prefix \<Rightarrow> Inr (processPartitionResults h p flds (page_of limit offset (getAllKeys prefix st)) get)))"

text \<open>The only errors of the partition are those of a rule, which are not caught.\<close>

definition list_docs :: "part_host \<Rightarrow> part_resource \<Rightarrow> reader \<Rightarrow> (ustring \<times> part_value jsobj) option \<Rightarrow> nat \<Rightarrow> nat \<Rightarrow>
    ustring list \<Rightarrow> ref_store \<Rightarrow> part_error + doc list" where
  "list_docs h r get part limit offset ids st = (case part of
     None \<Rightarrow> Inr (listMain get ids limit offset)
   | Some (p, values) \<Rightarrow> listPartition h r get p values limit offset st)"

lemma map_filter_length: "length (List.map_filter f xs) \<le> length xs"
  by (simp add: map_filter_def)

lemma page_of_Nil: "length xs \<le> offset \<Longrightarrow> page_of limit offset xs = []"
  by (simp add: page_of_def)

lemma length_getAllKeys: "length (getAllKeys prefix st) \<le> length st"
proof -
  have "length (getAllKeys prefix st) = length (filter (\<lambda>k. starts_with k prefix) (map fst st))"
    by (simp only: getAllKeys_def length_sort)
  also have "\<dots> \<le> length (map fst st)"
    by (rule length_filter_le)
  finally show ?thesis by simp
qed

lemma list_docs_offset:
  assumes "list_docs h r get part limit offset ids st = Inr batch" "batch \<noteq> []"
  shows "offset < max (length ids) (length st)"
proof (rule ccontr)
  assume "\<not> offset < max (length ids) (length st)"
  then have "page_of limit offset (sort ids) = []" "page_of limit offset (getAllKeys prefix st) = []" for prefix
    using length_getAllKeys [of prefix st] by (simp_all add: page_of_Nil)
  then have "listMain get ids limit offset = []"
    "processPartitionResults h p flds (page_of limit offset (getAllKeys prefix st)) get = []" for p flds prefix
    by (simp_all only: listMain_def processPartitionResults_def extractIdsFromKeys_def map_filter_simps)
  then show False
    using assms by (cases part) (auto simp: list_docs_def listPartition_def split: option.splits sum.splits)
qed

section \<open>The loop of a query\<close>

function query_loop :: "part_host \<Rightarrow> part_resource \<Rightarrow> reader \<Rightarrow> query_filter \<Rightarrow> (ustring \<times> part_value jsobj) option \<Rightarrow>
    ustring list \<Rightarrow> ref_store \<Rightarrow> nat \<Rightarrow> nat \<Rightarrow> doc list \<Rightarrow> part_error + doc list" where
  "query_loop h r get flt part ids st limit offset results =
     (if length results < limit
      then (case list_docs h r get part (min limit 50) offset ids st of
          Inl e \<Rightarrow> Inl e
        | Inr batch \<Rightarrow>
            if batch = [] then Inr results
            else if length batch < min limit 50 then Inr (results @ filter (matches_filter flt) batch)
            else query_loop h r get flt part ids st limit (offset + min limit 50)
                   (results @ filter (matches_filter flt) batch))
      else Inr results)"
  by pat_completeness auto
termination
  by (relation "measure (\<lambda>(h, r, get, flt, part, ids, st, limit, offset, results). max (length ids) (length st) - offset)")
    (auto dest!: list_docs_offset)

declare query_loop.simps [simp del]

definition query :: "part_host \<Rightarrow> part_resource \<Rightarrow> reader \<Rightarrow> query_filter \<Rightarrow> (ustring \<times> part_value jsobj) option \<Rightarrow>
    ustring list \<Rightarrow> ref_store \<Rightarrow> nat \<Rightarrow> nat \<Rightarrow> part_error + doc list" where
  "query h r get flt part ids st limit offset =
     (if flt = [] then list_docs h r get part limit offset ids st
      else (case (case part of None \<Rightarrow> resolvePartitionFromFilter h r flt | Some pv \<Rightarrow> Inr part) of
          Inl e \<Rightarrow> Inl e
        | Inr plan \<Rightarrow> map_sum id (take limit) (query_loop h r get flt plan ids st limit offset [])))"

text \<open>
  A loop over pages that have a document for every place of a list: the documents may differ in what
  \<open>tag\<close> forgets, which is what a page writes on them.
\<close>

lemma query_loop_slice:
  assumes pages: "\<And>off. \<exists>docs. list_docs h r get part (min limit 50) off ids st = Inr docs \<and>
      map tag docs = take (min limit 50) (drop off T)"
    and Q: "\<And>d. matches_filter flt d \<longleftrightarrow> Q (tag d)"
  shows "\<exists>res. query_loop h r get flt part ids st limit offset acc = Inr res \<and>
    take limit (map tag res) = take limit (map tag acc @ filter Q (drop offset T))"
  using assms
proof (induction h r get flt part ids st limit offset acc rule: query_loop.induct)
  case (1 h r get flt part ids st limit offset acc)
  let ?n = "min limit 50"
  obtain docs where docs: "list_docs h r get part ?n offset ids st = Inr docs" "map tag docs = take ?n (drop offset T)"
    using "1.prems"(1) by blast
  have hits: "map tag (filter (matches_filter flt) docs) = filter Q (take ?n (drop offset T))"
  proof -
    have "matches_filter flt = Q \<circ> tag"
      using "1.prems"(2) by (simp add: fun_eq_iff)
    then show ?thesis
      by (simp flip: docs(2) filter_map)
  qed
  show ?case
  proof (cases "length acc < limit \<and> docs \<noteq> [] \<and> length docs = ?n")
    case True
    then have "0 < ?n" "\<not> length docs < ?n" by auto
    with True 1(1) [of docs] docs(1) "1.prems" obtain res where
      res: "query_loop h r get flt part ids st limit (offset + ?n) (acc @ filter (matches_filter flt) docs) = Inr res"
      "take limit (map tag res) = take limit (map tag (acc @ filter (matches_filter flt) docs) @ filter Q (drop (offset + ?n) T))"
      by metis
    have "filter Q (drop offset T) = filter Q (take ?n (drop offset T)) @ filter Q (drop (offset + ?n) T)"
      by (metis add.commute append_take_drop_id drop_drop filter_append)
    then show ?thesis
      using res True docs(1) by (subst query_loop.simps) (simp add: hits)
  next
    case False
    have len: "length docs = min (length T - offset) ?n"
      using docs(2) by (metis length_map length_take length_drop)
    then have last: "docs = [] \<or> length docs < ?n \<Longrightarrow> length acc < limit \<Longrightarrow> take ?n (drop offset T) = drop offset T"
      by (cases "length T - offset < ?n") auto
    have "length docs \<le> ?n"
      unfolding len by (rule min.cobounded2)
    then consider "\<not> length acc < limit" | "length acc < limit" "docs = []" | "length acc < limit" "docs \<noteq> []" "length docs < ?n"
      using False by linarith
    then show ?thesis
    proof cases
      case 1
      then show ?thesis by (subst query_loop.simps) simp
    next
      case 2
      then show ?thesis
        using last docs hits by (subst query_loop.simps) auto
    next
      case 3
      then show ?thesis
        using last docs(1) hits by (subst query_loop.simps) auto
    qed
  qed
qed

section \<open>A plan that gives every field of its partition\<close>

definition plain_rule :: "ustring \<Rightarrow> bool" where
  "plain_rule rule \<longleftrightarrow> \<not> js_includes rule (ju ''date'')"

lemma applyRule_plain:
  assumes "plain_rule rule" "\<not> nullish v"
  obtains w where "applyRule h v rule = Inr w" "\<not> nullish w" "applyRule h w rule = Inr w"
proof -
  define w where "w = (case (maxlength_of rule, v) of
      (Some n, Js (VStr s)) \<Rightarrow> if length s > n then Js (VStr (take n s)) else v | _ \<Rightarrow> v)"
  have "\<not> nullish w" "(case (maxlength_of rule, w) of
      (Some n, Js (VStr s)) \<Rightarrow> if length s > n then Js (VStr (take n s)) else w | _ \<Rightarrow> w) = w"
    using assms(2) by (auto simp: w_def nullish_def split: option.splits part_value.splits jsvalue.splits)
  moreover have "applyRule h v rule = Inr w"
    using assms by (simp add: applyRule_def plain_rule_def w_def)
  moreover from calculation have "applyRule h w rule = Inr w"
    using assms(1) by (simp add: applyRule_def plain_rule_def)
  ultimately show thesis using that by blast
qed

lemma strict_equal_same: "strict_equal v w \<Longrightarrow> v = w"
  by (auto simp: strict_equal_def split: part_value.splits jsvalue.splits if_splits)

lemma planned_values_Cons:
  assumes "planned_values h flt ((f, rule) # fs) = Inr vals"
  obtains (skip) "planned_values h flt fs = Inr vals" "\<And>v. map_of flt f = Some v \<Longrightarrow> nullish v"
  | (take) v w rest where "map_of flt f = Some v" "\<not> nullish v" "applyRule h v rule = Inr w"
      "planned_values h flt fs = Inr rest" "vals = (f, w) # rest"
  using assms by (cases "map_of flt f"; cases "planned_values h flt fs") (auto split: if_splits sum.splits)

lemma planned_values_keys: "planned_values h flt fs = Inr vals \<Longrightarrow> fst ` set vals \<subseteq> fst ` set fs"
proof (induction fs arbitrary: vals)
  case (Cons x fs)
  obtain f rule where x: "x = (f, rule)" by (cases x)
  from Cons.prems [unfolded x] show ?case
    by (cases rule: planned_values_Cons) (use Cons.IH x in auto)
qed simp

lemma planned_value:
  assumes "planned_values h flt fs = Inr vals" "distinct (map fst fs)" "(f, rule) \<in> set fs"
    and v: "map_of flt f = Some v" "\<not> nullish v"
  shows "\<exists>w. applyRule h v rule = Inr w \<and> map_of vals f = Some w"
  using assms(1,2,3)
proof (induction fs arbitrary: vals)
  case (Cons x fs)
  obtain g rule' where x: "x = (g, rule')" by (cases x)
  have own: "g = f \<Longrightarrow> rule' = rule" "g \<noteq> f \<Longrightarrow> (f, rule) \<in> set fs" "distinct (map fst fs)"
    using Cons.prems(2,3) by (auto simp: x intro: rev_image_eqI)
  from Cons.prems(1) [unfolded x] show ?case
  proof (cases rule: planned_values_Cons)
    case skip
    then show ?thesis using Cons.IH own v by metis
  next
    case (take u w rest)
    then show ?thesis using Cons.IH [OF take(4)] own v by (cases "g = f") auto
  qed
qed simp

lemma plan_source:
  assumes "resolvePartitionFromFilter h r flt = Inr (Some (p, values))"
  obtains flds where "(p, flds) \<in> set (pr_partitions r)" "flds \<noteq> []" "planned_values h flt (obj_entries flds) = Inr values"
proof -
  have sound: "\<exists>flds. (cd_partition c, flds) \<in> set ps \<and> flds \<noteq> [] \<and> planned_values h flt (obj_entries flds) = Inr (cd_values c)"
    if "planner_candidates h flt ps = Inr cs" "c \<in> set cs" for ps cs c
    using that
  proof (induction h flt ps arbitrary: cs rule: planner_candidates.induct)
    case (2 h flt q flds ps)
    then show ?case
      by (cases "planner_candidates h flt ps"; cases "planned_values h flt (obj_entries flds)")
        (fastforce simp: buildPlannerCandidate_def split: if_splits)+
  qed simp
  obtain cs c rest where cs: "planner_candidates h flt (obj_entries (pr_partitions r)) = Inr cs"
    "sort_key (candidate_order h) cs = c # rest" "p = cd_partition c" "values = cd_values c"
    using assms by (cases "planner_candidates h flt (obj_entries (pr_partitions r))")
      (auto simp: resolvePartitionFromFilter_def split: list.splits)
  have "c \<in> set cs"
    using cs(2) by (metis list.set_intros(1) set_sort)
  from sound [OF cs(1) this] show thesis
    using that cs(3,4) by auto
qed

lemma segments_agree:
  assumes "\<forall>(f, rule) \<in> set fs. 46 \<notin> set f \<and> plain_rule rule \<and>
    (\<exists>v w. \<not> nullish v \<and> field_value d f = v \<and> applyRule h v rule = Inr w \<and> map_of values f = Some w)"
  shows "\<exists>ss. key_segments h d fs = Inr (Some ss) \<and> value_segments h values fs = Inr ss \<and> length ss = length fs"
  using assms
proof (induction fs)
  case (Cons x fs)
  obtain f rule where x: "x = (f, rule)" by (cases x)
  obtain v w where v: "\<not> nullish v" "field_value d f = v" "applyRule h v rule = Inr w" "map_of values f = Some w"
    and f: "46 \<notin> set f" "plain_rule rule"
    using Cons.prems by (auto simp: x)
  have "\<not> nullish w" "applyRule h w rule = Inr w"
    using applyRule_plain [OF f(2) v(1), of h] v(3) by auto
  moreover have "getNestedFieldValue d f = v"
    using v(2) f(1) by (simp add: getNestedFieldValue_def field_value_def)
  ultimately show ?case
    using Cons v by (auto simp: x)
qed simp

section \<open>The documents of a partition\<close>

definition names_ok :: "part_resource \<Rightarrow> bool" where
  "names_ok r \<longleftrightarrow> list_all (\<lambda>(p, flds). field_names_ok flds) (pr_partitions r)"

definition key_id :: "ustring \<Rightarrow> ustring option" where
  "key_id k = map_option (drop 3) (find (\<lambda>part. starts_with part (ju ''id='')) (split_on 47 k))"

lemma extractIdsFromKeys_eq: "extractIdsFromKeys = List.map_filter key_id"
  by (simp add: fun_eq_iff extractIdsFromKeys_def key_id_def [abs_def])

lemma id_segment: "starts_with s (ju ''id='') \<Longrightarrow> s = n @ 61 # t \<Longrightarrow> 61 \<notin> set n \<Longrightarrow> n = ju ''id''"
  by (auto simp: starts_with_iff js_simps append_eq_Cons_conv)

lemma record_key_form:
  assumes ok: "record_ok h r i d" "resource_ok r" "names_ok r" and k: "ref_key h r i d p = Some k"
  obtains flds ss where "map_of (pr_partitions r) p = Some flds"
    "key_segments h d (partition_sorted_fields h flds) = Inr (Some ss)" "ss \<noteq> []"
    "k = join [47] (part_root r p @ ss @ [ju ''id='' @ i])"
    "split_on 47 k = part_root r p @ ss @ [ju ''id='' @ i]" "key_id k = Some i"
proof -
  obtain flds where flds: "map_of (pr_partitions r) p = Some flds"
    using k by (auto simp: ref_key_def getKey_def split: option.splits)
  obtain ss where ss: "key_segments h d (partition_sorted_fields h flds) = Inr (Some ss)" "list_all plain_segment ss"
    using ok(1) flds
  proof (cases rule: record_segments)
    case none
    then show thesis using k flds by (simp add: ref_key_def getKey_def)
  qed (use that in blast)
  have p: "p \<in> fst ` set (pr_partitions r)"
    using flds by (auto dest!: map_of_SomeD intro: rev_image_eqI)
  have plain: "list_all plain_segment (part_root r p @ ss @ [ju ''id='' @ i])"
    using ok(1,2) p ss(2) by (auto simp: record_ok_def resource_ok_def list_all_iff part_root_def plain_segment_def js_simps)
  have form: "ss \<noteq> []" "k = join [47] (part_root r p @ ss @ [ju ''id='' @ i])"
    using k flds ss ok(1) path_join_plain [OF plain]
    by (auto simp: ref_key_def getKey_def truthy_id_def record_ok_def split: if_splits)
  have split: "split_on 47 k = part_root r p @ ss @ [ju ''id='' @ i]"
    unfolding form(2) by (rule split_on_join) (use plain in \<open>auto simp: list_all_iff plain_segment_def\<close>)
  have "find (\<lambda>part. starts_with part (ju ''id='')) (split_on 47 k) = Some (ju ''id='' @ i)"
    unfolding split
  proof (rule find_unique)
    have "field_names_ok flds"
      using ok(3) flds by (auto simp: names_ok_def list_all_iff dest: map_of_SomeD)
    then have "61 \<notin> set f \<and> f \<noteq> ju ''id''" if "f \<in> fst ` set (partition_sorted_fields h flds)" for f
      using that partition_fields_facts(1) [of h flds] by (auto simp: field_names_ok_def list_all_iff)
    then have "\<not> starts_with s (ju ''id='')" if "s \<in> set ss" for s
      using that key_segments_map [OF ss(1)] by (auto simp: field_segment_def dest!: id_segment)
    moreover have "\<not> starts_with s (ju ''id='')" if "s \<in> set (part_root r p)" for s
      using that by (auto simp: part_root_def js_simps)
    ultimately show "\<forall>y \<in> set (part_root r p @ ss @ [ju ''id='' @ i]). y \<noteq> ju ''id='' @ i \<longrightarrow> \<not> starts_with y (ju ''id='')"
      by auto
  qed simp_all
  then have "key_id k = Some i"
    by (simp add: key_id_def js_simps)
  with flds ss(1) form split show thesis by (rule that)
qed

text \<open>What a page writes on a document, and the documents without it.\<close>

definition page_fields :: "ustring list" where
  "page_fields = [ju ''_partition'', ju ''_partitionValues'']"

definition untagged :: "doc \<Rightarrow> doc" where
  "untagged d = AList.delete (ju ''_partition'') (AList.delete (ju ''_partitionValues'') d)"

definition plain_doc :: "doc \<Rightarrow> bool" where
  "plain_doc d \<longleftrightarrow> set page_fields \<inter> fst ` set d = {}"

lemma delete_plain: "plain_doc d \<Longrightarrow> k \<in> set page_fields \<Longrightarrow> AList.delete k d = d"
  by (rule delete_id) (auto simp: plain_doc_def)

lemma untagged_plain [simp]: "plain_doc d \<Longrightarrow> untagged d = d"
  by (simp add: untagged_def delete_plain page_fields_def)

lemma untagged_update [simp]:
  "plain_doc d \<Longrightarrow> untagged (AList.update (ju ''_partitionValues'') v (AList.update (ju ''_partition'') w d)) = d"
  by (simp add: untagged_def delete_update_same delete_twist [of "ju ''_partition''"] delete_plain page_fields_def)

lemma matches_untagged:
  assumes "set page_fields \<inter> fst ` set flt = {}"
  shows "matches_filter flt (untagged d) = matches_filter flt d"
proof -
  have "field_value (untagged d) k = field_value d k" if "k \<in> fst ` set flt" for k
  proof -
    have "k \<notin> set page_fields"
      using that assms by blast
    then have "k \<noteq> ju ''_partition''" "k \<noteq> ju ''_partitionValues''"
      by (auto simp: page_fields_def)
    then show ?thesis by (simp add: field_value_def untagged_def map_of_delete)
  qed
  then show ?thesis
    by (fastforce simp: matches_filter_def list_all_iff)
qed

definition listed_doc :: "doc jsobj \<Rightarrow> ustring \<Rightarrow> doc" where
  "listed_doc live k = the (map_of live (the (key_id k)))"

lemma map_filter_all: "\<forall>x \<in> set xs. f x \<noteq> None \<Longrightarrow> List.map_filter f xs = map (\<lambda>x. the (f x)) xs"
  by (induction xs) (auto simp: map_filter_simps)

lemma listed_key:
  assumes "part_inv h r (live, st)" "resource_ok r" "names_ok r" "k \<in> ref_keys st"
  obtains i d p where "key_id k = Some i" "map_of live i = Some d" "ju ''id='' @ i \<in> set (split_on 47 k)"
    "record_ok h r i d" "ref_key h r i d p = Some k"
proof -
  obtain i d p where d: "map_of live i = Some d" "ref_key h r i d p = Some k" "record_ok h r i d"
    using assms(1,4) by (auto simp: part_inv_def record_keys_def)
  obtain ss where "key_id k = Some i" "split_on 47 k = part_root r p @ ss @ [ju ''id='' @ i]"
    by (rule record_key_form [OF d(3) assms(2,3) d(2)])
  with d show thesis by (intro that) simp_all
qed

lemma partition_page:
  assumes inv: "part_inv h r (live, st)" "resource_ok r" "names_ok r" and ks: "set ks \<subseteq> ref_keys st"
    and plain: "\<forall>d \<in> snd ` set live. plain_doc d"
  shows "map untagged (processPartitionResults h p flds ks (map_of live)) = map (listed_doc live) ks"
proof -
  let ?f = "partition_doc p (partition_sorted_fields h flds) ks (map_of live)"
  have one: "\<exists>i d. key_id k = Some i \<and> map_of live i = Some d \<and>
      (\<exists>e. ?f i = Some e \<and> untagged e = d)" if k: "k \<in> set ks" for k
  proof -
    obtain i d where i: "key_id k = Some i" "map_of live i = Some d" "ju ''id='' @ i \<in> set (split_on 47 k)"
      by (rule listed_key [OF inv, of k]) (use k ks in auto)
    have "find (\<lambda>key. list_ex (\<lambda>s. s = ju ''id='' @ i) (split_on 47 key)) ks \<noteq> None"
      using k i(3) by (auto simp: find_None_iff list_ex_iff)
    moreover have "plain_doc d"
      using plain i(2) by (auto dest!: map_of_SomeD)
    ultimately show ?thesis
      using i by (auto simp: partition_doc_def extractValuesFromKey_def)
  qed
  have "extractIdsFromKeys ks = map (\<lambda>k. the (key_id k)) ks"
    unfolding extractIdsFromKeys_eq using one by (intro map_filter_all) fastforce
  moreover have "List.map_filter ?f (map (\<lambda>k. the (key_id k)) ks) = map (\<lambda>i. the (?f i)) (map (\<lambda>k. the (key_id k)) ks)"
    using one by (intro map_filter_all) fastforce
  ultimately have "processPartitionResults h p flds ks (map_of live) = map (\<lambda>k. the (?f (the (key_id k)))) ks"
    by (simp add: processPartitionResults_def comp_def)
  moreover have "untagged (the (?f (the (key_id k)))) = listed_doc live k" if "k \<in> set ks" for k
    using one [OF that] by (auto simp: listed_doc_def)
  ultimately show ?thesis by simp
qed

text \<open>The references that a plan lists are those of the records with the values of the plan.\<close>

definition plan_covers :: "query_filter \<Rightarrow> part_fields \<Rightarrow> bool" where
  "plan_covers flt flds \<longleftrightarrow> list_all (\<lambda>(f, rule). 46 \<notin> set f \<and> plain_rule rule \<and>
     (case map_of flt f of None \<Rightarrow> False | Some v \<Rightarrow> \<not> nullish v)) flds"

lemma matching_values:
  assumes d: "\<And>f v. map_of flt f = Some v \<Longrightarrow> field_value d f = v" and covers: "plan_covers flt flds" and names: "field_names_ok flds"
    and vals: "planned_values h flt (obj_entries flds) = Inr vals"
  obtains ss where "key_segments h d (partition_sorted_fields h flds) = Inr (Some ss)"
    "value_segments h vals (partition_sorted_fields h flds) = Inr ss"
proof -
  have dist: "distinct (map fst (obj_entries flds))"
    using names distinct_obj_keys [of flds] by (simp add: field_names_ok_def obj_keys_def)
  have "\<exists>ss. key_segments h d (partition_sorted_fields h flds) = Inr (Some ss) \<and>
      value_segments h vals (partition_sorted_fields h flds) = Inr ss \<and> length ss = length (partition_sorted_fields h flds)"
  proof (rule segments_agree, safe)
    fix f rule
    assume "(f, rule) \<in> set (partition_sorted_fields h flds)"
    then have f: "(f, rule) \<in> set flds" by (simp add: partition_fields_facts)
    then show "plain_rule rule" "46 \<in> set f \<Longrightarrow> False"
      using covers by (auto simp: plan_covers_def list_all_iff)
    obtain v where v: "map_of flt f = Some v" "\<not> nullish v"
      using covers f by (fastforce simp: plan_covers_def list_all_iff split: option.splits)
    then have "field_value d f = v" using d by blast
    then show "\<exists>v w. \<not> nullish v \<and> field_value d f = v \<and> applyRule h v rule = Inr w \<and> map_of vals f = Some w"
      using planned_value [OF vals dist, of f rule v] f v by auto
  qed
  then show thesis using that by blast
qed

lemma matches_value: "matches_filter flt d \<Longrightarrow> map_of flt f = Some v \<Longrightarrow> field_value d f = v"
  by (rule strict_equal_same) (auto simp: matches_filter_def list_all_iff dest: map_of_SomeD)

lemma plan_prefix:
  assumes "plan_covers flt flds" "field_names_ok flds" "planned_values h flt (obj_entries flds) = Inr vals"
  shows "\<exists>prefix. buildPrefix h r p flds vals = Inr prefix"
  by (rule matching_values [of flt flt, OF _ assms]) (simp_all add: field_value_def buildPrefix_def)

lemma matching_key_listed:
  assumes ok: "record_ok h r i d" "resource_ok r" "names_ok r" and d: "matches_filter flt d"
    and p: "map_of (pr_partitions r) p = Some flds" "flds \<noteq> []" "plan_covers flt flds"
    and vals: "planned_values h flt (obj_entries flds) = Inr vals"
  obtains k prefix where "buildPrefix h r p flds vals = Inr prefix" "ref_key h r i d p = Some k" "starts_with k prefix"
proof -
  have names: "field_names_ok flds"
    using ok(3) p(1) by (auto simp: names_ok_def list_all_iff dest: map_of_SomeD)
  obtain ss where ss: "key_segments h d (partition_sorted_fields h flds) = Inr (Some ss)"
    "value_segments h vals (partition_sorted_fields h flds) = Inr ss"
    by (rule matching_values [OF matches_value [OF d] p(3) names vals])
  have "partition_sorted_fields h flds \<noteq> []"
    using p(2) partition_fields_facts(1) [of h flds] by (metis set_empty)
  then have "ss \<noteq> []"
    using key_segments_map [OF ss(1)] by simp
  then obtain k where k: "ref_key h r i d p = Some k"
    using ss(1) p(1) ok(1) by (simp add: ref_key_def getKey_def truthy_id_def record_ok_def)
  moreover have "k = join [47] ((part_root r p @ ss) @ [ju ''id='' @ i])"
    using ss(1) p(1) by (auto intro: record_key_form [OF ok k])
  moreover have "\<dots> = join [47] (part_root r p @ ss) @ [47] @ ju ''id='' @ i"
    by (subst join_append) (simp_all add: part_root_def)
  moreover have "buildPrefix h r p flds vals = Inr (join [47] (part_root r p @ ss))"
    by (simp add: buildPrefix_def ss(2))
  ultimately show thesis using that starts_with_append by metis
qed

section \<open>A query finds what matches\<close>

lemma query_pages_partition:
  assumes inv: "part_inv h r (live, st)" "resource_ok r" "names_ok r" and plain: "\<forall>d \<in> snd ` set live. plain_doc d"
    and p: "map_of (pr_partitions r) p = Some flds" "buildPrefix h r p flds vals = Inr prefix" and n: "0 < n"
  shows "\<exists>docs. list_docs h r (map_of live) (Some (p, vals)) n off ids st = Inr docs \<and>
    map untagged docs = take n (drop off (map (listed_doc live) (getAllKeys prefix st)))"
proof -
  let ?ks = "take n (drop off (getAllKeys prefix st))"
  have "set ?ks \<subseteq> ref_keys st"
    by (auto dest!: in_set_takeD in_set_dropD)
  from partition_page [OF inv this plain] show ?thesis
    using p n by (simp add: list_docs_def listPartition_def page_of_def amount_of_def take_map drop_map)
qed

lemma query_pages_main:
  assumes "distinct (map fst live)" and plain: "\<forall>d \<in> snd ` set live. plain_doc d" and n: "0 < n"
  shows "\<exists>docs. list_docs h r (map_of live) None n off (map fst live) st = Inr docs \<and>
    map untagged docs = take n (drop off (map (\<lambda>i. the (map_of live i)) (sort (map fst live))))"
proof -
  let ?is = "take n (drop off (sort (map fst live)))"
  have known: "map_of live i \<noteq> None \<and> plain_doc (the (map_of live i))" if "i \<in> set ?is" for i
  proof -
    have "i \<in> fst ` set live"
      using that by (auto dest!: in_set_takeD in_set_dropD)
    then obtain d where "map_of live i = Some d"
      by (metis map_of_eq_None_iff not_None_eq)
    then show ?thesis
      using plain by (auto dest!: map_of_SomeD)
  qed
  then have "List.map_filter (map_of live) ?is = map (\<lambda>i. the (map_of live i)) ?is"
    by (intro map_filter_all) blast
  moreover have "map untagged (map (\<lambda>i. the (map_of live i)) ?is) = map (\<lambda>i. the (map_of live i)) ?is"
    using known by (simp add: comp_def)
  ultimately show ?thesis
    using n by (simp add: list_docs_def listMain_def page_of_def amount_of_def take_map drop_map)
qed

text \<open>The list of documents that a plan goes through.\<close>

definition planned_docs :: "part_host \<Rightarrow> part_resource \<Rightarrow> doc jsobj \<Rightarrow> ref_store \<Rightarrow> (ustring \<times> part_value jsobj) option \<Rightarrow> doc list" where
  "planned_docs h r live st plan = (case plan of
     None \<Rightarrow> map (\<lambda>i. the (map_of live i)) (sort (map fst live))
   | Some (p, vals) \<Rightarrow> (case buildPrefix h r p (the (map_of (pr_partitions r) p)) vals of
       Inl e \<Rightarrow> []
     | Inr prefix \<Rightarrow> map (listed_doc live) (getAllKeys prefix st)))"

lemma length_planned_docs: "length (planned_docs h r live st plan) \<le> max (length live) (length st)"
proof (cases plan)
  case (Some pv)
  have "length (getAllKeys prefix st) \<le> max (length live) (length st)" for prefix
    using length_getAllKeys max.cobounded2 by (rule order_trans)
  then show ?thesis
    by (cases pv; cases "buildPrefix h r (fst pv) (the (map_of (pr_partitions r) (fst pv))) (snd pv)")
      (simp_all add: planned_docs_def Some)
qed (simp add: planned_docs_def)

lemma planned_docs_matches:
  assumes inv: "part_inv h r (live, st)" "resource_ok r" "names_ok r"
    and plan: "resolvePartitionFromFilter h r flt = Inr plan"
      "\<forall>p vals. plan = Some (p, vals) \<longrightarrow> plan_covers flt (the (map_of (pr_partitions r) p))"
  shows "{d \<in> set (planned_docs h r live st plan). matches_filter flt d} = {d. \<exists>i. map_of live i = Some d \<and> matches_filter flt d}"
proof (cases plan)
  case None
  have "set (planned_docs h r live st plan) = ran (map_of live)"
    by (auto simp: planned_docs_def None ran_def image_iff simp flip: dom_map_of_conv_image_fst)
      (metis domI option.sel)
  then show ?thesis by (auto simp: ran_def)
next
  case (Some pv)
  obtain p vals where pv: "plan = Some (p, vals)" using Some by (cases pv) simp
  obtain flds where flds: "(p, flds) \<in> set (pr_partitions r)" "flds \<noteq> []" "planned_values h flt (obj_entries flds) = Inr vals"
    using plan(1) pv by (auto elim: plan_source)
  have p: "map_of (pr_partitions r) p = Some flds"
    using flds(1) inv(2) by (simp add: resource_ok_def)
  have covers: "plan_covers flt flds" using plan(2) pv p by simp
  show ?thesis
  proof (intro set_eqI iffI; clarsimp)
    fix d
    assume "d \<in> set (planned_docs h r live st plan)"
    then obtain k where "k \<in> ref_keys st" "d = listed_doc live k"
      by (auto simp: planned_docs_def pv p split: sum.splits)
    then show "\<exists>i. map_of live i = Some d"
      using listed_key [OF inv] by (metis listed_doc_def option.sel)
  next
    fix d i
    assume d: "matches_filter flt d" "map_of live i = Some d"
    have ok: "record_ok h r i d" using inv(1) d(2) by (simp add: part_inv_def)
    obtain k prefix where k: "buildPrefix h r p flds vals = Inr prefix" "ref_key h r i d p = Some k" "starts_with k prefix"
      by (rule matching_key_listed [OF ok inv(2,3) d(1) p flds(2) covers flds(3)])
    have "p \<in> partition_names r"
      using flds(1) by (auto intro: rev_image_eqI)
    then have "k \<in> ref_keys st"
      using inv(1) d(2) k(2) by (auto simp: part_inv_def record_keys_def)
    moreover have "listed_doc live k = d"
      using d(2) by (auto simp: listed_doc_def intro: record_key_form [OF ok inv(2,3) k(2)])
    ultimately show "d \<in> set (planned_docs h r live st plan)"
      using k by (auto simp: planned_docs_def pv p intro!: rev_image_eqI [of k])
  qed
qed

lemma query_planned:
  assumes inv: "part_inv h r (live, st)" "resource_ok r" "names_ok r" and dist: "distinct (map fst live)"
    and plain: "\<forall>d \<in> snd ` set live. plain_doc d" "set page_fields \<inter> fst ` set flt = {}" and flt: "flt \<noteq> []"
    and plan: "resolvePartitionFromFilter h r flt = Inr plan"
      "\<forall>p vals. plan = Some (p, vals) \<longrightarrow> (\<exists>flds prefix. map_of (pr_partitions r) p = Some flds \<and> buildPrefix h r p flds vals = Inr prefix)"
    and limit: "0 < limit"
  shows "\<exists>docs. query h r (map_of live) flt None (map fst live) st limit offset = Inr docs \<and>
    map untagged docs = take limit (filter (matches_filter flt) (drop offset (planned_docs h r live st plan)))"
proof -
  have n: "0 < min limit 50" using limit by simp
  have pages: "\<exists>docs. list_docs h r (map_of live) plan (min limit 50) off (map fst live) st = Inr docs \<and>
      map untagged docs = take (min limit 50) (drop off (planned_docs h r live st plan))" for off
    using query_pages_main [OF dist plain(1) n] query_pages_partition [OF inv plain(1) _ _ n] plan(2)
    by (cases plan) (fastforce simp: planned_docs_def)+
  obtain res where "query_loop h r (map_of live) flt plan (map fst live) st limit offset [] = Inr res"
    "take limit (map untagged res) = take limit (filter (matches_filter flt) (drop offset (planned_docs h r live st plan)))"
    using query_loop_slice [where tag = untagged and acc = "[]", OF pages matches_untagged [OF plain(2), symmetric]] by auto
  then show ?thesis
    using flt plan(1) by (simp add: query_def take_map)
qed



text \<open>
  Without all the fields of the partition: the plan takes any partition with a field of the filter, and
  \<open>buildPrefix\<close> leaves out the fields that are not given. The fields of a key are in the order of
  their names, so when the first of them is not given no key has the prefix.
\<close>

lemma query_misses_matches:
  "let h = sample_host; r = sample_resource [by_region_country];
       (live, st, ts) = fold (resource_step h no_failure r False) [WriteEvent (InsertOp (sample_order ''o1'' ''US''))] ([], [], []);
       flt = [(ju ''region'', Js (VStr (ju ''US'')))]
   in query h r (map_of live) flt None (map fst live) st 10 0 = Inr [] \<and>
      matches_filter flt (sample_order ''o1'' ''US'') \<and> map_of live (ju ''o1'') = Some (sample_order ''o1'' ''US'')"
  by code_simp

text \<open>
  A reference whose record cannot be read leaves its page shorter than asked, which ends the loop: the
  matches after that page are not returned.
\<close>

lemma query_stops_at_lost_record:
  "query sample_host (sample_resource [by_region]) (\<lambda>i. if i = ju ''o2'' then Some (sample_order ''o2'' ''US'') else None)
     [(ju ''region'', Js (VStr (ju ''US'')))] None [ju ''o1'', ju ''o2'']
     [(ju ''resource=orders/partition=byRegion/region=US/id=o1'', ju ''v1''),
      (ju ''resource=orders/partition=byRegion/region=US/id=o2'', ju ''v1'')] 1 0 = Inr []"
  by code_simp

section \<open>All records\<close>

text \<open>The loop of \<open>getAll\<close> over pages of 1000 ids, and its batches of 100.\<close>

function getAll_ids :: "ustring list \<Rightarrow> nat \<Rightarrow> ustring list" where
  "getAll_ids ids offset =
     (let page = page_of 1000 offset (sort ids)
      in if length page < 1000 then page else page @ getAll_ids ids (offset + length page))"
  by pat_completeness auto
termination
  by (relation "measure (\<lambda>(ids, offset). length ids - offset)") (auto simp: page_of_def amount_of_def)

declare getAll_ids.simps [simp del]

function getAll_batches :: "reader \<Rightarrow> ustring list \<Rightarrow> doc list" where
  "getAll_batches get ids = (if ids = [] then []
     else List.map_filter get (take 100 ids) @ getAll_batches get (drop 100 ids))"
  by pat_completeness auto
termination
  by (relation "measure (length \<circ> snd)") auto

declare getAll_batches.simps [simp del]

definition getAll :: "reader \<Rightarrow> ustring list \<Rightarrow> doc list" where
  "getAll get ids = getAll_batches get (getAll_ids ids 0)"

lemma getAll_ids_drop: "getAll_ids ids offset = drop offset (sort ids)"
proof (induction ids offset rule: getAll_ids.induct)
  case (1 ids offset)
  show ?case
    by (subst getAll_ids.simps) (use 1 in \<open>auto simp: page_of_def amount_of_def Let_def simp flip: drop_drop\<close>,
      metis add.commute append_take_drop_id drop_drop)
qed

lemma getAll_batches_all: "getAll_batches get ids = List.map_filter get ids"
proof (induction get ids rule: getAll_batches.induct)
  case (1 get ids)
  have "List.map_filter get ids = List.map_filter get (take 100 ids) @ List.map_filter get (drop 100 ids)"
    unfolding map_filter_def by (metis append_take_drop_id filter_append map_append)
  then show ?case
    using 1 by (subst getAll_batches.simps) (auto simp: map_filter_simps)
qed

text \<open>All the records that can be read, in the order of their ids.\<close>

lemma getAll_complete: "getAll get ids = List.map_filter get (sort ids)"
  by (simp add: getAll_def getAll_ids_drop getAll_batches_all)

end
