(* ===== verification/Paging.thy ===== *)
theory Paging
  imports ResourceQuery MemoryStorage
begin

text \<open>
  Pages of a resource: \<open>page\<close> of \<open>src/core/resource-query.class.ts\<close>. A cursor is a JSON text
  in URL-safe base64 with the prefix, the page size and the continuation token of the store; page
  numbers walk the cursors and keep them as checkpoints in the cache of the resource.

  What the walk needs of a store is the locale \<open>key_listing\<close>: a token stands for the number
  of keys before its page. It is interpreted on the listing of \<open>MemoryStorage\<close>. Shown: a cursor
  reads back; page \<open>n\<close> holds the \<open>n\<close>-th slice of the listing, whatever pages were
  read before and whatever checkpoints they left; its next cursor gives the next slice; a cursor of
  another listing is refused. The keys do not change meanwhile: a write of the resource clears the cache.

  Page sizes and page numbers are integers; a call that fails keeps the checkpoints it has set.
\<close>

section \<open>Cursors\<close>

record cursor_payload =
  cp_prefix :: ustring
  cp_token :: "ustring option"
  cp_pageSize :: nat

definition payload_json :: "cursor_payload \<Rightarrow> jsvalue" where
  "payload_json p = VObj [(ju ''v'', VNum (decimal_text 1)), (ju ''prefix'', VStr (cp_prefix p)),
     (ju ''token'', (case cp_token p of None \<Rightarrow> VNull | Some t \<Rightarrow> VStr t)),
     (ju ''pageSize'', VNum (decimal_text (cp_pageSize p)))]"

definition url_safe :: "16 word \<Rightarrow> 16 word" where
  "url_safe u = (if u = 43 then 45 else if u = 47 then 95 else u)"

definition url_plain :: "16 word \<Rightarrow> 16 word" where
  "url_plain u = (if u = 45 then 43 else if u = 95 then 47 else u)"

definition encodeCursorPayload :: "cursor_payload \<Rightarrow> ustring" where
  "encodeCursorPayload p = strip_padding (map url_safe (b64_encode (utf8_encode (the (json_stringify (payload_json p))))))"

text \<open>
  The fields of the parsed value. A number is read as its text: the payloads with any other text of the
  version, or with a page size that is not a natural number above 0, are refused here or by the caller.
\<close>

definition payload_of :: "jsvalue \<Rightarrow> cursor_payload option" where
  "payload_of v = (case v of
     VObj kvs \<Rightarrow>
       (if map_of kvs (ju ''v'') \<noteq> Some (VNum (ju ''1'')) then None
        else (case (map_of kvs (ju ''prefix''), map_of kvs (ju ''token''), map_of kvs (ju ''pageSize'')) of
            (Some (VStr p), Some t, Some (VNum n)) \<Rightarrow>
              (if \<not> list_all is_digit n \<or> decimal_value n = 0 then None
               else (case t of
                   VNull \<Rightarrow> Some \<lparr>cp_prefix = p, cp_token = None, cp_pageSize = decimal_value n\<rparr>
                 | VStr s \<Rightarrow> Some \<lparr>cp_prefix = p, cp_token = Some s, cp_pageSize = decimal_value n\<rparr>
                 | _ \<Rightarrow> None))
          | _ \<Rightarrow> None))
   | _ \<Rightarrow> None)"

definition decodeCursorPayload :: "ustring \<Rightarrow> cursor_payload option" where
  "decodeCursorPayload cursor =
     (let normalized = map url_plain cursor;
          padded = normalized @ replicate ((4 - length normalized mod 4) mod 4) 61
      in case json_parse (utf8_decode (b64_decode padded)) of None \<Rightarrow> None | Some v \<Rightarrow> payload_of v)"

subsection \<open>A cursor reads back\<close>

text \<open>A text that is read as a value when a comma or a closing brace follows.\<close>

definition reads_as :: "ustring \<Rightarrow> jsvalue \<Rightarrow> bool" where
  "reads_as t v \<longleftrightarrow> (\<forall>n w r. w = 44 \<or> w = 125 \<longrightarrow> json_value (Suc n) (t @ w # r) = Some (v, w # r))"

lemma reads_string: "reads_as (json_quote s) (VStr s)"
  unfolding reads_as_def by (intro allI impI) (rule json_value_quote)

lemma reads_null: "reads_as (ju ''null'') VNull"
  by (auto simp: reads_as_def js_simps json_ws_def)

lemma decimal_no_zero: "hd (decimal_text n) = 48 \<Longrightarrow> n = 0"
proof (induction n rule: decimal_text.induct)
  case (1 n)
  show ?case
  proof (cases "n < 10")
    case True
    then have "decimal_text n = [word_of_nat (48 + n)]" by (simp add: decimal_text.simps)
    then have "(word_of_nat (48 + n) :: 16 word) = 48" using 1(2) by simp
    then have "unat (word_of_nat (48 + n) :: 16 word) = 48" by simp
    then show ?thesis using unat_digit [OF True] by simp
  next
    case False
    then have "hd (decimal_text n) = hd (decimal_text (n div 10))"
      by (subst decimal_text.simps) simp
    then show ?thesis using 1 False by fastforce
  qed
qed

lemma reads_number: "reads_as (decimal_text n) (VNum (decimal_text n))"
proof -
  { fix w r and m :: nat
    assume w: "(w :: 16 word) = 44 \<or> w = 125"
    have d: "list_all is_digit (decimal_text n)" by (rule decimal_text_digits)
    obtain u us where u: "decimal_text n = u # us" by (cases "decimal_text n") auto
    have w': "\<not> is_digit w" "w \<noteq> 46" "w \<noteq> 101" "w \<noteq> 69" using w by (auto simp: is_digit_def)
    have tw: "takeWhile is_digit (decimal_text n @ w # r) = decimal_text n"
      "dropWhile is_digit (decimal_text n @ w # r) = w # r"
      using d w'(1) by (simp_all add: list_all_iff takeWhile_append2 dropWhile_append2)
    have zero: "u = 48 \<Longrightarrow> us = []"
      using decimal_no_zero [of n] u by (auto simp: decimal_text.simps)
    have dig: "is_digit u" using d u by simp
    then have "u \<noteq> 45" "u \<noteq> 34" "u \<noteq> 123" "u \<noteq> 91" "\<not> json_ws u" "u \<noteq> 116" "u \<noteq> 102" "u \<noteq> 110"
      by (auto simp: is_digit_def json_ws_def)
    moreover have "json_number (decimal_text n @ w # r) = Some (decimal_text n, w # r)"
      using tw w' zero \<open>u \<noteq> 45\<close> u
      by (auto simp: json_number_def json_sign_def json_frac_def json_exp_def Let_def)
    ultimately have "json_value (Suc m) (decimal_text n @ w # r) = Some (VNum (decimal_text n), w # r)"
      using u by (auto simp: js_simps) }
  then show ?thesis by (simp add: reads_as_def)
qed

definition member_text :: "ustring \<times> ustring \<Rightarrow> ustring" where
  "member_text m = json_quote (fst m) @ 58 # snd m"

lemma json_members_reads:
  assumes "reads_as t v" "w = 44 \<or> w = 125"
  shows "json_members (Suc (Suc n)) acc (member_text (k, t) @ w # r) =
     (if w = 44 then json_members (Suc n) (AList.update k v acc) r else Some (VObj (AList.update k v acc), r))"
proof -
  have "json_value (Suc n) (t @ w # r) = Some (v, w # r)"
    using assms unfolding reads_as_def by blast
  moreover have "\<not> json_ws 34" "\<not> json_ws 58" "\<not> json_ws w"
    using assms(2) by (auto simp: json_ws_def)
  ultimately show ?thesis
    using assms(2) by (subst json_members.simps) (auto simp: member_text_def json_quote_def json_string_escape simp del: json_value.simps json_members.simps)
qed

lemma json_members_all:
  assumes "ms \<noteq> []" "length ms < n" "distinct (map fst acc @ map fst ms)" "\<forall>m \<in> set ms. reads_as (snd m) (val m)"
  shows "json_members n acc (join [44] (map member_text ms) @ 125 # r) = Some (VObj (acc @ map (\<lambda>m. (fst m, val m)) ms), r)"
  using assms
proof (induction ms arbitrary: n acc)
  case (Cons m ms)
  from Cons.prems obtain l where n: "n = Suc (Suc l)"
    by (cases n; cases "n - 1") auto
  have upd: "AList.update (fst m) (val m) acc = acc @ [(fst m, val m)]"
    using Cons.prems by (intro update_fresh) auto
  have m: "reads_as (snd m) (val m)" using Cons.prems by simp
  show ?case
  proof (cases ms)
    case Nil
    then show ?thesis
      using json_members_reads [OF m, of 125 l acc "fst m" r] by (simp add: n upd del: json_members.simps json_value.simps)
  next
    case (Cons q qs)
    have "json_members (Suc l) (acc @ [(fst m, val m)]) (join [44] (map member_text ms) @ 125 # r) =
        Some (VObj ((acc @ [(fst m, val m)]) @ map (\<lambda>m. (fst m, val m)) ms), r)"
      using Cons.prems by (intro Cons.IH) (auto simp: n Cons)
    then show ?thesis
      using json_members_reads [OF m, of 44 l acc "fst m" "join [44] (map member_text ms) @ 125 # r"]
      by (simp add: n upd Cons del: json_members.simps json_value.simps)
  qed
qed simp

definition token_value :: "cursor_payload \<Rightarrow> jsvalue" where
  "token_value p = (case cp_token p of None \<Rightarrow> VNull | Some t \<Rightarrow> VStr t)"

definition payload_members :: "cursor_payload \<Rightarrow> (ustring \<times> ustring) list" where
  "payload_members p = [(ju ''v'', decimal_text 1), (ju ''prefix'', json_quote (cp_prefix p)),
     (ju ''token'', the (json_stringify (token_value p))), (ju ''pageSize'', decimal_text (cp_pageSize p))]"

lemma token_text:
  "(token_value p = VNull \<and> json_stringify (token_value p) = Some (ju ''null'')) \<or>
   (\<exists>t. token_value p = VStr t \<and> json_stringify (token_value p) = Some (json_quote t))"
  by (auto simp: token_value_def split: option.split)

lemma payload_text:
  "json_stringify (payload_json p) = Some (123 # join [44] (map member_text (payload_members p)) @ [125])"
proof -
  obtain tt where "json_stringify (token_value p) = Some tt"
    using token_text by blast
  then show ?thesis
    unfolding payload_json_def token_value_def [symmetric]
    by (simp add: obj_entries_def is_index_key_def is_digit_def payload_members_def member_text_def js_simps map_filter_simps)
qed

lemma payload_json_parse: "json_parse (the (json_stringify (payload_json p))) = Some (payload_json p)"
proof -
  let ?ms = "payload_members p"
  define val where "val = (\<lambda>m :: ustring \<times> ustring. if fst m = ju ''v'' then VNum (decimal_text 1)
    else if fst m = ju ''prefix'' then VStr (cp_prefix p) else if fst m = ju ''token'' then token_value p
    else VNum (decimal_text (cp_pageSize p)))"
  have payload: "payload_json p = VObj (map (\<lambda>m. (fst m, val m)) ?ms)"
    by (simp add: payload_json_def payload_members_def val_def token_value_def ju_inject)
  have "reads_as (the (json_stringify (token_value p))) (token_value p)"
    using token_text [of p] reads_string reads_null by auto
  then have reads: "\<forall>m \<in> set ?ms. reads_as (snd m) (val m)"
    by (simp add: payload_members_def val_def reads_number reads_string ju_inject)
  let ?s = "123 # join [44] (map member_text ?ms) @ [125]"
  have "hd (join [44] (map member_text ?ms)) = 34" "join [44] (map member_text ?ms) \<noteq> []"
    by (simp_all add: payload_members_def member_text_def json_quote_def)
  then obtain rest where rest: "join [44] (map member_text ?ms) = 34 # rest"
    by (cases "join [44] (map member_text ?ms)") auto
  have "length ?ms < 2 * length ?s"
    by (simp add: payload_members_def member_text_def json_quote_def)
  then have "json_members (2 * length ?s) [] (join [44] (map member_text ?ms) @ 125 # []) =
      Some (VObj ([] @ map (\<lambda>m. (fst m, val m)) ?ms), [])"
    by (intro json_members_all) (use reads in \<open>auto simp: payload_members_def ju_inject\<close>)
  then have "json_value (Suc (2 * length ?s)) ?s = Some (payload_json p, [])"
    unfolding payload by (simp add: rest del: json_members.simps)
  then show ?thesis
    unfolding payload_text json_parse_def by simp
qed

lemma well_formed_append: "well_formed a \<Longrightarrow> well_formed b \<Longrightarrow> well_formed (a @ b)"
proof (induction a rule: well_formed.induct)
  case (2 u)
  then show ?case by (cases b) auto
qed (auto split: if_splits)

lemma well_formed_plain: "list_all (\<lambda>u. \<not> is_high u \<and> \<not> is_low u) s \<Longrightarrow> well_formed s"
  by (induction s rule: well_formed.induct) auto

lemma plain_hex: "\<not> is_high (word_of_nat (hex_lower (n mod 16)))" "\<not> is_low (word_of_nat (hex_lower (n mod 16)))"
proof -
  have "hex_lower m < 128" if "m < 16" for m
    using that by (simp add: hex_lower_def)
  then have "unat (word_of_nat (hex_lower (n mod 16)) :: 16 word) < 128"
    by (simp add: unat_of_nat)
  then show "\<not> is_high (word_of_nat (hex_lower (n mod 16)))" "\<not> is_low (word_of_nat (hex_lower (n mod 16)))"
    by (auto simp: is_high_def is_low_def word_le_nat_alt)
qed

lemma well_formed_escape: "well_formed (json_escape s)"
proof -
  have unit: "well_formed (json_escape_unit u)" for u
    by (rule well_formed_plain) (simp add: json_escape_unit_def json_hex4_def plain_hex, simp add: is_high_def is_low_def)
  show ?thesis
    by (induction s rule: json_escape.induct) (auto intro: unit well_formed_append)
qed

lemma well_formed_decimal: "well_formed (decimal_text n)"
  using decimal_text_digits [of n]
  by (intro well_formed_plain) (auto simp: list_all_iff is_digit_def is_high_def is_low_def word_le_nat_alt)

lemma well_formed_quote: "well_formed (json_quote s)"
  using well_formed_append [OF well_formed_append [OF _ well_formed_escape], of "[34]" "[34]" s]
  by (simp add: json_quote_def is_high_def is_low_def)

lemma well_formed_members: "\<forall>m \<in> set ms. well_formed (snd m) \<Longrightarrow> well_formed (join [44] (map member_text ms))"
proof (induction ms rule: induct_list012)
  case 1
  then show ?case by simp
next
  case (2 m)
  then show ?case
    using well_formed_append [OF well_formed_append [OF well_formed_quote], of "[58]" "snd m"]
    by (simp add: member_text_def is_high_def is_low_def)
next
  case (3 m n ms)
  then have "well_formed (member_text m)"
    using well_formed_append [OF well_formed_append [OF well_formed_quote], of "[58]" "snd m"]
    by (simp add: member_text_def is_high_def is_low_def)
  moreover have "well_formed (join [44] (map member_text (n # ms)))"
    using 3 by simp
  ultimately show ?case
    using well_formed_append [OF well_formed_append, of "member_text m" "[44]" "join [44] (map member_text (n # ms))"]
    by (simp add: is_high_def is_low_def)
qed

lemma well_formed_payload: "well_formed (the (json_stringify (payload_json p)))"
proof -
  have "well_formed (the (json_stringify (token_value p)))"
    using token_text [of p] well_formed_quote by (auto simp: ju_def is_high_def is_low_def)
  then have "well_formed (join [44] (map member_text (payload_members p)))"
    by (intro well_formed_members) (simp add: payload_members_def well_formed_decimal well_formed_quote)
  then show ?thesis
    using well_formed_append [OF well_formed_append, of "[123]" "join [44] (map member_text (payload_members p))" "[125]"]
    by (simp add: payload_text is_high_def is_low_def)
qed

text \<open>The alphabet of the cursor and its padding do not matter to the decoding.\<close>

lemma b64_decode_padding: "b64_decode (s @ replicate k 61) = b64_decode s"
proof -
  have "takeWhile (\<lambda>u. u \<noteq> 61) (s @ replicate k 61) = takeWhile (\<lambda>u. u \<noteq> 61) s"
    by (induction s) (cases k; simp)+
  then show ?thesis by (simp add: b64_decode_def)
qed

lemma b64_decode_strip: "b64_decode (strip_padding s) = b64_decode s"
proof -
  have "s = strip_padding s @ rev (takeWhile (\<lambda>u. u = 61) (rev s))"
    unfolding strip_padding_def rev_append [symmetric] takeWhile_dropWhile_id by simp
  moreover have "rev (takeWhile (\<lambda>u. u = 61) (rev s)) = replicate (length (takeWhile (\<lambda>u. u = 61) (rev s))) 61"
    by (metis (full_types) replicate_eqI length_rev set_rev set_takeWhileD)
  ultimately show ?thesis
    using b64_decode_padding by metis
qed

lemma b64_decode_alphabet:
  assumes "\<And>u. b64_val (f u) = b64_val u" "\<And>u. f u = 61 \<longleftrightarrow> u = 61"
  shows "b64_decode (map f s) = b64_decode s"
proof -
  have "List.map_filter b64_val (map f xs) = List.map_filter b64_val xs" for xs
    by (induction xs) (simp_all add: map_filter_Cons assms(1) map_filter_simps split: option.split)
  moreover have "takeWhile (\<lambda>u. u \<noteq> 61) (map f s) = map f (takeWhile (\<lambda>u. u \<noteq> 61) s)"
    by (simp add: takeWhile_map comp_def assms(2))
  ultimately show ?thesis by (simp add: b64_decode_def)
qed

lemma b64_decode_url: "b64_decode (map url_safe s) = b64_decode s" "b64_decode (map url_plain s) = b64_decode s"
  by (rule b64_decode_alphabet; auto simp: url_safe_def url_plain_def b64_val_def b64_value_def)+

lemma decimal_one: "decimal_text (Suc 0) = ju ''1''"
  by (simp add: decimal_text.simps ju_def)

lemma cursor_reads_back:
  assumes "0 < cp_pageSize p"
  shows "decodeCursorPayload (encodeCursorPayload p) = Some p"
proof -
  have "decodeCursorPayload (encodeCursorPayload p) = payload_of (payload_json p)"
    unfolding decodeCursorPayload_def encodeCursorPayload_def Let_def b64_decode_padding b64_decode_url
      b64_decode_strip b64_roundtrip
    by (simp add: utf8_roundtrip payload_json_parse well_formed_payload)
  also have "\<dots> = Some p"
    using assms decimal_text_digits [of "cp_pageSize p"]
    by (simp add: payload_of_def payload_json_def ju_inject decimal_one split: option.split)
  finally show ?thesis .
qed

text \<open>
  C27 (resource queries). A cursor reads back as the payload it was made of, whatever characters its prefix
  and its token have.
\<close>

theorem cursor_roundtrip:
  assumes "0 < cp_pageSize p"
  shows "decodeCursorPayload (encodeCursorPayload p) = Some p"
  using assms by (rule cursor_reads_back)

text \<open>The record of which one payload has every field at its bound reads back too.\<close>

theorem cursor_roundtrip_witness:
  "decodeCursorPayload (encodeCursorPayload \<lparr>cp_prefix = ju ''resource=a/data'', cp_token = Some [55296], cp_pageSize = 1\<rparr>) =
     Some \<lparr>cp_prefix = ju ''resource=a/data'', cp_token = Some [55296], cp_pageSize = 1\<rparr>"
  by (rule cursor_roundtrip) simp

section \<open>Pages\<close>

datatype page_error =
    InvalidCursor | OffsetNotSupported | InvalidPageNumber | PageAndCursor
  | PagePartition part_error | PageListing storage_error

text \<open>
  What \<open>client.listObjects\<close> returns for a prefix, a size and a token: the keys, and the next token
  when the listing is truncated.
\<close>

type_synonym key_lister = "ustring \<Rightarrow> nat \<Rightarrow> ustring option \<Rightarrow> storage_error + ustring list \<times> ustring option"

type_synonym page_partition = "(ustring \<times> part_value jsobj) option"

record doc_page =
  dp_items :: "doc list"
  dp_nextCursor :: "ustring option"

definition page_prefix :: "part_host \<Rightarrow> part_resource \<Rightarrow> page_partition \<Rightarrow> part_error + ustring" where
  "page_prefix h r part = buildPagePrefix h r (map_option fst part) (case part of None \<Rightarrow> [] | Some (p, values) \<Rightarrow> values)"

definition page_docs :: "part_host \<Rightarrow> part_resource \<Rightarrow> reader \<Rightarrow> page_partition \<Rightarrow> ustring list \<Rightarrow> doc list" where
  "page_docs h r get part keys = (case part of
     None \<Rightarrow> List.map_filter get (extractIdsFromKeys keys)
   | Some (p, values) \<Rightarrow> processPartitionResults h p (the (map_of (pr_partitions r) p)) keys get)"

definition cursor_token :: "ustring \<Rightarrow> nat \<Rightarrow> ustring option \<Rightarrow> page_error + ustring option" where
  "cursor_token prefix amount cursor = (case cursor of
     None \<Rightarrow> Inr None
   | Some c \<Rightarrow> if c = [] then Inr None
       else (case decodeCursorPayload c of
           None \<Rightarrow> Inl InvalidCursor
         | Some d \<Rightarrow> if cp_prefix d \<noteq> prefix \<or> cp_pageSize d \<noteq> amount then Inl InvalidCursor else Inr (cp_token d)))"

definition listPageByCursor :: "part_host \<Rightarrow> part_resource \<Rightarrow> reader \<Rightarrow> key_lister \<Rightarrow> page_partition \<Rightarrow> nat \<Rightarrow>
    ustring option \<Rightarrow> page_error + doc_page" where
  "listPageByCursor h r get lister part amount cursor = (case page_prefix h r part of
     Inl e \<Rightarrow> Inl (PagePartition e)
   | Inr prefix \<Rightarrow> (case cursor_token prefix amount cursor of
       Inl e \<Rightarrow> Inl e
     | Inr token \<Rightarrow> (case lister prefix amount token of
         Inl e \<Rightarrow> Inl (PageListing e)
       | Inr (found, next) \<Rightarrow> Inr \<lparr>dp_items = page_docs h r get part (filter (\<lambda>k. k \<noteq> []) found),
           dp_nextCursor = (case next of
               None \<Rightarrow> None
             | Some t \<Rightarrow> if t = [] then None
                 else Some (encodeCursorPayload \<lparr>cp_prefix = prefix, cp_token = Some t, cp_pageSize = amount\<rparr>))\<rparr>)))"

subsection \<open>Page numbers and their checkpoints\<close>

text \<open>
  The cache keeps the cursor of a page under a key text; no cache is \<open>None\<close>. A cached value is
  \<open>null\<close> behind the last page. \<open>digest\<close> is the hash of the partition values.
\<close>

type_synonym cursor_cache = "(ustring \<rightharpoonup> ustring option) option"

record page_source =
  sr_host :: part_host
  sr_resource :: part_resource
  sr_get :: reader
  sr_lister :: key_lister
  sr_digest :: "part_value jsobj \<Rightarrow> ustring"

definition buildCursorCheckpointCacheKey :: "page_source \<Rightarrow> page_partition \<Rightarrow> nat \<Rightarrow> nat \<Rightarrow> ustring" where
  "buildCursorCheckpointCacheKey s part amount page =
     ju ''resource='' @ pr_name (sr_resource s) @ ju ''/meta/cursor-checkpoint/partition='' @
     (case part of None \<Rightarrow> ju ''main'' | Some (p, values) \<Rightarrow> p) @ ju ''/size='' @ decimal_text amount @
     ju ''/values='' @ sr_digest s (case part of None \<Rightarrow> [] | Some (p, values) \<Rightarrow> values) @
     ju ''/page='' @ decimal_text page @ ju ''.json''"

definition getCheckpoint :: "page_source \<Rightarrow> page_partition \<Rightarrow> nat \<Rightarrow> nat \<Rightarrow> cursor_cache \<Rightarrow> ustring option option" where
  "getCheckpoint s part amount page cache = (case cache of None \<Rightarrow> None
   | Some m \<Rightarrow> m (buildCursorCheckpointCacheKey s part amount page))"

definition setCheckpoint :: "page_source \<Rightarrow> page_partition \<Rightarrow> nat \<Rightarrow> nat \<Rightarrow> ustring option \<Rightarrow> cursor_cache \<Rightarrow> cursor_cache" where
  "setCheckpoint s part amount page cursor =
     map_option (\<lambda>m. m(buildCursorCheckpointCacheKey s part amount page \<mapsto> cursor))"

definition cursor_page :: "page_source \<Rightarrow> page_partition \<Rightarrow> nat \<Rightarrow> ustring option \<Rightarrow> page_error + doc_page" where
  "cursor_page s = listPageByCursor (sr_host s) (sr_resource s) (sr_get s) (sr_lister s)"

text \<open>The loop over the pages before the target; the cursor it ends with is null when a page had no next one.\<close>

fun walk_pages :: "page_source \<Rightarrow> page_partition \<Rightarrow> nat \<Rightarrow> nat \<Rightarrow> nat \<Rightarrow> ustring option \<Rightarrow> cursor_cache \<Rightarrow>
    (page_error + ustring option) \<times> cursor_cache" where
  "walk_pages s part amount 0 current cursor cache = (Inr cursor, cache)"
| "walk_pages s part amount (Suc n) current cursor cache = (case getCheckpoint s part amount (current + 1) cache of
     Some None \<Rightarrow> (Inr None, cache)
   | Some (Some c) \<Rightarrow> walk_pages s part amount n (current + 1) (Some c) cache
   | None \<Rightarrow> (case cursor_page s part amount cursor of
       Inl e \<Rightarrow> (Inl e, cache)
     | Inr res \<Rightarrow> (let cache = setCheckpoint s part amount (current + 1) (dp_nextCursor res) cache
         in if dp_nextCursor res = None then (Inr None, cache)
            else walk_pages s part amount n (current + 1) (dp_nextCursor res) cache)))"

definition target_page :: "page_source \<Rightarrow> page_partition \<Rightarrow> nat \<Rightarrow> nat \<Rightarrow> ustring option \<Rightarrow> cursor_cache \<Rightarrow>
    (page_error + doc_page) \<times> cursor_cache" where
  "target_page s part amount page start cache = (case start of
     None \<Rightarrow> (Inr \<lparr>dp_items = [], dp_nextCursor = None\<rparr>, cache)
   | Some c \<Rightarrow> (case cursor_page s part amount (Some c) of
       Inl e \<Rightarrow> (Inl e, cache)
     | Inr res \<Rightarrow> (Inr res, setCheckpoint s part amount (page + 1) (dp_nextCursor res) cache)))"

definition listPageByPageNumber :: "page_source \<Rightarrow> page_partition \<Rightarrow> nat \<Rightarrow> nat \<Rightarrow> cursor_cache \<Rightarrow>
    (page_error + doc_page) \<times> cursor_cache" where
  "listPageByPageNumber s part amount page cache =
     (let cache = setCheckpoint s part amount 1 None cache
      in if page = 1 then (case cursor_page s part amount None of
             Inl e \<Rightarrow> (Inl e, cache)
           | Inr res \<Rightarrow> (Inr res, setCheckpoint s part amount 2 (dp_nextCursor res) cache))
         else (case getCheckpoint s part amount page cache of
             Some start \<Rightarrow> target_page s part amount page start cache
           | None \<Rightarrow> (case walk_pages s part amount (page - 1) 1 None cache of
               (Inl e, cache) \<Rightarrow> (Inl e, cache)
             | (Inr start, cache) \<Rightarrow> target_page s part amount page start cache)))"

subsection \<open>The call\<close>

text \<open>A value is a parameter of the call when the outer option is there; a page that is no finite number is \<open>None\<close>.\<close>

record page_params =
  pp_page :: "int option option"
  pp_size :: int
  pp_part :: page_partition
  pp_cursor :: "ustring option option"
  pp_offset :: bool

record page_result =
  pg_items :: "doc list"
  pg_page :: "int option"
  pg_pageSize :: int
  pg_hasMore :: bool
  pg_nextCursor :: "ustring option"

definition resource_page :: "page_source \<Rightarrow> page_params \<Rightarrow> cursor_cache \<Rightarrow> (page_error + page_result) \<times> cursor_cache" where
  "resource_page s pp cache =
     (let effectiveSize = (if pp_size pp > 0 then pp_size pp else 100);
          normalizedCursor = (case pp_cursor pp of
            Some (Some c) \<Rightarrow> if js_trim c = [] then None else Some (js_trim c) | _ \<Rightarrow> None);
          result = (\<lambda>number res. \<lparr>pg_items = dp_items res, pg_page = number, pg_pageSize = effectiveSize,
            pg_hasMore = (dp_nextCursor res \<noteq> None), pg_nextCursor = dp_nextCursor res\<rparr>)
      in if pp_offset pp then (Inl OffsetNotSupported, cache)
         else (case pp_page pp of
             Some None \<Rightarrow> (Inl InvalidPageNumber, cache)
           | Some (Some n) \<Rightarrow>
               if n < 1 then (Inl InvalidPageNumber, cache)
               else if pp_cursor pp \<noteq> None then (Inl PageAndCursor, cache)
               else apfst (map_sum id (result (Some n)))
                 (listPageByPageNumber s (pp_part pp) (nat effectiveSize) (nat n) cache)
           | None \<Rightarrow> (map_sum id (result None) (cursor_page s (pp_part pp) (nat effectiveSize) normalizedCursor), cache)))"

section \<open>Pages of a listing that does not change\<close>

definition cursor_of :: "ustring \<Rightarrow> nat \<Rightarrow> ustring option \<Rightarrow> ustring option" where
  "cursor_of prefix amount tok =
     map_option (\<lambda>t. encodeCursorPayload \<lparr>cp_prefix = prefix, cp_token = Some t, cp_pageSize = amount\<rparr>) tok"

definition checkpoint_at :: "(nat \<Rightarrow> ustring option) \<Rightarrow> ustring list \<Rightarrow> ustring \<Rightarrow> nat \<Rightarrow> nat \<Rightarrow> ustring option" where
  "checkpoint_at tok ks prefix amount page =
     (if (page - 1) * amount < length ks then cursor_of prefix amount (tok ((page - 1) * amount)) else None)"

definition numbered_page :: "page_source \<Rightarrow> page_partition \<Rightarrow> (nat \<Rightarrow> ustring option) \<Rightarrow> ustring list \<Rightarrow> ustring \<Rightarrow> nat \<Rightarrow>
    nat \<Rightarrow> doc_page" where
  "numbered_page s part tok ks prefix amount page =
     \<lparr>dp_items = page_docs (sr_host s) (sr_resource s) (sr_get s) part (take amount (drop ((page - 1) * amount) ks)),
      dp_nextCursor = checkpoint_at tok ks prefix amount (page + 1)\<rparr>"

definition checkpoints_ok :: "page_source \<Rightarrow> page_partition \<Rightarrow> nat \<Rightarrow> (nat \<Rightarrow> ustring option) \<Rightarrow> cursor_cache \<Rightarrow> bool" where
  "checkpoints_ok s part amount mark cache \<longleftrightarrow>
     (\<forall>page c. 0 < page \<longrightarrow> getCheckpoint s part amount page cache = Some c \<longrightarrow> c = mark page)"

lemma encode_nonempty: "0 < cp_pageSize p \<Longrightarrow> encodeCursorPayload p \<noteq> []"
proof -
  have "decodeCursorPayload [] = None"
    by (simp add: decodeCursorPayload_def b64_decode_def utf8_decode_def map_filter_simps json_parse_def)
  then show "0 < cp_pageSize p \<Longrightarrow> ?thesis"
    using cursor_reads_back [of p] by auto
qed

lemma cursor_token_of: "0 < amount \<Longrightarrow> cursor_token prefix amount (cursor_of prefix amount tok) = Inr tok"
  by (auto simp: cursor_token_def cursor_of_def cursor_reads_back encode_nonempty split: option.split)

lemma checkpoint_key_page:
  "buildCursorCheckpointCacheKey s part amount page = buildCursorCheckpointCacheKey s part amount page' \<longleftrightarrow> page = page'"
  by (simp add: buildCursorCheckpointCacheKey_def decimal_text_inject)

lemma get_setCheckpoint: "getCheckpoint s part amount page (setCheckpoint s part amount page' c cache) =
    (if page = page' \<and> cache \<noteq> None then Some c else getCheckpoint s part amount page cache)"
  by (auto simp: getCheckpoint_def setCheckpoint_def checkpoint_key_page split: option.split)

lemma checkpoints_ok_set:
  "checkpoints_ok s part amount mark cache \<Longrightarrow> checkpoints_ok s part amount mark (setCheckpoint s part amount page (mark page) cache)"
  by (auto simp: checkpoints_ok_def get_setCheckpoint split: if_splits)

lemma checkpoints_ok_empty: "checkpoints_ok s part amount mark None" "checkpoints_ok s part amount mark (Some Map.empty)"
  by (simp_all add: checkpoints_ok_def getCheckpoint_def)

text \<open>
  A store whose tokens stand for positions in its keys: the page at a token is the next slice, and the
  token that comes with it stands behind that slice.
\<close>

locale key_listing =
  fixes valid :: "'st \<Rightarrow> bool"
    and lister :: "'st \<Rightarrow> key_lister"
    and keys :: "'st \<Rightarrow> ustring \<Rightarrow> ustring list"
    and tok :: "'st \<Rightarrow> ustring \<Rightarrow> nat \<Rightarrow> ustring option"
  assumes start: "valid st \<Longrightarrow> tok st prefix 0 = None"
    and later: "valid st \<Longrightarrow> 0 < i \<Longrightarrow> i < length (keys st prefix) \<Longrightarrow> tok st prefix i \<noteq> None \<and> tok st prefix i \<noteq> Some []"
    and page: "valid st \<Longrightarrow> 0 < amount \<Longrightarrow> i = 0 \<or> i < length (keys st prefix) \<Longrightarrow>
      lister st prefix amount (tok st prefix i) = Inr (take amount (drop i (keys st prefix)),
        if i + amount < length (keys st prefix) then tok st prefix (i + amount) else None)"
    and named: "valid st \<Longrightarrow> [] \<notin> set (keys st prefix)"
begin

lemma page_at:
  assumes "valid st" "sr_lister s = lister st" "page_prefix (sr_host s) (sr_resource s) part = Inr prefix" "0 < amount"
    and "n = 0 \<or> n * amount < length (keys st prefix)"
  shows "cursor_page s part amount (cursor_of prefix amount (tok st prefix (n * amount))) =
    Inr (numbered_page s part (tok st prefix) (keys st prefix) prefix amount (Suc n))"
proof -
  have "filter (\<lambda>k. k \<noteq> []) (take amount (drop (n * amount) (keys st prefix))) = take amount (drop (n * amount) (keys st prefix))"
    using named [OF assms(1)] by (intro filter_True) (metis in_set_dropD in_set_takeD)
  moreover have "lister st prefix amount (tok st prefix (n * amount)) = Inr (take amount (drop (n * amount) (keys st prefix)),
      if n * amount + amount < length (keys st prefix) then tok st prefix (n * amount + amount) else None)"
    using assms by (intro page) auto
  moreover have "n * amount + amount < length (keys st prefix) \<Longrightarrow>
      tok st prefix (n * amount + amount) \<noteq> None \<and> tok st prefix (n * amount + amount) \<noteq> Some []"
    using assms by (intro later) auto
  ultimately have "cursor_page s part amount (cursor_of prefix amount (tok st prefix (n * amount))) =
      Inr \<lparr>dp_items = page_docs (sr_host s) (sr_resource s) (sr_get s) part (take amount (drop (n * amount) (keys st prefix))),
        dp_nextCursor = cursor_of prefix amount
          (if n * amount + amount < length (keys st prefix) then tok st prefix (n * amount + amount) else None)\<rparr>"
    unfolding cursor_page_def listPageByCursor_def assms(2,3)
    by (auto simp: cursor_token_of [OF assms(4)]) (auto simp: cursor_of_def)
  then show ?thesis
    by (auto simp: numbered_page_def checkpoint_at_def cursor_of_def add.commute)
qed

lemma marks:
  assumes "valid st"
  shows "checkpoint_at (tok st prefix) (keys st prefix) prefix amount 1 = None"
    and "0 < n \<Longrightarrow> 0 < amount \<Longrightarrow> checkpoint_at (tok st prefix) (keys st prefix) prefix amount (Suc n) = None \<longleftrightarrow>
      length (keys st prefix) \<le> n * amount"
  using start [OF assms] later [OF assms, of "n * amount" prefix] by (auto simp: checkpoint_at_def cursor_of_def)

lemma page_at_mark:
  assumes "valid st" "sr_lister s = lister st" "page_prefix (sr_host s) (sr_resource s) part = Inr prefix" "0 < amount"
    and "n = 0 \<or> checkpoint_at (tok st prefix) (keys st prefix) prefix amount (Suc n) \<noteq> None"
  shows "cursor_page s part amount (checkpoint_at (tok st prefix) (keys st prefix) prefix amount (Suc n)) =
    Inr (numbered_page s part (tok st prefix) (keys st prefix) prefix amount (Suc n))"
  using page_at [OF assms(1-4), of n] assms(5) start [OF assms(1)]
  by (cases "n = 0") (auto simp: checkpoint_at_def cursor_of_def split: if_splits)

lemma walk:
  assumes "valid st" "sr_lister s = lister st" "page_prefix (sr_host s) (sr_resource s) part = Inr prefix" "0 < amount"
  defines "mark \<equiv> checkpoint_at (tok st prefix) (keys st prefix) prefix amount"
  assumes "checkpoints_ok s part amount mark cache" "cur = 0 \<or> mark (Suc cur) \<noteq> None"
  shows "\<exists>cache'. walk_pages s part amount n (Suc cur) (mark (Suc cur)) cache = (Inr (mark (Suc (cur + n))), cache') \<and>
    checkpoints_ok s part amount mark cache'"
  using assms(6,7)
proof (induction n arbitrary: cur cache)
  case (Suc n)
  have res: "cursor_page s part amount (mark (Suc cur)) = Inr (numbered_page s part (tok st prefix) (keys st prefix) prefix amount (Suc cur))"
    unfolding mark_def using assms(1-4) Suc.prems(2) by (intro page_at_mark) (auto simp: mark_def)
  have nxt: "dp_nextCursor (numbered_page s part (tok st prefix) (keys st prefix) prefix amount (Suc cur)) = mark (Suc (Suc cur))"
    by (simp add: numbered_page_def mark_def)
  have ended: "mark (Suc (Suc cur)) = None \<Longrightarrow> mark (Suc (Suc (cur + n))) = None"
    unfolding mark_def marks(2) [OF assms(1) zero_less_Suc assms(4)]
    by (erule order_trans) (rule mult_le_mono1, simp)
  show ?case
  proof (cases "getCheckpoint s part amount (Suc (Suc cur)) cache")
    case None
    let ?cache = "setCheckpoint s part amount (Suc (Suc cur)) (mark (Suc (Suc cur))) cache"
    have "checkpoints_ok s part amount mark ?cache"
      by (rule checkpoints_ok_set) (rule Suc.prems)
    then show ?thesis
      using Suc.IH [of ?cache "Suc cur"] None res nxt ended by (auto simp: Let_def)
  next
    case (Some c)
    then have "getCheckpoint s part amount (Suc (Suc cur)) cache = Some (mark (Suc (Suc cur)))"
      using Suc.prems(1) by (simp add: checkpoints_ok_def)
    then show ?thesis
      using Suc.IH [of cache "Suc cur"] ended Suc.prems(1) by (cases "mark (Suc (Suc cur))") auto
  qed
qed simp

lemma numbered:
  assumes "valid st" "sr_lister s = lister st" "page_prefix (sr_host s) (sr_resource s) part = Inr prefix" "0 < amount"
  defines "mark \<equiv> checkpoint_at (tok st prefix) (keys st prefix) prefix amount"
  assumes "checkpoints_ok s part amount mark cache"
  shows "\<exists>cache'. listPageByPageNumber s part amount (Suc n) cache =
      (Inr (numbered_page s part (tok st prefix) (keys st prefix) prefix amount (Suc n)), cache') \<and>
    checkpoints_ok s part amount mark cache'"
proof -
  let ?page = "\<lambda>n. numbered_page s part (tok st prefix) (keys st prefix) prefix amount (Suc n)"
  have nxt: "dp_nextCursor (?page n) = mark (Suc (Suc n))" for n
    by (simp add: numbered_page_def mark_def)
  have one: "mark 1 = None"
    using marks(1) [OF assms(1)] by (simp add: mark_def)
  let ?cache = "setCheckpoint s part amount 1 None cache"
  have ok: "checkpoints_ok s part amount mark ?cache"
    using checkpoints_ok_set [OF assms(6), of 1] one by simp
  have target: "\<exists>cache'. target_page s part amount (Suc n) (mark (Suc n)) c = (Inr (?page n), cache') \<and>
      checkpoints_ok s part amount mark cache'" if n: "0 < n" and c: "checkpoints_ok s part amount mark c" for c
  proof (cases "mark (Suc n)")
    case None
    then have "length (keys st prefix) \<le> n * amount"
      using marks(2) [OF assms(1) n assms(4)] by (simp add: mark_def)
    then have "?page n = \<lparr>dp_items = [], dp_nextCursor = None\<rparr>"
      by (auto simp: numbered_page_def checkpoint_at_def page_docs_def processPartitionResults_def extractIdsFromKeys_def
          map_filter_simps split: option.split)
    then show ?thesis using None c by (simp add: target_page_def)
  next
    case (Some u)
    then have "cursor_page s part amount (Some u) = Inr (?page n)"
      using page_at_mark [OF assms(1-4), of n] by (simp add: mark_def)
    then show ?thesis
      using Some nxt checkpoints_ok_set [OF c] by (simp add: target_page_def)
  qed
  show ?thesis
  proof (cases "n = 0")
    case True
    have "cursor_page s part amount (mark 1) = Inr (?page 0)"
      using page_at_mark [OF assms(1-4), of 0] by (simp add: mark_def)
    then show ?thesis
      using True one nxt [of 0] checkpoints_ok_set [OF ok, of 2]
      by (simp add: listPageByPageNumber_def numeral_2_eq_2)
  next
    case False
    show ?thesis
    proof (cases "getCheckpoint s part amount (Suc n) ?cache")
      case None
      obtain cache' where "walk_pages s part amount n 1 None ?cache = (Inr (mark (Suc n)), cache')" "checkpoints_ok s part amount mark cache'"
        using walk [OF assms(1-4), of ?cache 0 n] ok one by (auto simp: mark_def)
      then show ?thesis
        using None False target by (auto simp: listPageByPageNumber_def)
    next
      case (Some c)
      then have "c = mark (Suc n)"
        using ok by (simp add: checkpoints_ok_def)
      then show ?thesis
        using Some False target [OF _ ok] by (simp add: listPageByPageNumber_def)
    qed
  qed
qed

end

section \<open>Pages of the memory store\<close>

text \<open>\<open>MemoryClient.listObjects\<close> without a key prefix.\<close>

definition listObjects :: "memory_storage \<Rightarrow> key_lister" where
  "listObjects st prefix maxKeys continuationToken =
     map_sum id (\<lambda>res. (page_keys res, if lr_isTruncated res then lr_next res else None))
       (list_objects \<lparr>lp_prefix = prefix, lp_delimiter = [], lp_maxKeys = maxKeys,
          lp_continuationToken = (case continuationToken of None \<Rightarrow> [] | Some t \<Rightarrow> t), lp_startAfter = []\<rparr> st)"

definition stored_keys_ok :: "memory_storage \<Rightarrow> bool" where
  "stored_keys_ok st \<longleftrightarrow> distinct (map fst (ms_objects st)) \<and> (\<forall>k \<in> fst ` set (ms_objects st). k \<noteq> [] \<and> well_formed k)"

definition position_token :: "memory_storage \<Rightarrow> ustring \<Rightarrow> nat \<Rightarrow> ustring option" where
  "position_token st prefix i =
     (if i = 0 then None else Some (encodeContinuationToken (matching_keys prefix st ! (i - 1))))"

lemma matching_stored: "k \<in> set (matching_keys prefix st) \<Longrightarrow> stored_keys_ok st \<Longrightarrow> k \<noteq> [] \<and> well_formed k"
  by (auto simp: matching_keys_def stored_keys_ok_def)

lemma keys_before: "i < length (matching_keys prefix st) \<Longrightarrow> 0 < i \<Longrightarrow> stored_keys_ok st \<Longrightarrow>
    matching_keys prefix st ! (i - 1) \<noteq> [] \<and> well_formed (matching_keys prefix st ! (i - 1))"
  by (rule matching_stored [OF nth_mem]) simp_all

lemma keys_after:
  assumes "stored_keys_ok st" "0 < i" "i < length (matching_keys prefix st)"
  shows "filter (\<lambda>k. matching_keys prefix st ! (i - 1) < k) (matching_keys prefix st) = drop i (matching_keys prefix st)"
proof -
  let ?ks = "matching_keys prefix st"
  have "sorted ?ks" "distinct ?ks"
    using matching_keys_sorted assms(1) by (auto simp: stored_keys_ok_def)
  moreover have "last (take i ?ks) = ?ks ! (i - 1)"
    using assms(2,3) by (subst last_conv_nth) (auto simp: min_def)
  ultimately show ?thesis
    using filter_after_page [of ?ks i] assms(2,3) by simp
qed

lemma last_of_page: "0 < amount \<Longrightarrow> i + amount < length ks \<Longrightarrow> last (take amount (drop i ks)) = ks ! (i + amount - 1)"
  by (subst last_conv_nth) (auto simp: min_def)

lemma listObjects_page:
  assumes st: "stored_keys_ok st" and n: "0 < amount" and i: "i = 0 \<or> i < length (matching_keys prefix st)"
  shows "listObjects st prefix amount (position_token st prefix i) = Inr (take amount (drop i (matching_keys prefix st)),
    if i + amount < length (matching_keys prefix st) then position_token st prefix (i + amount) else None)"
proof -
  let ?ks = "matching_keys prefix st"
  let ?params = "\<lparr>lp_prefix = prefix, lp_delimiter = [], lp_maxKeys = amount,
      lp_continuationToken = (case position_token st prefix i of None \<Rightarrow> [] | Some t \<Rightarrow> t), lp_startAfter = []\<rparr>"
  let ?after = "if i = 0 then None else Some (?ks ! (i - 1))"
  have sel: "selected_keys ?params ?after st = drop i ?ks"
    using keys_before [of i prefix st] keys_after [of st i prefix] st i by (cases "i = 0") (auto simp: selected_keys_eq)
  have stored: "\<forall>k \<in> fst ` set (ms_objects st). k \<noteq> []"
    using st by (auto simp: stored_keys_ok_def)
  have given: "lp_continuationToken ?params \<noteq> [] \<Longrightarrow>
      \<exists>a. decodeContinuationToken (lp_continuationToken ?params) = Inr a \<and> ?after = Some a"
    using keys_before [of i prefix st] st i
    by (cases "i = 0") (auto simp: position_token_def continuation_token_roundtrip)
  have missing: "lp_continuationToken ?params = [] \<Longrightarrow> ?after = None"
    using keys_before [of i prefix st] st i encode_token_nonempty by (cases "i = 0") (auto simp: position_token_def)
  obtain r where r: "list_objects ?params st = Inr r" "page_keys r = take amount (drop i ?ks)"
    "lr_next r = (if amount < length (drop i ?ks) then Some (encodeContinuationToken (last (take amount (drop i ?ks)))) else None)"
  proof (rule page_no_delimiter [of ?params ?after st])
    show "lp_continuationToken ?params \<noteq> [] \<Longrightarrow>
        \<exists>a. decodeContinuationToken (lp_continuationToken ?params) = Inr a \<and> ?after = Some a"
      by (rule given)
    show "lp_continuationToken ?params = [] \<Longrightarrow> ?after = (if lp_startAfter ?params \<noteq> [] then Some (lp_startAfter ?params) else None)"
      using missing by simp
  qed (use stored n sel that in simp_all)
  have "lr_isTruncated r = (lr_next r \<noteq> None)"
    using r(1) by (auto simp: list_objects_def Let_def split: sum.splits)
  then show ?thesis
    using r n last_of_page [of amount i ?ks] by (auto simp: listObjects_def position_token_def)
qed

interpretation memory_pages: key_listing stored_keys_ok listObjects "\<lambda>st prefix. matching_keys prefix st" position_token
proof
  fix st prefix i
  assume "stored_keys_ok st" "0 < i" "i < length (matching_keys prefix st)"
  then show "position_token st prefix i \<noteq> None \<and> position_token st prefix i \<noteq> Some []"
    using keys_before [of i prefix st] encode_token_nonempty by (auto simp: position_token_def)
qed (simp_all add: position_token_def [of _ _ 0] listObjects_page, auto dest: matching_stored)

section \<open>Properties\<close>

abbreviation memory_source :: "part_host \<Rightarrow> part_resource \<Rightarrow> reader \<Rightarrow> (part_value jsobj \<Rightarrow> ustring) \<Rightarrow> memory_storage \<Rightarrow> page_source" where
  "memory_source h r get digest st \<equiv>
     \<lparr>sr_host = h, sr_resource = r, sr_get = get, sr_lister = listObjects st, sr_digest = digest\<rparr>"

definition number_request :: "page_partition \<Rightarrow> nat \<Rightarrow> nat \<Rightarrow> page_params" where
  "number_request part amount n =
     \<lparr>pp_page = Some (Some (int n)), pp_size = int amount, pp_part = part, pp_cursor = None, pp_offset = False\<rparr>"

definition cursor_request :: "page_partition \<Rightarrow> nat \<Rightarrow> ustring option \<Rightarrow> page_params" where
  "cursor_request part amount c = \<lparr>pp_page = None, pp_size = int amount, pp_part = part, pp_cursor = Some c, pp_offset = False\<rparr>"

definition pages_read :: "page_source \<Rightarrow> page_params list \<Rightarrow> cursor_cache \<Rightarrow> cursor_cache" where
  "pages_read s requests cache = fold (\<lambda>pp cache. snd (resource_page s pp cache)) requests cache"

lemma number_request_eq: "0 < amount \<Longrightarrow> resource_page s (number_request part amount (Suc n)) cache =
    apfst (map_sum id (\<lambda>res. \<lparr>pg_items = dp_items res, pg_page = Some (int (Suc n)), pg_pageSize = int amount,
        pg_hasMore = (dp_nextCursor res \<noteq> None), pg_nextCursor = dp_nextCursor res\<rparr>))
      (listPageByPageNumber s part amount (Suc n) cache)"
  by (simp add: resource_page_def number_request_def nat_add_distrib)

text \<open>
  The checkpoints of one listing have keys of their own when the partitions are not called \<open>main\<close>, the name that
  stands for no partition, names and digests have no slash, and the digests tell the values apart.
\<close>

abbreviation part_values_of :: "page_partition \<Rightarrow> part_value jsobj" where
  "part_values_of part \<equiv> (case part of None \<Rightarrow> [] | Some (p, values) \<Rightarrow> values)"

definition checkpoint_names_ok :: "page_source \<Rightarrow> page_partition set \<Rightarrow> bool" where
  "checkpoint_names_ok s parts \<longleftrightarrow>
     (\<forall>part \<in> parts. 47 \<notin> set (sr_digest s (part_values_of part)) \<and>
        (case part of None \<Rightarrow> True | Some (p, values) \<Rightarrow> 47 \<notin> set p \<and> p \<noteq> ju ''main'')) \<and>
     inj_on (sr_digest s) (part_values_of ` parts)"

lemma no_slash: "47 \<notin> set (decimal_text n)" "47 \<notin> set (ju ''main'')"
  using decimal_text_digits [of n] by (auto simp: list_all_iff is_digit_def ju_def)

lemma until_slash: "x @ 47 # a = y @ 47 # b \<Longrightarrow> 47 \<notin> set x \<Longrightarrow> 47 \<notin> set y \<Longrightarrow> x = y \<and> a = b"
  for x y a b :: ustring
  by (auto simp: append_eq_append_conv2 Cons_eq_append_conv append_eq_Cons_conv)

lemma checkpoint_key_parts:
  assumes "checkpoint_names_ok s parts" "part \<in> parts" "part' \<in> parts"
    and key: "buildCursorCheckpointCacheKey s part amount page = buildCursorCheckpointCacheKey s part' amount' page'"
  shows "part = part' \<and> amount = amount'"
proof -
  define name :: "page_partition \<Rightarrow> ustring" where
    "name = (\<lambda>part. case part of None \<Rightarrow> ju ''main'' | Some (p, values) \<Rightarrow> p)"
  have plain: "47 \<notin> set (name x)" "47 \<notin> set (sr_digest s (part_values_of x))" if "x \<in> parts" for x
    using assms(1) that no_slash(2) by (auto simp: checkpoint_names_ok_def name_def split: option.splits)
  have slash: "ju ''/size='' = 47 # ju ''size=''" "ju ''/values='' = 47 # ju ''values=''" "ju ''/page='' = 47 # ju ''page=''"
    by (simp_all add: ju_def)
  have "name part @ 47 # ju ''size='' @ decimal_text amount @ 47 # ju ''values='' @ sr_digest s (part_values_of part) @
        47 # ju ''page='' @ decimal_text page @ ju ''.json'' =
      name part' @ 47 # ju ''size='' @ decimal_text amount' @ 47 # ju ''values='' @ sr_digest s (part_values_of part') @
        47 # ju ''page='' @ decimal_text page' @ ju ''.json''"
    using key by (simp add: buildCursorCheckpointCacheKey_def name_def slash split: option.splits prod.splits)
  from until_slash [OF this plain(1) plain(1), OF assms(2,3)]
  have names: "name part = name part'" and rest: "decimal_text amount @ 47 # ju ''values='' @ sr_digest s (part_values_of part) @
        47 # ju ''page='' @ decimal_text page @ ju ''.json'' =
      decimal_text amount' @ 47 # ju ''values='' @ sr_digest s (part_values_of part') @
        47 # ju ''page='' @ decimal_text page' @ ju ''.json''"
    by simp_all
  from until_slash [OF rest no_slash(1) no_slash(1)]
  have amounts: "decimal_text amount = decimal_text amount'" and rest: "sr_digest s (part_values_of part) @
        47 # ju ''page='' @ decimal_text page @ ju ''.json'' = sr_digest s (part_values_of part') @
        47 # ju ''page='' @ decimal_text page' @ ju ''.json''"
    by simp_all
  from until_slash [OF rest plain(2) plain(2), OF assms(2,3)] assms(1-3)
  have "part_values_of part = part_values_of part'"
    by (auto simp: checkpoint_names_ok_def inj_on_def)
  moreover have main: "name x \<noteq> ju ''main''" if "x \<in> parts" "x \<noteq> None" for x
    using assms(1) that by (auto simp: checkpoint_names_ok_def name_def)
  ultimately have "part = part'"
    using names main [OF assms(2)] main [OF assms(3)] by (cases part; cases part') (auto simp: name_def)
  with amounts show ?thesis
    by (simp add: decimal_text_inject)
qed

text \<open>Reading the pages of one listing leaves the checkpoints of the others.\<close>

definition other_listing :: "page_source \<Rightarrow> page_partition \<Rightarrow> nat \<Rightarrow> page_partition \<Rightarrow> nat \<Rightarrow> bool" where
  "other_listing s part amount part' amount' \<longleftrightarrow> (\<forall>page page'.
     buildCursorCheckpointCacheKey s part amount page \<noteq> buildCursorCheckpointCacheKey s part' amount' page')"

lemma set_other: "other_listing s part amount part' amount' \<Longrightarrow>
    checkpoints_ok s part amount mark (setCheckpoint s part' amount' page c cache) = checkpoints_ok s part amount mark cache"
  by (auto simp: checkpoints_ok_def getCheckpoint_def setCheckpoint_def other_listing_def split: option.splits)

lemma walk_other: "other_listing s part amount part' amount' \<Longrightarrow>
    checkpoints_ok s part amount mark (snd (walk_pages s part' amount' n cur c cache)) = checkpoints_ok s part amount mark cache"
  by (induction s part' amount' n cur c cache rule: walk_pages.induct)
    (auto simp: set_other Let_def split: option.split sum.split)

lemma target_other: "other_listing s part amount part' amount' \<Longrightarrow>
    checkpoints_ok s part amount mark (snd (target_page s part' amount' page c cache)) = checkpoints_ok s part amount mark cache"
  by (auto simp: target_page_def set_other split: option.split sum.split)

lemma numbered_other:
  assumes "other_listing s part amount part' amount'"
  shows "checkpoints_ok s part amount mark (snd (listPageByPageNumber s part' amount' page cache)) =
    checkpoints_ok s part amount mark cache"
proof -
  obtain res cache' where walk: "walk_pages s part' amount' (page - 1) 1 None (setCheckpoint s part' amount' 1 None cache) = (res, cache')"
    by fastforce
  then have "checkpoints_ok s part amount mark cache' = checkpoints_ok s part amount mark cache"
    using walk_other [OF assms, of mark "page - 1" 1 None "setCheckpoint s part' amount' 1 None cache"] by (simp add: set_other [OF assms])
  then show ?thesis
    using walk by (auto simp: listPageByPageNumber_def Let_def set_other [OF assms] target_other [OF assms] split: option.split sum.split)
qed

lemma page_read_ok:
  assumes st: "stored_keys_ok st" and prefix: "page_prefix h r part = Inr prefix" and n: "0 < amount"
    and s: "s = memory_source h r get digest st" and names: "checkpoint_names_ok s parts" "part \<in> parts" "pp_part pp \<in> parts"
    and ok: "checkpoints_ok s part amount (checkpoint_at (position_token st prefix) (matching_keys prefix st) prefix amount) cache"
  shows "checkpoints_ok s part amount (checkpoint_at (position_token st prefix) (matching_keys prefix st) prefix amount)
    (snd (resource_page s pp cache))"
proof -
  let ?mark = "checkpoint_at (position_token st prefix) (matching_keys prefix st) prefix amount"
  let ?size = "nat (if pp_size pp > 0 then pp_size pp else 100)"
  have "checkpoints_ok s part amount ?mark (snd (listPageByPageNumber s (pp_part pp) ?size (nat k) cache))" if k: "\<not> k < 1" for k :: int
  proof (cases "pp_part pp = part \<and> ?size = amount")
    case True
    obtain l where "nat k = Suc l"
      using k by (cases "nat k") auto
    moreover have "sr_lister s = listObjects st" "page_prefix (sr_host s) (sr_resource s) part = Inr prefix"
      by (simp_all add: s prefix)
    ultimately show ?thesis
      using memory_pages.numbered [OF st _ _ n ok, of l] True by auto
  next
    case False
    then have "other_listing s part amount (pp_part pp) ?size"
      using checkpoint_key_parts [OF names(1,2,3)] by (fastforce simp: other_listing_def)
    then show ?thesis
      using ok by (simp only: numbered_other)
  qed
  then show ?thesis
    using ok by (auto simp: resource_page_def Let_def split: option.split)
qed

lemma pages_read_ok:
  assumes st: "stored_keys_ok st" and prefix: "page_prefix h r part = Inr prefix" and n: "0 < amount"
    and s: "s = memory_source h r get digest st" and names: "checkpoint_names_ok s (insert part (pp_part ` set earlier))"
    and ok: "checkpoints_ok s part amount (checkpoint_at (position_token st prefix) (matching_keys prefix st) prefix amount) cache"
  shows "checkpoints_ok s part amount (checkpoint_at (position_token st prefix) (matching_keys prefix st) prefix amount)
    (pages_read s earlier cache)"
proof -
  have "checkpoints_ok s part amount (checkpoint_at (position_token st prefix) (matching_keys prefix st) prefix amount)
      (pages_read s rs cache)" if "set rs \<subseteq> set earlier" for rs
    using that ok
  proof (induction rs arbitrary: cache)
    case (Cons pp rs)
    have "checkpoints_ok s part amount (checkpoint_at (position_token st prefix) (matching_keys prefix st) prefix amount)
        (snd (resource_page s pp cache))"
      by (rule page_read_ok [OF st prefix n s names]) (use Cons.prems in auto)
    with Cons show ?case by (simp add: pages_read_def)
  qed (simp add: pages_read_def)
  then show ?thesis by simp
qed

text \<open>
  C10 (resource queries). Read by its number, a page holds the records of its slice of the sorted keys, whatever
  calls of \<open>page\<close> came before, of this and of other partitions and sizes, by number, by cursor or
  failing, and left their checkpoints in the cache that was empty at first. The stored keys do not change
  meanwhile; the partitions are not called \<open>main\<close>, and their names and digests have no slash and
  tell the listings apart.
\<close>

theorem page_number_slice:
  assumes "stored_keys_ok st" "page_prefix h r part = Inr prefix" "0 < amount" "0 < n"
    and "checkpoint_names_ok s (insert part (pp_part ` set earlier))"
    and "cache = None \<or> cache = Some Map.empty"
    and s_def: "s = memory_source h r get digest st"
  shows "\<exists>res. fst (resource_page s (number_request part amount n) (pages_read s earlier cache)) = Inr res \<and>
    pg_items res = page_docs h r get part (take amount (drop ((n - 1) * amount) (matching_keys prefix st))) \<and>
    pg_hasMore res = (n * amount < length (matching_keys prefix st))"
proof -
  obtain k where n: "n = Suc k" using assms(4) by (cases n) auto
  have "checkpoints_ok s part amount (checkpoint_at (position_token st prefix) (matching_keys prefix st) prefix amount)
      (pages_read s earlier cache)"
    using assms checkpoints_ok_empty by (intro pages_read_ok) auto
  from memory_pages.numbered [OF assms(1) _ _ assms(3) this, of k] obtain cache' where
    "listPageByPageNumber s part amount n (pages_read s earlier cache) =
      (Inr (numbered_page s part (position_token st prefix) (matching_keys prefix st) prefix amount n), cache')"
    using assms(2) by (auto simp: s_def n)
  moreover have "checkpoint_at (position_token st prefix) (matching_keys prefix st) prefix amount (Suc n) \<noteq> None \<longleftrightarrow>
      n * amount < length (matching_keys prefix st)"
    using memory_pages.marks(2) [OF assms(1) assms(4) assms(3), of prefix] by auto
  ultimately show ?thesis
    by (simp add: n number_request_eq assms(3) numbered_page_def s_def)
qed

text \<open>A partition called \<open>main\<close>, read without values, shares the checkpoints of the whole resource.\<close>

lemma main_partition_collides:
  "buildCursorCheckpointCacheKey s (Some (ju ''main'', [])) amount page = buildCursorCheckpointCacheKey s None amount page"
  by (simp add: buildCursorCheckpointCacheKey_def)

lemma cursor_trim: "js_trim (encodeCursorPayload p) = encodeCursorPayload p"
proof (intro js_trim_id ballI)
  fix u
  assume "u \<in> set (encodeCursorPayload p)"
  then obtain v where "v \<in> set (b64_encode (utf8_encode (the (json_stringify (payload_json p)))))" "u = url_safe v"
    by (auto simp: encodeCursorPayload_def strip_padding_def dest!: set_dropWhileD)
  then show "\<not> trim_ws u"
    using b64_no_space [of v] by (auto simp: url_safe_def trim_ws_def)
qed

text \<open>
  C15 (resource queries). When a page says that there are more, its next cursor gives the page that
  the next number gives: the next slice of the keys.
\<close>

theorem page_cursor_follows:
  assumes "stored_keys_ok st" "page_prefix h r part = Inr prefix" "0 < amount" "0 < n"
    and more: "n * amount < length (matching_keys prefix st)"
    and s_def: "s = memory_source h r get digest st"
  shows "\<exists>res c res'. fst (resource_page s (number_request part amount n) None) = Inr res \<and>
    pg_nextCursor res = Some c \<and> fst (resource_page s (cursor_request part amount (Some c)) None) = Inr res' \<and>
    pg_items res' = page_docs h r get part (take amount (drop (n * amount) (matching_keys prefix st))) \<and>
    pg_hasMore res' = (Suc n * amount < length (matching_keys prefix st))"
proof -
  let ?keys = "matching_keys prefix st"
  let ?mark = "checkpoint_at (position_token st prefix) ?keys prefix amount"
  let ?page = "numbered_page s part (position_token st prefix) ?keys prefix amount"
  obtain k where n: "n = Suc k" using assms(4) by (cases n) auto
  obtain cache' where page: "listPageByPageNumber s part amount n None = (Inr (?page n), cache')"
    using memory_pages.numbered [OF assms(1) _ _ assms(3) checkpoints_ok_empty(1), of s part prefix k] assms(2) s_def n by auto
  have mark: "?mark (Suc n) \<noteq> None" "?mark (Suc (Suc n)) \<noteq> None \<longleftrightarrow> Suc n * amount < length ?keys"
    using memory_pages.marks(2) [OF assms(1) assms(4,3), of prefix] more
      memory_pages.marks(2) [OF assms(1) zero_less_Suc assms(3), of prefix n] by auto
  then obtain c where c: "?mark (Suc n) = Some c" by blast
  have read: "cursor_page s part amount (Some c) = Inr (?page (Suc n))"
    using memory_pages.page_at_mark [OF assms(1) _ _ assms(3), of s part prefix n] assms(2) mark(1) c s_def by simp
  have "js_trim c = c" "c \<noteq> []"
    using c cursor_trim encode_nonempty assms(3) by (auto simp: checkpoint_at_def cursor_of_def split: if_splits)
  then have second: "fst (resource_page s (cursor_request part amount (Some c)) None) =
      Inr \<lparr>pg_items = dp_items (?page (Suc n)), pg_page = None, pg_pageSize = int amount,
        pg_hasMore = (?mark (Suc (Suc n)) \<noteq> None), pg_nextCursor = ?mark (Suc (Suc n))\<rparr>"
    using read assms(3) by (simp add: resource_page_def cursor_request_def numbered_page_def)
  have "fst (resource_page s (number_request part amount n) None) =
      Inr \<lparr>pg_items = dp_items (?page n), pg_page = Some (int n), pg_pageSize = int amount,
        pg_hasMore = True, pg_nextCursor = Some c\<rparr>"
    using page c assms(3) unfolding n by (simp add: number_request_eq numbered_page_def)
  moreover have "dp_items (?page (Suc n)) = page_docs h r get part (take amount (drop (n * amount) ?keys))"
    by (simp add: numbered_page_def s_def)
  ultimately show ?thesis
    using second mark(2) by simp
qed

text \<open>A cursor that was made for another partition, or for pages of another size, is refused.\<close>

lemma cursor_is_bound:
  assumes "page_prefix (sr_host s) (sr_resource s) part = Inr prefix" "0 < amount" "0 < cp_pageSize p"
    and "cp_prefix p \<noteq> prefix \<or> cp_pageSize p \<noteq> amount"
  shows "resource_page s (cursor_request part amount (Some (encodeCursorPayload p))) cache = (Inl InvalidCursor, cache)"
  using assms encode_nonempty [OF assms(3)]
  by (simp add: resource_page_def cursor_request_def cursor_page_def listPageByCursor_def cursor_token_def cursor_trim
      cursor_reads_back)

text \<open>Two stored records, one to a page.\<close>

definition order_key :: "char list \<Rightarrow> ustring" where
  "order_key i = ju ''resource=orders/data/id='' @ ju i"

definition two_orders :: memory_storage where
  "two_orders = storage_run (\<lambda>b. []) (ten_bytes False)
     [OpPut 0 (order_key ''o2'') (sized 1), OpPut 1 (order_key ''o1'') (sized 2)] new_storage"

definition order_reader :: reader where
  "order_reader = map_of [(ju ''o1'', sample_order ''o1'' ''US''), (ju ''o2'', sample_order ''o2'' ''US'')]"

lemma two_orders_keys: "map fst (ms_objects two_orders) = [order_key ''o2'', order_key ''o1'']"
  by (simp add: two_orders_def storage_run_def new_storage_def put_example order_key_def ju_inject)

lemma two_orders_ok: "stored_keys_ok two_orders"
proof -
  have "fst ` set (ms_objects two_orders) = {order_key ''o2'', order_key ''o1''}"
    using arg_cong [OF two_orders_keys, of set] by simp
  then show ?thesis
    unfolding stored_keys_ok_def two_orders_keys
    by (simp add: order_key_def ju_inject) (simp add: ju_def is_high_def is_low_def)
qed

lemma two_orders_prefix: "page_prefix sample_host (sample_resource []) None = Inr (ju ''resource=orders/data'')"
  by code_simp

lemma two_orders_listed: "matching_keys (ju ''resource=orders/data'') two_orders = [order_key ''o1'', order_key ''o2'']"
  unfolding matching_keys_def two_orders_keys by code_simp

lemma order_page: "page_docs sample_host (sample_resource []) order_reader None [order_key ''o2''] = [sample_order ''o2'' ''US'']"
  by code_simp

definition earlier_calls :: "page_params list" where
  "earlier_calls = [number_request None 1 3, number_request None 2 1, number_request (Some (ju ''byRegion'', [])) 1 1,
     cursor_request None 1 None, number_request None 1 0]"

theorem page_number_slice_witness:
  "\<exists>res. fst (resource_page (memory_source sample_host (sample_resource []) order_reader (\<lambda>v. []) two_orders)
        (number_request None 1 2) (pages_read (memory_source sample_host (sample_resource []) order_reader (\<lambda>v. []) two_orders)
          earlier_calls (Some Map.empty))) = Inr res \<and>
    pg_items res = [sample_order ''o2'' ''US''] \<and> \<not> pg_hasMore res"
proof -
  have "checkpoint_names_ok (memory_source sample_host (sample_resource []) order_reader (\<lambda>v. []) two_orders)
      (insert None (pp_part ` set earlier_calls))"
    by (simp add: checkpoint_names_ok_def earlier_calls_def number_request_def cursor_request_def ju_inject inj_on_def)
      (simp add: ju_def)
  then show ?thesis
    using page_number_slice [OF two_orders_ok two_orders_prefix, of 1 2 _ earlier_calls "Some Map.empty" order_reader "\<lambda>v. []"]
    by (simp add: two_orders_listed order_page)
qed

theorem page_cursor_follows_witness:
  "\<exists>res c res'. fst (resource_page (memory_source sample_host (sample_resource []) order_reader (\<lambda>v. []) two_orders)
        (number_request None 1 1) None) = Inr res \<and> pg_nextCursor res = Some c \<and>
    fst (resource_page (memory_source sample_host (sample_resource []) order_reader (\<lambda>v. []) two_orders)
        (cursor_request None 1 (Some c)) None) = Inr res' \<and>
    pg_items res' = [sample_order ''o2'' ''US''] \<and> \<not> pg_hasMore res'"
  using page_cursor_follows [OF two_orders_ok two_orders_prefix, of 1 1 _ order_reader "\<lambda>v. []"]
  by (simp add: two_orders_listed order_page)

end
