(* ===== verification/Spec2Isabelle.thy ===== *)
theory Spec2Isabelle
  imports JsPrelude JsText JsJson Calculator Behaviors Base62 Dictionary MetadataEncoding MemoryStorage
    OptimizedEncoding Locks Mutex Sequence Queues PriorityQueue PartitionQueue StateMachines LruCache SafeKeys Partitions
    NestedSet TreeInvariant Tournament RoundRobin SingleElimination DoubleElimination Standings
    ResourceQuery Paging
begin

text \<open>
  A development for s3db.js, a document database whose records are S3 objects. A resource maps a
  record to short attribute names, encodes every value as a metadata text, lets its behavior
  decide what goes to the metadata (at most 2047 bytes) and what to the body, and puts the object
  under a key with a client; plugins and the task pool add locks, sequences, queues and caches
  over the same storage. The models follow the TypeScript under \<open>src/\<close>, one theory per
  component, and are executable but for the relations over all interleavings.

  Foundations.
  \<^item> \<open>JsPrelude\<close>: strings as lists of 16-bit units, plain objects as association lists with the
    enumeration order of their keys (array indices first) and the lookups that reach the members
    of \<open>Object.prototype\<close>, the hint collections \<open>js_string\<close> and \<open>js_object\<close>.
  \<^item> \<open>JsText\<close>: UTF-8, base64 and URI components as the platform defines them, with their round
    trips; a decoder replaces what is ill-formed by U+FFFD.
  \<^item> \<open>JsJson\<close>: values, \<open>String(v)\<close>, \<open>JSON.stringify\<close>, and \<open>JSON.parse\<close> with fuel;
    \<open>json_fuel\<close> proves that the length of the text is enough fuel.

  The record path.
  \<^item> \<open>Calculator\<close> (\<open>src/concerns/calculator.ts\<close>): byte counts with their memo table;
    \<open>calculateUTF8Bytes_correct\<close> equates them to the length of the UTF-8 encoding.
  \<^item> \<open>Dictionary\<close>, \<open>MetadataEncoding\<close>, \<open>OptimizedEncoding\<close>, \<open>Base62\<close>
    (\<open>dictionary-encoding.ts\<close>, \<open>metadata-encoding.ts\<close>, \<open>optimized-encoding.ts\<close>,
    \<open>base62.ts\<close> of \<open>src/concerns\<close>): the value encodings, their round trips with the exact
    exceptions, and that what is sent is printable ASCII. \<open>Base62\<close> rounds as doubles do, and its
    round trip holds below \<open>2^53\<close>.
  \<^item> \<open>Behaviors\<close> (\<open>src/behaviors\<close>): the five strategies over mapped records. The loop of
    \<open>truncate-data\<close> is a \<open>while_option\<close>, so that not returning is a value, and one theorem gives
    a record for which it does not return. The locale of the keeping strategies is interpreted on
    \<open>body-only\<close> and \<open>body-overflow\<close>.
  \<^item> \<open>SafeKeys\<close> (\<open>src/concerns/s3-key.ts\<close>, \<open>safe-merge.ts\<close>): how keys are joined and how
    incoming objects are stripped of dangerous names.

  \<^item> \<open>Partitions\<close> (\<open>src/core/resource-partitions.class.ts\<close>, and the handing over of references in
    \<open>resource-persistence.class.ts\<close>): the reference objects that index records by field values. A write
    updates them at once or, by default, in a task that runs later; whenever no task is left they
    are exactly the keys of the records that exist, under conditions on names and values; other
    theorems show what happens without the conditions.
  \<^item> \<open>ResourceQuery\<close> and \<open>Paging\<close> (\<open>src/core/resource-query.class.ts\<close>): filters planned
    onto partitions, and pages by cursor and by number. A query whose plan gives every field of its
    partition finds exactly the matching records when no reference task is left; numbered pages are the slices of the listing
    whatever checkpoints are cached. The locale \<open>key_listing\<close>, what a walk by tokens needs of a
    store, is interpreted on \<open>MemoryStorage\<close>.
  \<^item> \<open>NestedSet\<close> and \<open>TreeInvariant\<close> (\<open>src/plugins/tree/drivers/nested-set.ts\<close>): trees of records
    stored as intervals. The locale \<open>renumbering\<close> of monotone maps is interpreted on the two
    shifts of the driver, and every operation keeps the intervals nested but the promotion of
    children and a move of a node into itself, neither of which \<open>tree_op_ok\<close> allows.

  Storage.
  \<^item> \<open>MemoryStorage\<close> (\<open>src/clients/memory-storage.class.ts\<close>): objects, the memory counter,
    eviction, conditional puts, pages. It refines a map from keys to objects where nothing is
    evicted; continuation by tokens lists every key once.
  \<^item> \<open>LruCache\<close> (\<open>src/plugins/api/concerns/lru-cache.ts\<close>).

  Coordination. The state holds the stored cell and one automaton per client, whose states are the
  points where the client awaits an answer; an event lets one client take one step, and the
  invariants are proved over every list of events.
  \<^item> \<open>Locks\<close> (\<open>src/concerns/distributed-lock.ts\<close>: \<open>acquire\<close>, \<open>release\<close> by handle or by name, and the
    deletions of \<open>isLocked\<close> and \<open>getLockInfo\<close>) and \<open>Sequence\<close>
    (\<open>src/concerns/distributed-sequence.ts\<close>), which takes the lock around a read and a write.
  \<^item> \<open>Mutex\<close> (\<open>src/plugins/concerns/s3-mutex.class.ts\<close> over the conditional writes of
    \<open>src/concerns/plugin-storage.ts\<close>).
  The theorems hold under the condition that a lease is not outlived; others show the steps by
  which the guarantee is lost without it.

  Queues and machines.
  \<^item> \<open>Queues\<close> (\<open>src/tasks/concerns/fifo-task-queue.ts\<close>, \<open>src/concerns/ring-buffer.ts\<close>): arrays
    used as rings refine lists; capacities stay below \<open>2 ^ 30\<close>, where \<open>_normalizeCapacity\<close> does
    not overflow.
  \<^item> \<open>PriorityQueue\<close> (\<open>src/tasks/concerns/priority-task-queue.ts\<close>): the heap in its array, with
    rationals for the doubles of priorities.
  \<^item> \<open>PartitionQueue\<close> (\<open>src/concerns/partition-queue.ts\<close>): retries, timers, saves and loops as an event
    system over shared items; nothing is lost in runs without \<open>stop\<close>, \<open>clear\<close> and \<open>recover\<close>.
  \<^item> \<open>StateMachines\<close> (\<open>src/plugins/api/concerns/state-machine.ts\<close>): stored records follow the tables
    unless the metadata of a transition carries a status.

  Tournaments (\<open>src/plugins/tournament\<close>). A format keeps a bracket; the match manager stores matches
  under \<open>tournament:name\<close>, and a reported result goes to the format, which changes the bracket and
  answers with new matches to store.
  \<^item> \<open>Tournament\<close> (\<open>seeding-strategies.ts\<close>, \<open>bracket-generator.ts\<close>, \<open>types.ts\<close>): seeding, the
    brackets and their byes.
  \<^item> \<open>RoundRobin\<close> (\<open>bracket-generator.ts\<close>, \<open>formats/round-robin.ts\<close>): in the schedule of the circle
    method every two participants meet once in a cycle and nobody plays twice in a round; the current
    round never overtakes an open match; a Swiss round pairs everyone once and repeats no match.
  \<^item> \<open>SingleElimination\<close> (\<open>formats/single-elimination.ts\<close>, \<open>match-manager.ts\<close>): over any list of reported
    results, with at most one bye and no third-place match the tournament has a winner or a match to
    play, and with more byes it is never complete.
  \<^item> \<open>DoubleElimination\<close> (\<open>formats/double-elimination.ts\<close>): under the stored names no result is ever
    processed.
  \<^item> \<open>Standings\<close> (\<open>standings-calculator.ts\<close>): the tables changed in place equal the sums over matches.

  Clocks, random values, digests and the answers of storage services are arguments or events.
  Not modelled: calls of the AWS SDK, of HTTP, of the file system and of external libraries
  (validation, cryptography, web framework, browsers), the registration of participants and the formats that
  combine others (groups, playoffs, divisions), logging, the texts of error messages, and
  the floating-point arithmetic of the numeric encodings beyond integers and exact fractions. The
  resource and database classes compose the parts above by dynamic dispatch and are not modelled
  as a whole.
\<close>

end
